(* ===== verification/Prelude.thy ===== *)
theory Prelude
  imports Main "HOL-Library.Word"
begin

unbundle bit_operations_syntax

text \<open>
  What every component of the prover shares: the types of machine integers and byte strings,
  the outcomes of a Rust function (a value, an \<open>Err\<close>, a panic), operations that change a
  state and may fail half way, and the big-endian encodings of \<open>U256\<close>, \<open>H256\<close> and \<open>u64\<close>.

  A \<open>SH256\<close> (32 bytes) and a \<open>SU256\<close> (an unsigned 256-bit number) are both a 256-bit word:
  the bytes of a \<open>SH256\<close> are the big-endian digits of its word, so that the order of the
  keys of a \<open>BTreeMap\<close> is the order of the words. A \<open>SH160\<close> (an account address) is a
  160-bit word in the same way.
\<close>

named_theorems result_simps \<open>evaluation of outcomes and of stateful operations\<close>
named_theorems preserved \<open>operations that keep an invariant of the state\<close>

type_synonym byte = "8 word"
type_synonym bytes = "byte list"
type_synonym u64 = "64 word"
type_synonym sh160 = "160 word"
type_synonym sh256 = "256 word"
type_synonym su256 = "256 word"

section \<open>Outcomes\<close>

text \<open>
  A Rust function returns a value, returns \<open>Err e\<close>, or panics (a failed \<open>unwrap\<close>, an index
  out of range, \<open>unreachable!\<close>).
\<close>

datatype 'e failure = Fail 'e | Panic

type_synonym ('e, 'a) result = "'e failure + 'a"

abbreviation ok :: "'a \<Rightarrow> ('e, 'a) result" where
  "ok x \<equiv> Inr x"

abbreviation fails :: "'e \<Rightarrow> ('e, 'a) result" where
  "fails e \<equiv> Inl (Fail e)"

abbreviation panics :: "('e, 'a) result" where
  "panics \<equiv> Inl Panic"

definition bind_result :: "('e, 'a) result \<Rightarrow> ('a \<Rightarrow> ('e, 'b) result) \<Rightarrow> ('e, 'b) result" where
  "bind_result r f = (case r of Inl e \<Rightarrow> Inl e | Inr x \<Rightarrow> f x)"

lemma bind_result_simps [simp, result_simps]:
  "bind_result (Inr x) f = f x"
  "bind_result (Inl e) f = Inl e"
  by (simp_all add: bind_result_def)

lemma bind_result_ok_iff:
  "bind_result r f = Inr y \<longleftrightarrow> (\<exists>x. r = Inr x \<and> f x = Inr y)"
  by (cases r) auto

lemma bind_result_cong [fundef_cong]:
  assumes "r = r'" and "\<And>x. r' = Inr x \<Longrightarrow> f x = g x"
  shows "bind_result r f = bind_result r' g"
  using assms by (cases r') auto

text \<open>\<open>r.map_err(f)\<close>: a panic is not an error value and stays.\<close>

fun map_err :: "('d \<Rightarrow> 'e) \<Rightarrow> ('d, 'a) result \<Rightarrow> ('e, 'a) result" where
  "map_err f (Inr x) = Inr x"
| "map_err f (Inl (Fail e)) = Inl (Fail (f e))"
| "map_err f (Inl Panic) = Inl Panic"

text \<open>\<open>r.unwrap()\<close>: an error becomes a panic.\<close>

fun unwrap :: "('d, 'a) result \<Rightarrow> ('e, 'a) result" where
  "unwrap (Inr x) = Inr x"
| "unwrap (Inl e) = Inl Panic"

text \<open>\<open>o.unwrap()\<close> and \<open>o.ok_or(e)\<close> on an \<open>Option\<close>.\<close>

fun unwrap_option :: "'a option \<Rightarrow> ('e, 'a) result" where
  "unwrap_option (Some x) = Inr x"
| "unwrap_option None = Inl Panic"

fun ok_or :: "'e \<Rightarrow> 'a option \<Rightarrow> ('e, 'a) result" where
  "ok_or e (Some x) = Inr x"
| "ok_or e None = Inl (Fail e)"

lemma unwrap_ok_iff [simp]: "unwrap r = Inr x \<longleftrightarrow> r = Inr x"
  by (cases r) auto

lemma unwrap_errorD: "unwrap r = Inl e \<Longrightarrow> e = Panic"
  by (cases r) auto

lemma map_err_ok_iff [simp]: "map_err f r = Inr x \<longleftrightarrow> r = Inr x"
  by (cases "(f, r)" rule: map_err.cases) auto

text \<open>Indexing and slicing panic out of range.\<close>

definition index :: "'a list \<Rightarrow> nat \<Rightarrow> ('e, 'a) result" where
  "index xs i = (if i < length xs then Inr (xs ! i) else Inl Panic)"

definition slice_range :: "'a list \<Rightarrow> nat \<Rightarrow> nat \<Rightarrow> ('e, 'a list) result" where
  "slice_range xs i j = (if i \<le> j \<and> j \<le> length xs then Inr (drop i (take j xs)) else Inl Panic)"

lemma index_ok [simp]: "i < length xs \<Longrightarrow> index xs i = Inr (xs ! i)"
  by (simp add: index_def)

lemma slice_range_ok [simp]: "i \<le> j \<Longrightarrow> j \<le> length xs \<Longrightarrow> slice_range xs i j = Inr (drop i (take j xs))"
  by (simp add: slice_range_def)

text \<open>A loop over a list that stops at the first failure.\<close>

fun map_result :: "('a \<Rightarrow> ('e, 'b) result) \<Rightarrow> 'a list \<Rightarrow> ('e, 'b list) result" where
  "map_result f [] = Inr []"
| "map_result f (x # xs) =
     bind_result (f x) (\<lambda>y. bind_result (map_result f xs) (\<lambda>ys. Inr (y # ys)))"

lemma map_result_all_ok:
  "(\<And>x. x \<in> set xs \<Longrightarrow> f x = Inr (g x)) \<Longrightarrow> map_result f xs = Inr (map g xs)"
  by (induction xs) auto

lemma map_result_length: "map_result f xs = Inr ys \<Longrightarrow> length ys = length xs"
  by (induction xs arbitrary: ys) (auto simp: bind_result_ok_iff)

section \<open>Stateful operations\<close>

text \<open>
  An operation with \<open>&mut\<close> arguments returns its outcome and the state it leaves. The state
  is part of the result on every path: what was written before an \<open>Err\<close> stays written.
\<close>

type_synonym ('s, 'e, 'a) comp = "'s \<Rightarrow> ('e, 'a) result \<times> 's"

definition returnc :: "'a \<Rightarrow> ('s, 'e, 'a) comp" where
  "returnc x s = (Inr x, s)"

definition lift_result :: "('e, 'a) result \<Rightarrow> ('s, 'e, 'a) comp" where
  "lift_result r s = (r, s)"

definition readc :: "('s \<Rightarrow> ('e, 'a) result) \<Rightarrow> ('s, 'e, 'a) comp" where
  "readc f s = (f s, s)"

definition modifyc :: "('s \<Rightarrow> 's) \<Rightarrow> ('s, 'e, unit) comp" where
  "modifyc f s = (Inr (), f s)"

definition bindc :: "('s, 'e, 'a) comp \<Rightarrow> ('a \<Rightarrow> ('s, 'e, 'b) comp) \<Rightarrow> ('s, 'e, 'b) comp" where
  "bindc c f s = (case c s of (Inl e, s') \<Rightarrow> (Inl e, s') | (Inr x, s') \<Rightarrow> f x s')"

lemma comp_simps [simp, result_simps]:
  "returnc x s = (Inr x, s)"
  "lift_result r s = (r, s)"
  "readc f s = (f s, s)"
  "modifyc g s = (Inr (), g s)"
  by (simp_all add: returnc_def lift_result_def readc_def modifyc_def)

lemma bindc_simps [simp, result_simps]:
  "bindc (returnc x) f s = f x s"
  "bindc (lift_result (Inr x)) f s = f x s"
  "bindc (lift_result (Inl e)) f s = (Inl e, s)"
  "bindc (modifyc g) (\<lambda>u. h u) s = h () (g s)"
  by (simp_all add: bindc_def)

lemma bindc_readc [simp, result_simps]: "bindc (readc g) f s = bindc (lift_result (g s)) f s"
  by (simp add: bindc_def)

lemma bindc_ok: "c s = (Inr x, s') \<Longrightarrow> bindc c f s = f x s'"
  by (simp add: bindc_def)

lemma bindc_error: "c s = (Inl e, s') \<Longrightarrow> bindc c f s = (Inl e, s')"
  by (simp add: bindc_def)

lemma bindc_assoc: "bindc (bindc c f) g = bindc c (\<lambda>x. bindc (f x) g)"
  by (rule ext) (simp add: bindc_def split: prod.splits sum.splits)

lemma bindc_return_left: "bindc (returnc x) f = f x"
  by (rule ext) (simp add: bindc_def)

lemma bindc_ok_iff:
  "bindc c f s = (Inr y, t) \<longleftrightarrow> (\<exists>x s'. c s = (Inr x, s') \<and> f x s' = (Inr y, t))"
  by (auto simp: bindc_def split: prod.splits sum.splits)

lemma bindc_cong [fundef_cong]:
  assumes "s = s'" and "c s' = d s'" and "\<And>x t. d s' = (Inr x, t) \<Longrightarrow> f x t = g x t"
  shows "bindc c f s = bindc d g s'"
  using assms by (auto simp: bindc_def split: prod.splits sum.splits)

text \<open>
  An invariant of the state that an operation keeps whether it returns or fails, composed
  along the operation's own structure.
\<close>

definition keeps :: "('s \<Rightarrow> bool) \<Rightarrow> ('s, 'e, 'a) comp \<Rightarrow> bool" where
  "keeps I c \<longleftrightarrow> (\<forall>s. I s \<longrightarrow> I (snd (c s)))"

lemma keepsD: "keeps I c \<Longrightarrow> I s \<Longrightarrow> I (snd (c s))"
  by (simp add: keeps_def)

lemma keepsI: "(\<And>s. I s \<Longrightarrow> I (snd (c s))) \<Longrightarrow> keeps I c"
  by (simp add: keeps_def)

lemma keeps_basic [preserved]:
  "keeps I (returnc x)" "keeps I (lift_result r)" "keeps I (readc f)"
  by (simp_all add: keeps_def)

lemma keeps_modifyc [preserved]: "(\<And>s. I s \<Longrightarrow> I (g s)) \<Longrightarrow> keeps I (modifyc g)"
  by (simp add: keeps_def)

lemma keeps_bindc [preserved]:
  assumes "keeps I c" and "\<And>x. keeps I (f x)"
  shows "keeps I (bindc c f)"
proof (rule keepsI)
  fix s assume "I s"
  obtain r t where ct: "c s = (r, t)" by fastforce
  with assms(1) \<open>I s\<close> have "I t" by (auto dest: keepsD)
  then show "I (snd (bindc c f s))"
    using assms(2) ct by (cases r) (auto simp: bindc_def dest: keepsD)
qed

section \<open>Big-endian encodings\<close>

primrec be_bytes :: "nat \<Rightarrow> nat \<Rightarrow> bytes" where
  "be_bytes 0 x = []"
| "be_bytes (Suc n) x = be_bytes n (x div 256) @ [of_nat x]"

definition be_nat :: "bytes \<Rightarrow> nat" where
  "be_nat bs = foldl (\<lambda>a b. a * 256 + unat b) 0 bs"

lemma length_be_bytes [simp]: "length (be_bytes n x) = n"
  by (induction n arbitrary: x) auto

lemma be_nat_Nil [simp]: "be_nat [] = 0"
  by (simp add: be_nat_def)

lemma be_nat_snoc [simp]: "be_nat (bs @ [b]) = be_nat bs * 256 + unat b"
  by (simp add: be_nat_def)

lemma unat_of_nat_byte: "unat (of_nat x :: byte) = x mod 256"
  by (simp add: unat_of_nat)

lemma unat_byte_less [simp]: "unat (b :: byte) < 256"
  using unsigned_less [of b, where ?'a = nat] by simp

lemma be_nat_be_bytes: "be_nat (be_bytes n x) = x mod 256 ^ n"
proof (induction n arbitrary: x)
  case (Suc n)
  have "be_nat (be_bytes (Suc n) x) = (x div 256) mod 256 ^ n * 256 + x mod 256"
    by (simp add: Suc unat_of_nat_byte)
  also have "\<dots> = x mod (256 * 256 ^ n)"
    by (simp add: mod_mult2_eq)
  finally show ?case by simp
qed simp

lemma be_nat_less: "be_nat bs < 256 ^ length bs"
proof (induction bs rule: rev_induct)
  case (snoc b bs)
  have "be_nat bs * 256 + unat b < (be_nat bs + 1) * 256" by simp
  also have "\<dots> \<le> 256 ^ length bs * 256" using snoc by (intro mult_right_mono) auto
  finally show ?case by simp
qed simp

lemma be_bytes_be_nat: "be_bytes (length bs) (be_nat bs) = bs"
proof (induction bs rule: rev_induct)
  case (snoc b bs)
  have "(be_nat bs * 256 + unat b) div 256 = be_nat bs" by simp
  moreover have "(of_nat (be_nat bs * 256 + unat b) :: byte) = b"
    by (rule word_unat_eq_iff [THEN iffD2]) (simp only: unat_of_nat_byte, simp)
  ultimately show ?case using snoc by simp
qed simp

lemma be_nat_inj: "length xs = length ys \<Longrightarrow> be_nat xs = be_nat ys \<Longrightarrow> xs = ys"
  by (metis be_bytes_be_nat)

lemma drop_be_bytes: "drop m (be_bytes (m + k) x) = be_bytes k x"
  by (induction k arbitrary: x) simp_all

lemma take_be_bytes: "take m (be_bytes (m + k) x) = be_bytes m (x div 256 ^ k)"
  by (induction k arbitrary: x) (simp_all add: div_mult2_eq mult.commute)

text \<open>\<open>to_big_endian\<close>/\<open>as_bytes\<close> of a 256-bit value and \<open>from_big_endian\<close>/\<open>from_slice\<close>.\<close>

definition word_bytes :: "sh256 \<Rightarrow> bytes" where
  "word_bytes w = be_bytes 32 (unat w)"

definition word_of_bytes :: "bytes \<Rightarrow> sh256" where
  "word_of_bytes bs = of_nat (be_nat bs)"

lemma length_word_bytes [simp]: "length (word_bytes w) = 32"
  by (simp add: word_bytes_def)

lemma word_of_bytes_word_bytes [simp]: "word_of_bytes (word_bytes w) = w"
proof -
  have "unat w < 256 ^ 32" using unsigned_less [of w, where ?'a = nat] by simp
  then show ?thesis by (simp add: word_of_bytes_def word_bytes_def be_nat_be_bytes del: power_numeral)
qed

lemma word_bytes_word_of_bytes: "length bs = 32 \<Longrightarrow> word_bytes (word_of_bytes bs) = bs"
proof -
  assume len: "length bs = 32"
  have "be_nat bs < 2 ^ 256" using be_nat_less [of bs] len by simp
  then have "unat (word_of_bytes bs) = be_nat bs"
    by (simp add: word_of_bytes_def unat_of_nat)
  then show ?thesis using be_bytes_be_nat [of bs] len by (simp add: word_bytes_def)
qed

lemma word_bytes_inject [simp]: "word_bytes v = word_bytes w \<longleftrightarrow> v = w"
  by (metis word_of_bytes_word_bytes)

text \<open>\<open>SH256::from_slice\<close> panics unless the slice has 32 bytes.\<close>

definition sh256_from_slice :: "bytes \<Rightarrow> ('e, sh256) result" where
  "sh256_from_slice bs = (if length bs = 32 then Inr (word_of_bytes bs) else Inl Panic)"

text \<open>\<open>SU256::as_u64\<close> panics when the value does not fit.\<close>

definition as_u64 :: "su256 \<Rightarrow> ('e, u64) result" where
  "as_u64 x = (if unat x < 2 ^ 64 then Inr (ucast x) else Inl Panic)"

definition u64_bytes :: "u64 \<Rightarrow> bytes" where
  "u64_bytes x = be_bytes 8 (unat x)"

definition u64_of_bytes :: "bytes \<Rightarrow> u64" where
  "u64_of_bytes bs = of_nat (be_nat bs)"

lemma length_u64_bytes [simp]: "length (u64_bytes x) = 8"
  by (simp add: u64_bytes_def)

lemma u64_of_bytes_u64_bytes [simp]: "u64_of_bytes (u64_bytes x) = x"
proof -
  have "unat x < 256 ^ 8" using unsigned_less [of x, where ?'a = nat] by simp
  then show ?thesis by (simp add: u64_of_bytes_def u64_bytes_def be_nat_be_bytes del: power_numeral)
qed

lemma unat_ucast_u64 [simp]: "unat (ucast (x :: u64) :: 256 word) = unat x"
  using unsigned_less [of x, where ?'a = nat]
  by (simp add: unsigned_ucast_eq take_bit_nat_eq_self_iff del: unsigned_less)

lemma ucast_ucast_u64 [simp]: "(ucast (ucast (x :: u64) :: 256 word) :: u64) = x"
proof -
  have "unat (ucast (ucast x :: 256 word) :: u64) = unat x"
    using unsigned_less [of x, where ?'a = nat]
    by (subst unsigned_ucast_eq) (simp add: take_bit_nat_eq_self_iff del: unsigned_less)
  then show ?thesis by (simp only: word_unat_eq_iff)
qed

lemma as_u64_ucast [simp]: "as_u64 (ucast (x :: u64)) = Inr x"
  using unsigned_less [of x, where ?'a = nat] by (simp add: as_u64_def del: unsigned_less)

section \<open>Decimal numbers\<close>

text \<open>\<open>format!("{}", n)\<close> of an unsigned number.\<close>

fun show_nat :: "nat \<Rightarrow> string" where
  "show_nat n = (if n < 10 then [char_of (48 + n)] else show_nat (n div 10) @ [char_of (48 + n mod 10)])"

declare show_nat.simps [simp del]

end
