(* ===== verification/Fr_Field.thy ===== *)
theory Fr_Field
  imports Prelude
begin

text \<open>
  The scalar field of BLS12-377 (\<open>src/common/mimc/src/fr.rs\<close>). \<open>Fr\<close> wraps the 256-bit
  \<open>FrRepr\<close> (four \<open>u64\<close> limbs, the least significant first), in Montgomery form. The
  arithmetic is generated by the derive macro of the \<open>ff\<close> crate, which is not part of the
  repository: the record \<open>ff\<close> holds the generated methods the code calls, the locale
  \<open>ff_field\<close> what the crate documents of them, and \<open>mont_ff\<close> is Montgomery arithmetic
  with this modulus, an instance of the laws.
\<close>

section \<open>Data\<close>

definition fr_modulus :: nat where
  "fr_modulus = 8444461749428370424248824938781546531375899335154063827935233455917409239041"

text \<open>The inverse of \<open>2 ^ 256\<close> modulo the modulus, which gives a raw value its meaning.\<close>

definition mont_r_inv :: nat where
  "mont_r_inv = 3482466379256973933331601287759811764685972354380176549708408303012390300674"

datatype fr = Fr (fr_raw: "256 word")

definition frrepr_of_limbs :: "nat list \<Rightarrow> 256 word" where
  "frrepr_of_limbs ls = of_nat (foldr (\<lambda>l acc. l + 2 ^ 64 * acc) ls 0)"

definition fr_default :: fr where
  "fr_default = Fr 0"

record ff =
  ff_read_be :: "bytes \<Rightarrow> 256 word option"
  ff_write_be :: "256 word \<Rightarrow> bytes"
  ff_mul_assign :: "fr \<Rightarrow> fr \<Rightarrow> fr"
  ff_add_assign :: "fr \<Rightarrow> fr \<Rightarrow> fr"
  ff_square :: "fr \<Rightarrow> fr"
  ff_from_raw_repr :: "256 word \<Rightarrow> (string, fr) result"
  ff_into_raw_repr :: "fr \<Rightarrow> 256 word"
  ff_into_repr :: "fr \<Rightarrow> 256 word"

section \<open>Operations of the source\<close>

definition r_square :: "ff \<Rightarrow> (string, fr) result" where
  "r_square F = unwrap (ff_from_raw_repr F (frrepr_of_limbs
     [2726216793283724667, 14712177743343147295, 12091039717619697043, 81024008013859129]))"

definition fr_from_be :: "ff \<Rightarrow> bytes \<Rightarrow> (string, fr) result" where
  "fr_from_be F data =
     bind_result (unwrap_option (ff_read_be F data)) (\<lambda>repr.
     bind_result (r_square F) (\<lambda>r2.
       let tmpfr = ff_mul_assign F (Fr repr) r2
       in ff_from_raw_repr F (ff_into_raw_repr F tmpfr)))"

definition fr_bytes :: "ff \<Rightarrow> fr \<Rightarrow> bytes" where
  "fr_bytes F x = ff_write_be F (ff_into_repr F x)"

definition byte_order_element :: "ff \<Rightarrow> bytes \<Rightarrow> (string, fr) result" where
  "byte_order_element F data = fr_from_be F data"

section \<open>What the generated field promises\<close>

text \<open>
  The value of an element is its raw number divided by \<open>2 ^ 256\<close>; an element is reduced when
  its raw number is below the modulus (\<open>is_valid\<close> of the generated code).
\<close>

definition fr_val :: "fr \<Rightarrow> nat" where
  "fr_val x = unat (fr_raw x) * mont_r_inv mod fr_modulus"

definition fr_reduced :: "fr \<Rightarrow> bool" where
  "fr_reduced x \<longleftrightarrow> unat (fr_raw x) < fr_modulus"

lemma fr_modulus_pos [simp]: "0 < fr_modulus"
  by (simp add: fr_modulus_def)

lemma fr_modulus_less: "fr_modulus < 2 ^ 256"
  by (simp add: fr_modulus_def)

lemma fr_val_less: "fr_val x < fr_modulus"
  by (simp add: fr_val_def)

lemma fr_default_reduced [simp]: "fr_reduced fr_default"
  by (simp add: fr_reduced_def fr_default_def)

lemma fr_default_val [simp]: "fr_val fr_default = 0"
  by (simp add: fr_val_def fr_default_def)

lemma mont_r_inv_inverse: "2 ^ 256 * mont_r_inv mod fr_modulus = 1"
  by (simp add: mont_r_inv_def fr_modulus_def)

text \<open>The constant of the source is \<open>2 ^ 512\<close> modulo the modulus, and reduced.\<close>

abbreviation r_square_word :: "256 word" where
  "r_square_word \<equiv> frrepr_of_limbs
     [2726216793283724667, 14712177743343147295, 12091039717619697043, 81024008013859129]"

lemma unat_r_square_word:
  "unat r_square_word = 508595941311779472113692600146818027278633330499214071737745792929336755579"
  by (simp add: frrepr_of_limbs_def unat_of_nat)

lemma r_square_reduced: "fr_reduced (Fr r_square_word)"
  by (simp add: fr_reduced_def unat_r_square_word fr_modulus_def)

lemma fr_val_r_square: "fr_val (Fr r_square_word) = 2 ^ 256 mod fr_modulus"
  by (simp add: fr_val_def unat_r_square_word mont_r_inv_def fr_modulus_def)

locale ff_field =
  fixes F :: ff
  assumes read_be: "length data = 32 \<Longrightarrow> ff_read_be F data = Some (word_of_bytes data)"
    and write_be: "ff_write_be F w = word_bytes w"
    and mul_reduced: "fr_reduced y \<Longrightarrow> fr_reduced (ff_mul_assign F x y)"
    and mul_val: "fr_reduced y \<Longrightarrow>
      fr_val (ff_mul_assign F x y) = fr_val x * fr_val y mod fr_modulus"
    and add_reduced: "fr_reduced x \<Longrightarrow> fr_reduced y \<Longrightarrow> fr_reduced (ff_add_assign F x y)"
    and add_val: "fr_reduced x \<Longrightarrow> fr_reduced y \<Longrightarrow>
      fr_val (ff_add_assign F x y) = (fr_val x + fr_val y) mod fr_modulus"
    and square_reduced: "fr_reduced x \<Longrightarrow> fr_reduced (ff_square F x)"
    and square_val: "fr_reduced x \<Longrightarrow> fr_val (ff_square F x) = fr_val x * fr_val x mod fr_modulus"
    and from_raw: "unat w < fr_modulus \<Longrightarrow> ff_from_raw_repr F w = Inr (Fr w)"
    and from_raw_error: "\<not> unat w < fr_modulus \<Longrightarrow> \<exists>e. ff_from_raw_repr F w = Inl (Fail e)"
    and into_raw: "ff_into_raw_repr F x = fr_raw x"
    and into_repr: "fr_reduced x \<Longrightarrow> unat (ff_into_repr F x) = fr_val x"
begin

lemma r_square_ok: "r_square F = Inr (Fr r_square_word)"
  using r_square_reduced by (simp add: r_square_def fr_reduced_def from_raw)

lemma from_be_ok:
  assumes "length data = 32"
  shows "\<exists>x. fr_from_be F data = Inr x \<and> fr_reduced x \<and> fr_val x = be_nat data mod fr_modulus"
proof -
  let ?x = "ff_mul_assign F (Fr (word_of_bytes data)) (Fr r_square_word)"
  have red: "fr_reduced ?x" by (rule mul_reduced) (rule r_square_reduced)
  have "be_nat data < 2 ^ 256" using be_nat_less [of data] assms by simp
  then have raw: "unat (word_of_bytes data) = be_nat data"
    by (simp add: word_of_bytes_def unat_of_nat)
  have "fr_val ?x = be_nat data * mont_r_inv mod fr_modulus * (2 ^ 256 mod fr_modulus) mod fr_modulus"
    by (simp only: mul_val [OF r_square_reduced] fr_val_r_square)
      (simp only: fr_val_def fr.sel raw)
  also have "\<dots> = be_nat data * (2 ^ 256 * mont_r_inv mod fr_modulus) mod fr_modulus"
    by (simp only: mod_mult_left_eq mod_mult_right_eq mult.assoc mult.commute mult.left_commute)
  finally have val: "fr_val ?x = be_nat data mod fr_modulus"
    by (simp only: mont_r_inv_inverse mult_1_right)
  have "fr_from_be F data = Inr ?x"
    using red by (simp add: fr_from_be_def read_be [OF assms] r_square_ok into_raw from_raw fr_reduced_def)
  with red val show ?thesis by blast
qed

lemma bytes_ok: "fr_reduced x \<Longrightarrow> fr_bytes F x = be_bytes 32 (fr_val x)"
  by (simp add: fr_bytes_def write_be word_bytes_def into_repr)

end

section \<open>Montgomery arithmetic satisfies the laws\<close>

definition mont_of_nat :: "nat \<Rightarrow> fr" where
  "mont_of_nat n = Fr (of_nat (n mod fr_modulus))"

definition mont_mul :: "fr \<Rightarrow> fr \<Rightarrow> fr" where
  "mont_mul x y = mont_of_nat (unat (fr_raw x) * unat (fr_raw y) * mont_r_inv)"

definition mont_add :: "fr \<Rightarrow> fr \<Rightarrow> fr" where
  "mont_add x y = mont_of_nat (unat (fr_raw x) + unat (fr_raw y))"

definition mont_ff :: ff where
  "mont_ff = \<lparr>
     ff_read_be = (\<lambda>data. if length data < 32 then None else Some (word_of_bytes (take 32 data))),
     ff_write_be = word_bytes,
     ff_mul_assign = mont_mul,
     ff_add_assign = mont_add,
     ff_square = (\<lambda>x. mont_mul x x),
     ff_from_raw_repr = (\<lambda>w. if unat w < fr_modulus then Inr (Fr w) else Inl (Fail ''NotInField'')),
     ff_into_raw_repr = fr_raw,
     ff_into_repr = (\<lambda>x. of_nat (fr_val x))\<rparr>"

lemma unat_mod_fr_modulus: "unat (of_nat (n mod fr_modulus) :: 256 word) = n mod fr_modulus"
proof -
  have "n mod fr_modulus < 2 ^ 256"
    using mod_less_divisor [OF fr_modulus_pos, of n] fr_modulus_less by (rule less_trans)
  then show ?thesis by (simp add: unat_of_nat)
qed

lemma mont_of_nat_reduced: "fr_reduced (mont_of_nat n)"
  by (simp add: fr_reduced_def mont_of_nat_def unat_mod_fr_modulus)

lemma mont_of_nat_val: "fr_val (mont_of_nat n) = n * mont_r_inv mod fr_modulus"
  by (simp add: fr_val_def mont_of_nat_def unat_mod_fr_modulus mod_mult_left_eq)

lemma mont_mul_val: "fr_val (mont_mul x y) = fr_val x * fr_val y mod fr_modulus"
  unfolding mont_mul_def mont_of_nat_val
  by (simp only: fr_val_def mod_mult_left_eq mod_mult_right_eq)
    (simp only: mult.assoc mult.commute mult.left_commute)

lemma mont_add_val: "fr_val (mont_add x y) = (fr_val x + fr_val y) mod fr_modulus"
  unfolding mont_add_def mont_of_nat_val
  by (simp only: fr_val_def mod_add_left_eq mod_add_right_eq distrib_right)

lemma mont_mul_reduced: "fr_reduced (mont_mul x y)"
  by (simp add: mont_mul_def mont_of_nat_reduced)

lemma mont_add_reduced: "fr_reduced (mont_add x y)"
  by (simp add: mont_add_def mont_of_nat_reduced)

interpretation mont: ff_field mont_ff
proof unfold_locales
  fix x assume "fr_reduced x"
  show "unat (ff_into_repr mont_ff x) = fr_val x"
    using less_trans [OF fr_val_less fr_modulus_less, of x]
    by (simp add: mont_ff_def unat_of_nat)
qed (auto simp: mont_ff_def mont_mul_val mont_add_val mont_mul_reduced mont_add_reduced)

end
