(* ===== verification/Mimc.thy ===== *)
theory Mimc
  imports Fr_Field
begin

text \<open>
  The MiMC hash (\<open>src/common/mimc/src/constants.rs\<close> and \<open>hash.rs\<close>): the round constants
  derived from Keccak, the digest that collects field elements, and \<open>sum\<close>, the hash of a byte
  string. Keccak is a function of another crate and is the parameter \<open>K\<close>, from bytes to the
  32 bytes of its result.
\<close>

type_synonym keccak = "bytes \<Rightarrow> sh256"

section \<open>constants.rs\<close>

definition mimc_nb_rounds :: nat where
  "mimc_nb_rounds = 62"

definition block_size :: nat where
  "block_size = 32"

definition mimc_seed :: bytes where
  "mimc_seed = [115, 101, 101, 100]"

primrec init_constants_loop :: "ff \<Rightarrow> keccak \<Rightarrow> nat \<Rightarrow> sh256 \<Rightarrow> (string, fr list) result" where
  "init_constants_loop F K 0 rnd = Inr []"
| "init_constants_loop F K (Suc n) rnd =
     bind_result (unwrap (fr_from_be F (word_bytes rnd))) (\<lambda>item.
     bind_result (init_constants_loop F K n (K (word_bytes rnd))) (\<lambda>items.
       Inr (item # items)))"

definition init_constants :: "ff \<Rightarrow> keccak \<Rightarrow> (string, fr list) result" where
  "init_constants F K =
     (let rnd = K mimc_seed; rnd = K (word_bytes rnd)
      in init_constants_loop F K mimc_nb_rounds rnd)"

section \<open>hash.rs\<close>

record digest =
  dg_data :: "fr list"

definition digest_new :: digest where
  "digest_new = \<lparr>dg_data = []\<rparr>"

text \<open>The indices \<open>(0..len).step_by(BLOCK_SIZE)\<close>.\<close>

definition block_starts :: "nat \<Rightarrow> nat list" where
  "block_starts len = map (\<lambda>k. k * block_size) [0..<(len + block_size - 1) div block_size]"

fun write_loop :: "ff \<Rightarrow> bytes \<Rightarrow> nat \<Rightarrow> nat list \<Rightarrow> (digest, string, nat) comp" where
  "write_loop F p start [] = returnc start"
| "write_loop F p start (i # is) =
     bindc (lift_result (slice_range p i (i + block_size))) (\<lambda>block.
     bindc (lift_result (byte_order_element F block)) (\<lambda>x.
     bindc (modifyc (dg_data_update (\<lambda>xs. xs @ [x]))) (\<lambda>_.
       write_loop F p i is)))"

definition pad_block :: "bytes \<Rightarrow> bytes" where
  "pad_block p = (if 0 < length p \<and> length p < block_size
                  then replicate (block_size - length p) 0 @ p else p)"

definition invalid_length :: string where
  "invalid_length = ''invalid input length: must represent a list of field elements, expects a []byte of len m*BlockSize''"

definition digest_write :: "ff \<Rightarrow> bytes \<Rightarrow> (digest, string, nat) comp" where
  "digest_write F p0 =
     (let p = pad_block p0
      in bindc (write_loop F p 0 (block_starts (length p))) (\<lambda>start.
           if start + block_size \<noteq> length p then lift_result (Inl (Fail invalid_length))
           else returnc (length p)))"

fun encrypt_loop :: "ff \<Rightarrow> fr \<Rightarrow> fr list \<Rightarrow> fr \<Rightarrow> fr" where
  "encrypt_loop F hash [] m = m"
| "encrypt_loop F hash (c # cs) m =
     (let tmp = ff_add_assign F (ff_add_assign F hash m) c;
          m = ff_square F (ff_square F (ff_square F (ff_square F tmp)))
      in encrypt_loop F hash cs (ff_mul_assign F m tmp))"

definition digest_encrypt :: "ff \<Rightarrow> keccak \<Rightarrow> fr \<Rightarrow> fr \<Rightarrow> (string, fr) result" where
  "digest_encrypt F K hash m =
     bind_result (init_constants F K) (\<lambda>cs.
       Inr (ff_add_assign F (encrypt_loop F hash cs m) hash))"

fun checksum_loop :: "ff \<Rightarrow> keccak \<Rightarrow> fr list \<Rightarrow> fr \<Rightarrow> (string, fr) result" where
  "checksum_loop F K [] hash = Inr hash"
| "checksum_loop F K (item # items) hash =
     bind_result (digest_encrypt F K hash item) (\<lambda>r.
       checksum_loop F K items (ff_add_assign F (ff_add_assign F hash r) item))"

definition digest_checksum :: "ff \<Rightarrow> keccak \<Rightarrow> digest \<Rightarrow> (string, fr) result" where
  "digest_checksum F K d = checksum_loop F K (dg_data d) fr_default"

definition mimc_sum :: "ff \<Rightarrow> keccak \<Rightarrow> bytes \<Rightarrow> (string, bytes) result" where
  "mimc_sum F K msg =
     (case digest_write F msg digest_new of
        (Inl e, _) \<Rightarrow> Inl e
      | (Inr _, d) \<Rightarrow> bind_result (digest_checksum F K d) (\<lambda>h. Inr (fr_bytes F h)))"

section \<open>The hash over the integers modulo the field's prime\<close>

text \<open>
  The specification: the keyed permutation \<open>x \<mapsto> (x + k + c)^17\<close>, iterated over the round
  constants, with a final key addition, in the Miyaguchi-Preneel mode.
\<close>

primrec mimc_constants_spec :: "keccak \<Rightarrow> nat \<Rightarrow> sh256 \<Rightarrow> nat list" where
  "mimc_constants_spec K 0 rnd = []"
| "mimc_constants_spec K (Suc n) rnd =
     (unat rnd mod fr_modulus) # mimc_constants_spec K n (K (word_bytes rnd))"

definition mimc_round_keys :: "keccak \<Rightarrow> nat list" where
  "mimc_round_keys K = mimc_constants_spec K 62 (K (word_bytes (K mimc_seed)))"

definition mimc_permutation :: "nat list \<Rightarrow> nat \<Rightarrow> nat \<Rightarrow> nat" where
  "mimc_permutation cs k x =
     (foldl (\<lambda>x c. (x + k + c) ^ 17 mod fr_modulus) x cs + k) mod fr_modulus"

definition miyaguchi_preneel :: "nat list \<Rightarrow> nat list \<Rightarrow> nat" where
  "miyaguchi_preneel cs ms =
     foldl (\<lambda>h m. (h + mimc_permutation cs h m + m) mod fr_modulus) 0 ms"

text \<open>The message as 32-byte blocks, read as numbers modulo the field's prime.\<close>

definition message_block :: "bytes \<Rightarrow> nat \<Rightarrow> bytes" where
  "message_block p k = drop (k * 32) (take (k * 32 + 32) p)"

definition message_elements :: "bytes \<Rightarrow> nat list" where
  "message_elements p = map (\<lambda>k. be_nat (message_block p k) mod fr_modulus) [0..<length p div 32]"

lemma length_message_block: "k < length p div 32 \<Longrightarrow> length (message_block p k) = 32"
  by (auto simp: message_block_def)

lemma be_nat_word_bytes: "be_nat (word_bytes w) = unat w"
  using unsigned_less [of w, where ?'a = nat]
  by (simp add: word_bytes_def be_nat_be_bytes del: unsigned_less)

context ff_field begin

definition represents :: "fr \<Rightarrow> nat \<Rightarrow> bool" where
  "represents x n \<longleftrightarrow> fr_reduced x \<and> fr_val x = n"

lemma represents_add:
  "represents x m \<Longrightarrow> represents y n \<Longrightarrow> represents (ff_add_assign F x y) ((m + n) mod fr_modulus)"
  by (simp add: represents_def add_reduced add_val)

lemma represents_mul:
  "represents x m \<Longrightarrow> represents y n \<Longrightarrow> represents (ff_mul_assign F x y) (m * n mod fr_modulus)"
  by (simp add: represents_def mul_reduced mul_val)

lemma represents_square:
  "represents x m \<Longrightarrow> represents (ff_square F x) (m * m mod fr_modulus)"
  by (simp add: represents_def square_reduced square_val)

lemma represents_from_be:
  "length data = 32 \<Longrightarrow> \<exists>x. fr_from_be F data = Inr x \<and> represents x (be_nat data mod fr_modulus)"
  using from_be_ok [of data] by (auto simp: represents_def)

lemma init_constants_loop_ok:
  "\<exists>cs. init_constants_loop F K n rnd = Inr cs \<and> list_all2 represents cs (mimc_constants_spec K n rnd)"
proof (induction n arbitrary: rnd)
  case (Suc n)
  obtain x where "fr_from_be F (word_bytes rnd) = Inr x" "represents x (unat rnd mod fr_modulus)"
    using represents_from_be [of "word_bytes rnd"] by (auto simp: be_nat_word_bytes)
  with Suc [of "K (word_bytes rnd)"] show ?case by auto
qed simp

lemma init_constants_ok:
  "\<exists>cs. init_constants F K = Inr cs \<and> list_all2 represents cs (mimc_round_keys K)"
  using init_constants_loop_ok [of K 62 "K (word_bytes (K mimc_seed))"]
  by (simp add: init_constants_def mimc_nb_rounds_def mimc_round_keys_def)

lemma power17: "(t::nat) ^ 17 mod p = ((((t * t mod p) * (t * t mod p) mod p) * ((t * t mod p) * (t * t mod p) mod p) mod p) *
   (((t * t mod p) * (t * t mod p) mod p) * ((t * t mod p) * (t * t mod p) mod p) mod p) mod p) * t mod p"
proof -
  have "t ^ 17 = (((t * t) * (t * t)) * ((t * t) * (t * t))) * (((t * t) * (t * t)) * ((t * t) * (t * t))) * t"
    by (simp add: power_numeral_odd power_numeral_even Let_def mult.assoc)
  then show ?thesis by (simp add: mod_mult_left_eq mod_mult_right_eq)
qed

lemma encrypt_round:
  assumes "represents hash k" "represents m x" "represents c n"
  shows "let tmp = ff_add_assign F (ff_add_assign F hash m) c
         in represents (ff_mul_assign F (ff_square F (ff_square F (ff_square F (ff_square F tmp)))) tmp)
              ((x + k + n) ^ 17 mod fr_modulus)"
proof -
  let ?t = "(x + k + n) mod fr_modulus"
  have tmp: "represents (ff_add_assign F (ff_add_assign F hash m) c) ?t"
    using represents_add [OF represents_add [OF assms(1,2)] assms(3)]
    by (simp add: mod_simps ac_simps)
  have "(x + k + n) ^ 17 mod fr_modulus = ?t ^ 17 mod fr_modulus"
    by (simp only: power_mod)
  then show ?thesis
    using represents_mul [OF represents_square [OF represents_square [OF represents_square
      [OF represents_square [OF tmp]]]] tmp]
    unfolding Let_def by (simp only: power17)
qed

lemma encrypt_loop_ok:
  "list_all2 represents cs ns \<Longrightarrow> represents hash k \<Longrightarrow> represents m x \<Longrightarrow>
   represents (encrypt_loop F hash cs m) (foldl (\<lambda>x c. (x + k + c) ^ 17 mod fr_modulus) x ns)"
proof (induction cs ns arbitrary: m x rule: list_all2_induct)
  case (Cons c cs n ns)
  from encrypt_round [OF Cons.prems(1,2) Cons.hyps(1)]
  show ?case by (simp add: Let_def Cons.IH [OF Cons.prems(1)])
qed simp

lemma digest_encrypt_ok:
  assumes "represents hash k" "represents m x"
  shows "\<exists>r. digest_encrypt F K hash m = Inr r \<and>
             represents r (mimc_permutation (mimc_round_keys K) k x)"
  using init_constants_ok [of K] assms
  by (auto simp: digest_encrypt_def mimc_permutation_def intro!: represents_add encrypt_loop_ok)

lemma checksum_loop_ok:
  "list_all2 represents items ns \<Longrightarrow> represents hash h \<Longrightarrow>
   \<exists>r. checksum_loop F K items hash = Inr r \<and> represents r
     (foldl (\<lambda>h m. (h + mimc_permutation (mimc_round_keys K) h m + m) mod fr_modulus) h ns)"
proof (induction items ns arbitrary: hash h rule: list_all2_induct)
  case (Cons item items n ns)
  obtain r where r: "digest_encrypt F K hash item = Inr r"
    "represents r (mimc_permutation (mimc_round_keys K) h n)"
    using digest_encrypt_ok [OF Cons.prems Cons.hyps(1)] by blast
  have "represents (ff_add_assign F (ff_add_assign F hash r) item)
          ((h + mimc_permutation (mimc_round_keys K) h n + n) mod fr_modulus)"
    using represents_add [OF represents_add [OF Cons.prems r(2)] Cons.hyps(1)]
    by (simp add: mod_add_left_eq)
  from Cons.IH [OF this] show ?case by (simp add: r(1))
qed simp

lemma digest_checksum_ok:
  assumes "list_all2 represents (dg_data d) ns"
  shows "\<exists>h. digest_checksum F K d = Inr h \<and> represents h (miyaguchi_preneel (mimc_round_keys K) ns)"
  using checksum_loop_ok [OF assms, of fr_default 0 K]
  by (simp add: digest_checksum_def miyaguchi_preneel_def represents_def)

lemma write_loop_ok:
  "(\<And>k. k \<in> set ks \<Longrightarrow> k < length p div 32) \<Longrightarrow>
   \<exists>xs. write_loop F p start (map (\<lambda>k. k * 32) ks) d =
          (Inr (if ks = [] then start else last ks * 32), d\<lparr>dg_data := dg_data d @ xs\<rparr>)
      \<and> list_all2 represents xs (map (\<lambda>k. be_nat (message_block p k) mod fr_modulus) ks)"
proof (induction ks arbitrary: start d)
  case (Cons k ks)
  have k: "k < length p div 32" using Cons.prems by simp
  then have sl: "(slice_range p (k * 32) (k * 32 + 32) :: (string, bytes) result) = Inr (message_block p k)"
    by (simp add: message_block_def)
  obtain x where x: "fr_from_be F (message_block p k) = Inr x"
    "represents x (be_nat (message_block p k) mod fr_modulus)"
    using represents_from_be [OF length_message_block [OF k]] by blast
  have d: "d\<lparr>dg_data := dg_data d @ [x]\<rparr> = dg_data_update (\<lambda>xs. xs @ [x]) d" by simp
  obtain xs where xs: "write_loop F p (k * 32) (map (\<lambda>k. k * 32) ks) (dg_data_update (\<lambda>xs. xs @ [x]) d) =
        (Inr (if ks = [] then k * 32 else last ks * 32), d\<lparr>dg_data := dg_data d @ x # xs\<rparr>)"
    "list_all2 represents xs (map (\<lambda>k. be_nat (message_block p k) mod fr_modulus) ks)"
    using Cons.IH [of "k * 32" "d\<lparr>dg_data := dg_data d @ [x]\<rparr>"] Cons.prems by (auto simp: d)
  show ?case
    using x xs sl by (intro exI [of _ "x # xs"]) (simp add: block_size_def byte_order_element_def)
qed simp

end

lemma block_starts_multiple:
  "length p = 32 * n \<Longrightarrow> block_starts (length p) = map (\<lambda>k. k * 32) [0..<length p div 32]"
  by (simp add: block_starts_def block_size_def)

lemma pad_block_multiple: "32 dvd length p \<Longrightarrow> pad_block p = p"
  by (auto simp: pad_block_def block_size_def dest: dvd_imp_le)

context ff_field begin

lemma digest_write_ok:
  assumes "length p = 32 * Suc n"
  shows "\<exists>xs. digest_write F p d = (Inr (length p), d\<lparr>dg_data := dg_data d @ xs\<rparr>)
           \<and> list_all2 represents xs (message_elements p)"
proof -
  have last: "last [0..<length p div 32] = n" "[0..<length p div 32] \<noteq> []"
    using assms by simp_all
  have pad: "pad_block p = p" by (rule pad_block_multiple) (simp add: assms)
  obtain xs where w: "write_loop F p 0 (block_starts (length p)) d =
        (Inr (n * 32), d\<lparr>dg_data := dg_data d @ xs\<rparr>)"
    and xs: "list_all2 represents xs (message_elements p)"
    using write_loop_ok [of "[0..<length p div 32]" p 0 d] last
    by (auto simp only: block_starts_multiple [OF assms] message_elements_def if_False set_upt
        atLeastLessThan_iff)
  have "digest_write F p d = (Inr (length p), d\<lparr>dg_data := dg_data d @ xs\<rparr>)"
    unfolding digest_write_def Let_def pad bindc_def w by (simp add: assms block_size_def)
  with xs show ?thesis by blast
qed

lemma mimc_sum_ok:
  assumes "length p = 32 * Suc n"
  shows "mimc_sum F K p =
    Inr (be_bytes 32 (miyaguchi_preneel (mimc_round_keys K) (message_elements p)))"
proof -
  obtain xs where w: "digest_write F p digest_new = (Inr (length p), digest_new\<lparr>dg_data := xs\<rparr>)"
    and xs: "list_all2 represents xs (message_elements p)"
    using digest_write_ok [OF assms, of digest_new] by (auto simp: digest_new_def)
  obtain h where "digest_checksum F K (digest_new\<lparr>dg_data := xs\<rparr>) = Inr h"
    "represents h (miyaguchi_preneel (mimc_round_keys K) (message_elements p))"
    using digest_checksum_ok [of "digest_new\<lparr>dg_data := xs\<rparr>" _ K] xs by auto
  then show ?thesis by (simp add: mimc_sum_def w bytes_ok represents_def)
qed

end

section \<open>Other lengths\<close>

lemma mimc_sum_empty: "mimc_sum F K [] = Inl (Fail invalid_length)"
  by (simp add: mimc_sum_def digest_write_def pad_block_def block_starts_def block_size_def)

lemma length_pad_block: "0 < length p \<Longrightarrow> length p < 32 \<Longrightarrow> length (pad_block p) = 32"
  by (simp add: pad_block_def block_size_def)

lemma mimc_sum_pad: "mimc_sum F K (pad_block p) = mimc_sum F K p"
proof -
  have "pad_block (pad_block p) = pad_block p" by (simp add: pad_block_def)
  then show ?thesis by (simp add: mimc_sum_def digest_write_def)
qed

lemma write_loop_append:
  "write_loop F p start (is @ js) = bindc (write_loop F p start is) (\<lambda>st. write_loop F p st js)"
  by (induction "is" arbitrary: start) (simp_all add: bindc_assoc bindc_return_left)

lemma ceil_div_32: "n mod 32 \<noteq> 0 \<Longrightarrow> (n + 32 - 1) div 32 = Suc (n div (32::nat))"
proof -
  assume "n mod 32 \<noteq> 0"
  then obtain r where r: "n mod 32 = Suc r" by (cases "n mod 32") auto
  define q where "q = n div 32"
  have "n = q * 32 + Suc r" using r by (simp add: q_def flip: r)
  moreover have "r < 32" using r mod_less_divisor [of 32 n] by simp
  ultimately have "n + 32 - 1 = r + Suc q * 32" and "r div 32 = 0" by simp_all
  then show ?thesis by (simp only: div_mult_self3 q_def) simp
qed

lemma block_starts_ragged:
  "length p mod 32 \<noteq> 0 \<Longrightarrow> block_starts (length p) =
     map (\<lambda>k. k * 32) [0..<length p div 32] @ [length p div 32 * 32]"
proof -
  assume "length p mod 32 \<noteq> 0"
  then have eq: "(length p + 32 - 1) div 32 = Suc (length p div 32)" by (rule ceil_div_32)
  show ?thesis unfolding block_starts_def block_size_def eq by simp
qed

context ff_field begin

lemma mimc_sum_ragged:
  assumes "32 < length p" and "length p mod 32 \<noteq> 0"
  shows "mimc_sum F K p = Inl Panic"
proof -
  let ?q = "length p div 32"
  have pad: "pad_block p = p" using assms(1) by (simp add: pad_block_def block_size_def)
  have "length p < ?q * 32 + 32" using dividend_less_div_times [of 32 "length p"] by simp
  then have sl: "(slice_range p (?q * 32) (?q * 32 + 32) :: (string, bytes) result) = Inl Panic"
    by (simp add: slice_range_def)
  obtain st d where "write_loop F p 0 (map (\<lambda>k. k * 32) [0..<?q]) digest_new = (Inr st, d)"
    using write_loop_ok [of "[0..<?q]" p 0 digest_new] by auto
  then have "digest_write F p digest_new = (Inl Panic, d)"
    by (simp add: digest_write_def pad block_starts_ragged [OF assms(2)] write_loop_append
        bindc_def sl block_size_def)
  then show ?thesis by (simp add: mimc_sum_def)
qed

text \<open>Only the residues of the blocks enter the hash.\<close>

lemma mimc_sum_congruent:
  assumes "length p = 32 * Suc n" and "length q = 32 * Suc n"
    and "message_elements p = message_elements q"
  shows "mimc_sum F K p = mimc_sum F K q"
  using assms by (simp add: mimc_sum_ok)

end

section \<open>What the hash computes\<close>

text \<open>C23: messages of other lengths. An empty message is the error \<open>invalid length\<close>, a message of
  fewer than 32 bytes hashes as its padding with leading zeros, and a longer message that is not a
  whole number of blocks panics.\<close>

theorem mimc_sum_other_lengths:
  "mimc_sum mont_ff K p =
     (if p = [] then Inl (Fail invalid_length)
      else if length p < 32
        then Inr (be_bytes 32 (miyaguchi_preneel (mimc_round_keys K) (message_elements (replicate (32 - length p) 0 @ p))))
      else if length p mod 32 \<noteq> 0 then Inl Panic
      else Inr (be_bytes 32 (miyaguchi_preneel (mimc_round_keys K) (message_elements p))))"
proof (cases "p = [] \<or> length p \<ge> 32")
  case True
  show ?thesis
  proof (cases "p = [] \<or> length p mod 32 \<noteq> 0")
    case True
    moreover have "length p = 32 \<longrightarrow> length p mod 32 = 0" by simp
    ultimately show ?thesis
      using \<open>p = [] \<or> length p \<ge> 32\<close> mont.mimc_sum_ragged [of p K]
      by (cases "p = []") (auto simp: mimc_sum_empty le_less)
  next
    case False
    then obtain k where k: "length p = 32 * k" by (auto simp: mod_eq_0_iff_dvd)
    with False obtain n where "k = Suc n" by (cases k) auto
    with k False True show ?thesis using mont.mimc_sum_ok [of p n K] by simp
  qed
next
  case False
  then have "pad_block p = replicate (32 - length p) 0 @ p" by (simp add: pad_block_def block_size_def)
  then show ?thesis
    using False mimc_sum_pad [of mont_ff K p] mont.mimc_sum_ok [of "replicate (32 - length p) 0 @ p" 0 K] by simp
qed

text \<open>Only the residues of the blocks modulo the prime enter the hash, so two messages whose
  blocks differ by multiples of the prime have the same hash.\<close>

theorem mimc_sum_residues:
  assumes "length p = 32 * Suc n" "length q = 32 * Suc n" "message_elements p = message_elements q"
  shows "mimc_sum mont_ff K p = mimc_sum mont_ff K q"
  by (rule mont.mimc_sum_congruent [OF assms])

theorem mimc_sum_residues_witness:
  "mimc_sum mont_ff (\<lambda>_. 7) (be_bytes 32 5) = mimc_sum mont_ff (\<lambda>_. 7) (be_bytes 32 (5 + fr_modulus))"
proof (rule mimc_sum_residues [where n = 0])
  have "be_nat (be_bytes 32 (5 + fr_modulus)) mod fr_modulus = be_nat (be_bytes 32 5) mod fr_modulus"
    by (simp add: be_nat_be_bytes fr_modulus_def)
  then show "message_elements (be_bytes 32 5) = message_elements (be_bytes 32 (5 + fr_modulus))"
    by (simp add: message_elements_def message_block_def)
qed simp_all

end
