(* ===== verification/Zk_Utils.thy ===== *)
theory Zk_Utils
  imports Prelude
begin

text \<open>
  The index arithmetic of the trie: \<open>src/common/zktrie/src/utils.rs\<close>, the depth constant of
  \<open>sparse_merkle_trie.rs\<close> and the leaf tags of \<open>node.rs\<close>. Unsigned arithmetic wraps around,
  as in the release build the README describes.
\<close>

definition zk_trie_depth :: nat where
  "zk_trie_depth = 40"

datatype leaf_type = LeafTypeValue | LeafTypeNextFreeNode | LeafTypeEmpty

fun leaf_tag :: "leaf_type \<Rightarrow> byte" where
  "leaf_tag LeafTypeValue = 22"
| "leaf_tag LeafTypeNextFreeNode = 23"
| "leaf_tag LeafTypeEmpty = 24"

fun prefix_len_loop :: "bytes \<Rightarrow> bytes \<Rightarrow> nat \<Rightarrow> nat list \<Rightarrow> nat" where
  "prefix_len_loop a b len [] = len"
| "prefix_len_loop a b len (i # is) = (if a ! i \<noteq> b ! i then i else prefix_len_loop a b len is)"

definition prefix_len :: "bytes \<Rightarrow> bytes \<Rightarrow> nat" where
  "prefix_len a b = (let len = min (length a) (length b) in prefix_len_loop a b len [0..<len])"

definition format_node_index :: "u64 \<Rightarrow> sh256" where
  "format_node_index node_index = word_of_bytes (replicate 24 0 @ u64_bytes node_index)"

definition parse_node_index :: "bytes \<Rightarrow> ('e, u64) result" where
  "parse_node_index n =
     (if length n = 0 then Inr 0
      else if length n < 8 then Inl Panic
      else Inr (u64_of_bytes (drop (length n - 8) n)))"

text \<open>
  The loop of \<open>get_leaf_path\<close>: the counter \<open>i\<close> is a \<open>usize\<close>, decremented before the test
  that ends the loop, and indexing out of range panics.
\<close>

lemma unat_drop_bit_1: "unat (drop_bit (Suc 0) (w :: 64 word)) = unat w div 2"
proof -
  have "take_bit 64 (unat w) = unat w"
    using unsigned_less [of w, where ?'a = nat] by (simp add: take_bit_nat_eq_self del: unsigned_less)
  then show ?thesis unfolding unsigned_drop_bit_eq by (simp add: drop_bit_eq_div)
qed

function get_leaf_path_loop :: "bytes \<Rightarrow> 64 word \<Rightarrow> u64 \<Rightarrow> ('e, bytes) result" where
  "get_leaf_path_loop path i value =
     (if unat i < length path then
        (let path = path[unat i := ucast (value AND 1)];
             value = drop_bit 1 value;
             i = i - 1
         in if value \<le> 0 then Inr path else get_leaf_path_loop path i value)
      else Inl Panic)"
  by pat_completeness auto
termination
proof (relation "measure (\<lambda>(path, i, value). unat value)", goal_cases)
  case (2 path i v x xa xb)
  then have "unat (drop_bit (Suc 0) v) \<noteq> 0" by (simp add: unat_eq_zero)
  with 2 show ?case by (simp add: unat_drop_bit_1)
qed simp

declare get_leaf_path_loop.simps [simp del]

definition get_leaf_path :: "u64 \<Rightarrow> ('e, bytes) result" where
  "get_leaf_path idx =
     (let path = (replicate (zk_trie_depth + 2) 0)[0 := 1]
      in bind_result (get_leaf_path_loop path (of_nat (length path - 2)) idx) (\<lambda>path.
           Inr (path[length path - 1 := leaf_tag LeafTypeValue])))"

section \<open>Prefixes\<close>

lemma prefix_len_loop_spec:
  "m \<le> n \<Longrightarrow> (\<forall>j<m. a ! j = b ! j) \<Longrightarrow>
   (let k = prefix_len_loop a b n [m..<n] in k \<le> n \<and> (\<forall>j<k. a ! j = b ! j) \<and> (k < n \<longrightarrow> a ! k \<noteq> b ! k))"
proof (induction "n - m" arbitrary: m)
  case (Suc d)
  then have m: "m < n" by simp
  show ?case
  proof (cases "a ! m = b ! m")
    case True
    with Suc.prems have "\<forall>j<Suc m. a ! j = b ! j" by (auto simp: less_Suc_eq)
    from Suc.hyps(1) [OF _ _ this] Suc.hyps(2) m True show ?thesis by (simp add: upt_conv_Cons)
  next
    case False
    with Suc.prems m show ?thesis by (simp add: upt_conv_Cons)
  qed
qed simp

lemma prefix_len_eq_length_iff:
  "prefix_len a b = length a \<longleftrightarrow> length a \<le> length b \<and> take (length a) b = a"
proof -
  let ?n = "min (length a) (length b)" and ?k = "prefix_len a b"
  have spec: "?k \<le> ?n" "\<forall>j<?k. a ! j = b ! j" "?k < ?n \<longrightarrow> a ! ?k \<noteq> b ! ?k"
    using prefix_len_loop_spec [of 0 ?n a b] by (simp_all add: prefix_len_def Let_def)
  show ?thesis
  proof
    assume "?k = length a"
    with spec show "length a \<le> length b \<and> take (length a) b = a"
      by (auto intro!: nth_equalityI)
  next
    assume eq: "length a \<le> length b \<and> take (length a) b = a"
    then have "\<forall>j<length a. a ! j = b ! j" by (metis nth_take)
    with spec eq show "?k = length a" by (metis le_neq_implies_less min.absorb1)
  qed
qed

section \<open>Indices\<close>

lemma be_nat_replicate_0: "be_nat (replicate n 0 @ bs) = be_nat bs"
proof -
  have "foldl (\<lambda>a b. a * 256 + unat b) 0 (replicate n (0::byte)) = 0" by (induction n) simp_all
  then show ?thesis by (simp add: be_nat_def)
qed

lemma format_node_index_eq: "format_node_index i = ucast i"
proof -
  have "unat i < 2 ^ 64" using unsigned_less [of i, where ?'a = nat] by simp
  then have "be_nat (u64_bytes i) = unat i" by (simp add: u64_bytes_def be_nat_be_bytes)
  then show ?thesis
    by (simp add: format_node_index_def word_of_bytes_def be_nat_replicate_0)
qed

lemma parse_node_index_word_bytes:
  "parse_node_index (word_bytes w) = Inr (ucast w)"
proof -
  have "drop 24 (be_bytes 32 n) = be_bytes 8 n" for n
    using drop_be_bytes [of 24 8 n] by simp
  moreover have "(of_nat (unat w mod 2 ^ 64) :: u64) = ucast w"
    by (simp add: word_unat_eq_iff unat_of_nat unsigned_ucast_eq take_bit_eq_mod)
  ultimately show ?thesis
    by (simp add: parse_node_index_def u64_of_bytes_def word_bytes_def be_nat_be_bytes)
qed

lemma parse_format_node_index: "parse_node_index (word_bytes (format_node_index i)) = Inr i"
  by (simp add: parse_node_index_word_bytes format_node_index_eq)

section \<open>Leaf paths\<close>

text \<open>The 40 low bits of an index, the most significant first.\<close>

definition leaf_bits :: "u64 \<Rightarrow> bytes" where
  "leaf_bits idx = map (\<lambda>k. of_bool (bit idx (39 - k))) [0..<40]"

lemma length_leaf_bits [simp]: "length (leaf_bits idx) = 40"
  by (simp add: leaf_bits_def)

lemma nth_leaf_bits [simp]: "k < 40 \<Longrightarrow> leaf_bits idx ! k = of_bool (bit idx (39 - k))"
  by (simp add: leaf_bits_def)

lemma set_leaf_bits: "set (leaf_bits idx) \<subseteq> {0, 1}"
  by (auto simp: leaf_bits_def)

lemma ucast_and_1: "(ucast ((v :: u64) AND 1) :: byte) = of_bool (bit v 0)"
  by (cases "bit v 0") (simp_all add: and_one_eq bit_0 mod_2_eq_odd)

lemma unat_of_nat_u64: "n < 2 ^ 64 \<Longrightarrow> unat (of_nat n :: u64) = n"
  by (simp add: unat_of_nat)

lemma leaf_path_loop_ok:
  assumes "j \<le> 40" "unat v < 2 ^ Suc j" "j = 0 \<longrightarrow> v \<noteq> 0" "length path = 42" "path ! 0 = 1"
    "\<forall>k. 1 \<le> k \<and> k \<le> j \<longrightarrow> path ! k = 0"
  shows "\<exists>path'. (get_leaf_path_loop path (of_nat j) v :: ('e, bytes) result) = Inr path' \<and> length path' = 42 \<and> path' ! 0 = 1 \<and>
    (\<forall>k. 1 \<le> k \<and> k \<le> j \<longrightarrow> path' ! k = of_bool (bit v (j - k))) \<and>
    (\<forall>k. j < k \<and> k < 42 \<longrightarrow> path' ! k = path ! k)"
  using assms
proof (induction j arbitrary: v path)
  case 0
  then have "unat v = 1" by (simp add: less_2_cases_iff unat_eq_zero)
  then have v: "v = 1" by (simp add: word_unat_eq_iff)
  then show ?case using 0 by (simp add: get_leaf_path_loop.simps [of path 0] ucast_and_1 bit_0)
next
  case (Suc j)
  let ?v = "drop_bit (Suc 0) v" and ?path = "path[Suc j := of_bool (bit v 0)]"
  have i: "unat (of_nat (Suc j) :: 64 word) = Suc j"
    by (rule unat_of_nat_u64) (use Suc.prems(1) in simp)
  have step: "(get_leaf_path_loop path (of_nat (Suc j)) v :: ('e, bytes) result) =
      (if ?v = 0 then Inr ?path else get_leaf_path_loop ?path (of_nat j) ?v)"
    using Suc.prems(1,4) i
    by (subst get_leaf_path_loop.simps) (simp add: ucast_and_1 Let_def)
  have bitv: "bit ?v n = bit v (Suc n)" for n by (simp add: bit_drop_bit_eq)
  have rest: "1 \<le> k \<Longrightarrow> k \<le> j \<Longrightarrow> bit ?v (j - k) = bit v (Suc j - k)" for k
    by (simp add: bitv Suc_diff_le)
  show ?case
  proof (cases "?v = 0")
    case True
    have "k \<le> j \<Longrightarrow> 1 \<le> k \<Longrightarrow> \<not> bit v (Suc j - k)" for k using rest [of k] True by simp
    then show ?thesis using step True Suc.prems by (auto simp: le_Suc_eq)
  next
    case False
    have "unat ?v < 2 ^ Suc j" using Suc.prems(2) by (simp add: unat_drop_bit_1)
    then obtain path' where "(get_leaf_path_loop ?path (of_nat j) ?v :: ('e, bytes) result) = Inr path'"
      "length path' = 42" "path' ! 0 = 1"
      "\<forall>k. 1 \<le> k \<and> k \<le> j \<longrightarrow> path' ! k = of_bool (bit ?v (j - k))"
      "\<forall>k. j < k \<and> k < 42 \<longrightarrow> path' ! k = ?path ! k"
      using Suc.IH [of ?v ?path] Suc.prems False by auto
    then show ?thesis using step False Suc.prems rest by (auto simp: le_Suc_eq)
  qed
qed

lemma leaf_path_loop_panics:
  assumes "j \<le> 40" "2 ^ Suc j \<le> unat v" "length path = 42"
  shows "get_leaf_path_loop path (of_nat j) v = Inl Panic"
  using assms
proof (induction j arbitrary: v path)
  case 0
  then have "unat (drop_bit (Suc 0) v) \<noteq> 0" by (simp add: unat_drop_bit_1)
  then have "drop_bit (Suc 0) v \<noteq> 0" by (simp add: unat_eq_zero)
  with 0 show ?case
    by (simp add: get_leaf_path_loop.simps [of path 0] get_leaf_path_loop.simps [of _ "- 1"]
        unsigned_minus_1_eq_mask mask_eq_exp_minus_1)
next
  case (Suc j)
  have v: "2 ^ Suc j \<le> unat (drop_bit (Suc 0) v)" using Suc.prems(2) by (simp add: unat_drop_bit_1)
  then have "drop_bit (Suc 0) v \<noteq> 0" by (metis less_le_trans not_less_eq unsigned_0 zero_less_Suc zero_less_numeral zero_less_power not_le)
  moreover have "unat (of_nat (Suc j) :: 64 word) = Suc j"
    by (rule unat_of_nat_u64) (use Suc.prems(1) in simp)
  ultimately show ?case
    using Suc.IH [OF _ v] Suc.prems by (subst get_leaf_path_loop.simps) (simp add: Let_def)
qed

lemma get_leaf_path_ok:
  assumes "unat idx < 2 ^ 41"
  shows "(get_leaf_path idx :: ('e, bytes) result) = Inr (1 # leaf_bits idx @ [22])"
proof -
  let ?path = "(replicate 42 0)[0 := 1] :: bytes"
  obtain path' where p: "(get_leaf_path_loop ?path (of_nat 40) idx :: ('e, bytes) result) = Inr path'" "length path' = 42"
    "path' ! 0 = 1" "\<forall>k. 1 \<le> k \<and> k \<le> 40 \<longrightarrow> path' ! k = of_bool (bit idx (40 - k))"
    using leaf_path_loop_ok [of 40 idx ?path] assms by auto
  have "path'[41 := 22] = 1 # leaf_bits idx @ [22]"
  proof (rule nth_equalityI)
    fix i assume "i < length (path'[41 := 22])"
    then consider "i = 0" | "1 \<le> i" "i \<le> 40" | "i = 41" using p(2) by fastforce
    then show "path'[41 := 22] ! i = (1 # leaf_bits idx @ [22]) ! i"
      using p(2-4) by cases (simp_all add: nth_append nth_Cons')
  qed (simp add: p(2))
  with p(1,2) show ?thesis by (simp add: get_leaf_path_def zk_trie_depth_def)
qed

lemma get_leaf_path_panics: "2 ^ 41 \<le> unat idx \<Longrightarrow> get_leaf_path idx = Inl Panic"
  by (simp add: get_leaf_path_def zk_trie_depth_def leaf_path_loop_panics [of 40, simplified])

section \<open>What the index arithmetic guarantees\<close>

text \<open>C25: the path of a leaf starts with the direction 1 out of the top node, has the 40 low bits of
  the index, the most significant first, and ends with the tag of a leaf. An index of 41 bits is
  aliased with its 40 low bits; a larger one panics.\<close>

theorem leaf_path_of_index:
  "get_leaf_path idx = (if unat idx < 2 ^ 41 then Inr (1 # leaf_bits idx @ [22]) else Inl Panic)"
  using get_leaf_path_ok [of idx] get_leaf_path_panics [of idx] by (auto simp: not_less)

lemma leaf_bits_inject:
  assumes "leaf_bits i = leaf_bits j" "unat i < 2 ^ 40" "unat j < 2 ^ 40"
  shows "i = j"
proof (rule bit_word_eqI)
  fix n assume "n < LENGTH(64)"
  show "bit i n \<longleftrightarrow> bit j n"
  proof (cases "n < 40")
    case True
    then have "leaf_bits i ! (39 - n) = leaf_bits j ! (39 - n)" using assms(1) by simp
    then show ?thesis using True by (cases "bit i n"; cases "bit j n") simp_all
  next
    case False
    have "\<not> bit w n" if "unat w < 2 ^ 40" for w :: u64
    proof -
      have "(2 :: nat) ^ 40 \<le> 2 ^ n" using False by (intro power_increasing) simp_all
      then have "unat w div 2 ^ n = 0" using that by simp
      then have "\<not> bit (unat w) n" by (simp add: bit_iff_odd)
      then show ?thesis by (simp add: bit_unsigned_iff)
    qed
    then show ?thesis using assms(2,3) by blast
  qed
qed

text \<open>two indices of at most 40 bits with the same leaf path are equal.\<close>

theorem leaf_paths_differ:
  assumes "(get_leaf_path i :: ('e, bytes) result) = Inr path" "(get_leaf_path j :: ('e, bytes) result) = Inr path"
    and "unat i < 2 ^ 40" "unat j < 2 ^ 40"
  shows "i = j"
proof (rule leaf_bits_inject)
  have "(get_leaf_path k :: ('e, bytes) result) = Inr (1 # leaf_bits k @ [22])" if "unat k < 2 ^ 40" for k
    using that by (intro get_leaf_path_ok) simp
  then show "leaf_bits i = leaf_bits j" using assms by auto
qed (use assms in simp_all)

theorem leaf_paths_differ_witness:
  "{j. (get_leaf_path j :: (string, bytes) result) = Inr (1 # leaf_bits 5 @ [22]) \<and> unat j < 2 ^ 40} = {5}"
proof -
  have "(get_leaf_path 5 :: (string, bytes) result) = Inr (1 # leaf_bits 5 @ [22])" by (rule get_leaf_path_ok) simp
  then show ?thesis using leaf_paths_differ [of _ _ 5] by force
qed

text \<open>the index of the next free slot survives its encoding as a 32-byte value.\<close>

theorem node_index_roundtrip:
  "parse_node_index (word_bytes (format_node_index i)) = Inr i"
  by (rule parse_format_node_index)

text \<open>the common prefix of two byte strings: the two agree below it, and differ at it unless one
  of them ends there.\<close>

theorem prefix_len_is_common_prefix:
  "prefix_len a b = n \<longleftrightarrow>
     n \<le> length a \<and> n \<le> length b \<and> take n a = take n b \<and>
     (n = length a \<or> n = length b \<or> a ! n \<noteq> b ! n)"
proof -
  let ?m = "min (length a) (length b)" and ?k = "prefix_len a b"
  have spec: "?k \<le> ?m" "\<forall>j<?k. a ! j = b ! j" "?k < ?m \<longrightarrow> a ! ?k \<noteq> b ! ?k"
    using prefix_len_loop_spec [of 0 ?m a b] by (simp_all add: prefix_len_def Let_def)
  show ?thesis
  proof
    assume "?k = n"
    then show "n \<le> length a \<and> n \<le> length b \<and> take n a = take n b \<and>
     (n = length a \<or> n = length b \<or> a ! n \<noteq> b ! n)"
      using spec by (auto intro!: nth_equalityI)
  next
    assume n: "n \<le> length a \<and> n \<le> length b \<and> take n a = take n b \<and>
     (n = length a \<or> n = length b \<or> a ! n \<noteq> b ! n)"
    then have eq: "\<forall>j<n. a ! j = b ! j" by (metis nth_take)
    show "?k = n"
    proof (rule ccontr)
      assume "?k \<noteq> n"
      then consider "?k < n" | "n < ?k" by linarith
      then show False using n eq spec by cases auto
    qed
  qed
qed

end
