(* ===== verification/Zk_Node.thy ===== *)
theory Zk_Node
  imports Mimc Zk_Utils
begin

text \<open>
  The nodes of the sparse Merkle trie: \<open>src/common/zktrie/src/node.rs\<close>, \<open>hash.rs\<close> and the
  error type of \<open>lib.rs\<close>. The hash \<open>mimc::sum\<close> enters as the parameter \<open>H\<close>, so that the
  results about the trie hold of any hash function with the locale's law; \<open>Mimc\<close> provides it.
  An \<open>Arc\<close> of an immutable node is the node.
\<close>

type_synonym hasher = "bytes \<Rightarrow> (string, bytes) result"

section \<open>Data\<close>

record branch_node =
  br_left :: sh256
  br_right :: sh256

record leaf_node =
  lf_path :: bytes
  lf_value :: bytes

datatype node_value = Branch branch_node | Leaf leaf_node | EmptyLeaf | NextFree leaf_node

record node =
  nd_raw :: node_value
  nd_hash :: sh256

datatype zk_error =
    ReachedMaxLevel
  | PathNotAllow
  | InMemNextNodeNotFound
  | NextFreeNodeNotFound
  | NextFreeNodeEmptyValue node
  | NodeNotFound nat sh256
  | ZKTrieKeyNotFound bytes
  | ZkTrieParseNodeFail bytes string
  | HashFail string
  | InvalidBranchNode bytes
  | InvalidProof
  | RootNodeNotFound sh256
  | RootNodeExpectToBeBranchNode node

section \<open>Hashing\<close>

definition trie_hash :: "hasher \<Rightarrow> bytes \<Rightarrow> (zk_error, sh256) result" where
  "trie_hash H data = map_err HashFail (bind_result (H data) (\<lambda>n. Inr (word_of_bytes n)))"

definition zk_hash :: "hasher \<Rightarrow> bytes \<Rightarrow> ('e, sh256) result" where
  "zk_hash H msg = bind_result (unwrap (H msg)) (\<lambda>n. Inr (word_of_bytes n))"

definition empty_keccak_code_hash :: "keccak \<Rightarrow> sh256" where
  "empty_keccak_code_hash K = K []"

definition empty_mimc_code_hash :: "hasher \<Rightarrow> ('e, sh256) result" where
  "empty_mimc_code_hash H = unwrap (trie_hash H (word_bytes 0))"

text \<open>\<open>NodeValue::write_to\<close> appends to a buffer; an empty leaf has no encoding.\<close>

fun node_value_write_to :: "node_value \<Rightarrow> bytes \<Rightarrow> ('e, bytes) result" where
  "node_value_write_to (Branch n) out = Inr (out @ word_bytes (br_left n) @ word_bytes (br_right n))"
| "node_value_write_to (Leaf n) out = Inr (out @ lf_value n)"
| "node_value_write_to (NextFree n) out = Inr (out @ lf_value n)"
| "node_value_write_to EmptyLeaf out = Inl Panic"

definition node_value_to_bytes :: "node_value \<Rightarrow> ('e, bytes) result" where
  "node_value_to_bytes v = node_value_write_to v []"

definition node_value_hash :: "hasher \<Rightarrow> node_value \<Rightarrow> ('e, sh256) result" where
  "node_value_hash H v = (case v of
      EmptyLeaf \<Rightarrow> Inr 0
    | _ \<Rightarrow> bind_result (node_value_to_bytes v) (\<lambda>bs.
           bind_result (unwrap (H bs)) (\<lambda>n. Inr (word_of_bytes n))))"

section \<open>Node values\<close>

fun node_value_ty :: "node_value \<Rightarrow> string" where
  "node_value_ty (Branch _) = ''branch''"
| "node_value_ty EmptyLeaf = ''emptyleaf''"
| "node_value_ty (Leaf _) = ''leaf''"
| "node_value_ty (NextFree _) = ''nextfree''"

definition new_next_free :: "bytes \<Rightarrow> node_value" where
  "new_next_free val = NextFree \<lparr>lf_path = [], lf_value = val\<rparr>"

fun node_value_branch :: "node_value \<Rightarrow> branch_node option" where
  "node_value_branch (Branch n) = Some n"
| "node_value_branch _ = None"

fun node_value_value :: "node_value \<Rightarrow> bytes option" where
  "node_value_value (Branch _) = None"
| "node_value_value EmptyLeaf = Some []"
| "node_value_value (NextFree n) = Some (lf_value n)"
| "node_value_value (Leaf n) = Some (lf_value n)"

definition parse_leaf :: "bytes \<Rightarrow> bytes \<Rightarrow> node_value" where
  "parse_leaf path buf = Leaf \<lparr>lf_path = path, lf_value = buf\<rparr>"

definition parse_root :: "bytes \<Rightarrow> (zk_error, node_value) result" where
  "parse_root buf =
     (if length buf \<noteq> 64 then Inl (Fail (InvalidBranchNode buf))
      else bind_result (sh256_from_slice (take 32 buf)) (\<lambda>l.
           bind_result (sh256_from_slice (drop 32 buf)) (\<lambda>r.
             Inr (Branch \<lparr>br_left = l, br_right = r\<rparr>))))"

definition parse_branch :: "bytes \<Rightarrow> (zk_error, node_value) result" where
  "parse_branch buf =
     (if length buf \<noteq> 64 then Inl (Fail (InvalidBranchNode buf))
      else bind_result (sh256_from_slice (take 32 buf)) (\<lambda>l.
           bind_result (sh256_from_slice (drop 32 buf)) (\<lambda>r.
             Inr (Branch \<lparr>br_left = l, br_right = r\<rparr>))))"

definition branch_child :: "branch_node \<Rightarrow> byte \<Rightarrow> ('e, sh256) result" where
  "branch_child n idx =
     (if idx = 0 then Inr (br_left n) else if idx = 1 then Inr (br_right n) else Inl Panic)"

definition branch_new_replace :: "branch_node \<Rightarrow> byte \<Rightarrow> sh256 \<Rightarrow> branch_node" where
  "branch_new_replace b idx n =
     \<lparr>br_left = (if idx = 0 then n else br_left b),
      br_right = (if idx = 1 then n else br_right b)\<rparr>"

section \<open>Nodes\<close>

definition node_new :: "hasher \<Rightarrow> node_value \<Rightarrow> ('e, node) result" where
  "node_new H v = bind_result (node_value_hash H v) (\<lambda>h. Inr \<lparr>nd_raw = v, nd_hash = h\<rparr>)"

definition node_raw_branch :: "hasher \<Rightarrow> sh256 \<Rightarrow> sh256 \<Rightarrow> ('e, node) result" where
  "node_raw_branch H left right = node_new H (Branch \<lparr>br_left = left, br_right = right\<rparr>)"

definition node_raw_branch_auto :: "hasher \<Rightarrow> byte \<Rightarrow> sh256 \<Rightarrow> sh256 \<Rightarrow> ('e, node) result" where
  "node_raw_branch_auto H path leaf sibling =
     (if path = 0 then node_raw_branch H leaf sibling else node_raw_branch H sibling leaf)"

definition node_branch :: "hasher \<Rightarrow> sh256 \<Rightarrow> sh256 \<Rightarrow> ('e, node) result" where
  "node_branch H left right = node_new H (Branch \<lparr>br_left = left, br_right = right\<rparr>)"

definition node_top_node :: "hasher \<Rightarrow> u64 \<Rightarrow> sh256 \<Rightarrow> ('e, node) result" where
  "node_top_node H next_free_node sub_root = node_branch H (ucast next_free_node) sub_root"

definition node_leaf :: "hasher \<Rightarrow> bytes \<Rightarrow> bytes \<Rightarrow> ('e, node) result" where
  "node_leaf H path value =
     (if path = [leaf_tag LeafTypeNextFreeNode]
      then node_new H (NextFree \<lparr>lf_path = path, lf_value = value\<rparr>)
      else node_new H (Leaf \<lparr>lf_path = path, lf_value = value\<rparr>))"

definition node_next_free_node :: "hasher \<Rightarrow> u64 \<Rightarrow> ('e, node) result" where
  "node_next_free_node H idx = node_new H (new_next_free (replicate 24 0 @ u64_bytes idx))"

definition node_empty_leaf :: "hasher \<Rightarrow> ('e, node) result" where
  "node_empty_leaf H = node_new H EmptyLeaf"

definition node_is_next_free :: "node \<Rightarrow> bool" where
  "node_is_next_free n = (case nd_raw n of NextFree _ \<Rightarrow> True | _ \<Rightarrow> False)"

definition node_value_of :: "node \<Rightarrow> bytes option" where
  "node_value_of n = node_value_value (nd_raw n)"

primrec init_world_loop ::
  "hasher \<Rightarrow> nat \<Rightarrow> node \<Rightarrow> (sh256 \<rightharpoonup> node) \<Rightarrow> ('e, node \<times> (sh256 \<rightharpoonup> node)) result" where
  "init_world_loop H 0 nd m = Inr (nd, m)"
| "init_world_loop H (Suc k) nd m =
     bind_result (node_branch H (nd_hash nd) (nd_hash nd)) (\<lambda>nd.
       init_world_loop H k nd (m(nd_hash nd \<mapsto> nd)))"

definition init_world_state :: "hasher \<Rightarrow> ('e, node \<times> (sh256 \<rightharpoonup> node)) result" where
  "init_world_state H =
     bind_result (node_empty_leaf H) (\<lambda>nd.
     bind_result (init_world_loop H zk_trie_depth nd [nd_hash nd \<mapsto> nd]) (\<lambda>(nd, m).
     bind_result (node_branch H 0 (nd_hash nd)) (\<lambda>nd.
       Inr (nd, m(nd_hash nd \<mapsto> nd)))))"

definition empty_trie_node :: "hasher \<Rightarrow> ('e, sh256 \<rightharpoonup> node) result" where
  "empty_trie_node H = bind_result (init_world_state H) (\<lambda>(_, n). Inr n)"

definition node_is_empty_node :: "hasher \<Rightarrow> node \<Rightarrow> ('e, bool) result" where
  "node_is_empty_node H n = bind_result (empty_trie_node H) (\<lambda>m. Inr (m (nd_hash n) \<noteq> None))"

section \<open>Leaf openings\<close>

record leaf_opening =
  lo_hkey :: sh256
  lo_hval :: sh256
  lo_prev_leaf :: u64
  lo_next_leaf :: u64

definition leaf_opening_head :: leaf_opening where
  "leaf_opening_head = \<lparr>lo_hkey = 0, lo_hval = 0, lo_prev_leaf = 0, lo_next_leaf = 1\<rparr>"

definition leaf_opening_tail :: leaf_opening where
  "leaf_opening_tail =
     \<lparr>lo_hkey = 0x12ab655e9a2ca55660b44d1e5c37b00159aa76fed00000010a11800000000000,
      lo_hval = 0, lo_prev_leaf = 0, lo_next_leaf = 1\<rparr>"

definition leaf_opening_new :: "u64 \<Rightarrow> u64 \<Rightarrow> sh256 \<Rightarrow> sh256 \<Rightarrow> leaf_opening" where
  "leaf_opening_new prev_index next_index hkey hval =
     \<lparr>lo_hkey = hkey, lo_hval = hval, lo_prev_leaf = prev_index, lo_next_leaf = next_index\<rparr>"

text \<open>Both links are read from \<open>prev_leaf\<close>, as \<open>LeafOpening::parse\<close> does.\<close>

definition leaf_opening_parse :: "bytes \<Rightarrow> ('e, leaf_opening) result" where
  "leaf_opening_parse buf =
     bind_result (slice_range buf 0 32) (\<lambda>b0. let prev_leaf = word_of_bytes b0 in
     bind_result (slice_range buf 32 64) (\<lambda>b1. let next_leaf = word_of_bytes b1 in
     bind_result (slice_range buf 64 96) (\<lambda>b2.
     bind_result (sh256_from_slice b2) (\<lambda>hkey.
     bind_result (slice_range buf 96 (length buf)) (\<lambda>b3.
     bind_result (sh256_from_slice b3) (\<lambda>hval.
     bind_result (as_u64 prev_leaf) (\<lambda>prev_u64.
     bind_result (as_u64 prev_leaf) (\<lambda>next_u64.
       Inr \<lparr>lo_hkey = hkey, lo_hval = hval, lo_prev_leaf = prev_u64, lo_next_leaf = next_u64\<rparr>))))))))"

definition leaf_opening_new_hval :: "leaf_opening \<Rightarrow> sh256 \<Rightarrow> leaf_opening" where
  "leaf_opening_new_hval l hval = l\<lparr>lo_hval := hval\<rparr>"

definition leaf_opening_new_next_leaf :: "leaf_opening \<Rightarrow> u64 \<Rightarrow> leaf_opening" where
  "leaf_opening_new_next_leaf l next_leaf = l\<lparr>lo_next_leaf := next_leaf\<rparr>"

definition leaf_opening_new_prev_leaf :: "leaf_opening \<Rightarrow> u64 \<Rightarrow> leaf_opening" where
  "leaf_opening_new_prev_leaf l prev_leaf = l\<lparr>lo_prev_leaf := prev_leaf\<rparr>"

definition leaf_opening_to_bytes :: "leaf_opening \<Rightarrow> bytes" where
  "leaf_opening_to_bytes l =
     word_bytes (ucast (lo_prev_leaf l)) @ word_bytes (ucast (lo_next_leaf l)) @
     word_bytes (lo_hkey l) @ word_bytes (lo_hval l)"

lemma length_leaf_opening_to_bytes [simp]: "length (leaf_opening_to_bytes l) = 128"
  by (simp add: leaf_opening_to_bytes_def)

lemma leaf_opening_parse_to_bytes:
  "leaf_opening_parse (leaf_opening_to_bytes l) = Inr (l\<lparr>lo_next_leaf := lo_prev_leaf l\<rparr>)"
  by (cases l) (simp add: leaf_opening_parse_def leaf_opening_to_bytes_def sh256_from_slice_def Let_def)

lemma leaf_opening_parse_length: "length buf \<noteq> 128 \<Longrightarrow> leaf_opening_parse buf = Inl Panic"
  by (auto simp: leaf_opening_parse_def slice_range_def sh256_from_slice_def Let_def bind_result_def
      split: sum.splits)

lemma leaf_opening_to_bytes_inject:
  "leaf_opening_to_bytes l = leaf_opening_to_bytes m \<longleftrightarrow> l = m"
proof
  assume eq: "leaf_opening_to_bytes l = leaf_opening_to_bytes m"
  have "ucast (ucast (lo_prev_leaf l) :: sh256) = (ucast (ucast (lo_prev_leaf m) :: sh256) :: u64)"
    "ucast (ucast (lo_next_leaf l) :: sh256) = (ucast (ucast (lo_next_leaf m) :: sh256) :: u64)"
    "lo_hkey l = lo_hkey m" "lo_hval l = lo_hval m"
    using eq by (simp_all add: leaf_opening_to_bytes_def del: ucast_ucast_u64)
  then show "l = m" by (cases l; cases m) simp
qed simp

section \<open>Nodes over a hash that accepts field elements\<close>

definition branch_hash :: "hasher \<Rightarrow> sh256 \<Rightarrow> sh256 \<Rightarrow> sh256" where
  "branch_hash H l r = word_of_bytes (projr (H (word_bytes l @ word_bytes r)))"

definition value_hash :: "hasher \<Rightarrow> bytes \<Rightarrow> sh256" where
  "value_hash H v = word_of_bytes (projr (H v))"

abbreviation mk_branch :: "sh256 \<Rightarrow> sh256 \<Rightarrow> node_value" where
  "mk_branch l r \<equiv> Branch \<lparr>br_left = l, br_right = r\<rparr>"

abbreviation mk_leaf :: "bytes \<Rightarrow> bytes \<Rightarrow> node_value" where
  "mk_leaf p v \<equiv> Leaf \<lparr>lf_path = p, lf_value = v\<rparr>"

text \<open>A node whose stored hash is the hash of its value.\<close>

definition node_wf :: "hasher \<Rightarrow> node \<Rightarrow> bool" where
  "node_wf H n \<longleftrightarrow> node_value_hash H (nd_raw n) = (Inr (nd_hash n) :: (zk_error, sh256) result)"

primrec empty_hash :: "hasher \<Rightarrow> nat \<Rightarrow> sh256" where
  "empty_hash H 0 = 0"
| "empty_hash H (Suc d) = branch_hash H (empty_hash H d) (empty_hash H d)"

definition empty_node :: "hasher \<Rightarrow> nat \<Rightarrow> node" where
  "empty_node H d = \<lparr>nd_raw = (case d of 0 \<Rightarrow> EmptyLeaf | Suc k \<Rightarrow> mk_branch (empty_hash H k) (empty_hash H k)),
     nd_hash = empty_hash H d\<rparr>"

definition empty_world_root :: "hasher \<Rightarrow> node" where
  "empty_world_root H = \<lparr>nd_raw = mk_branch 0 (empty_hash H 40),
     nd_hash = branch_hash H 0 (empty_hash H 40)\<rparr>"

declare empty_hash.simps [simp del]

primrec insert_empty :: "hasher \<Rightarrow> nat \<Rightarrow> nat \<Rightarrow> (sh256 \<rightharpoonup> node) \<Rightarrow> (sh256 \<rightharpoonup> node)" where
  "insert_empty H 0 d m = m"
| "insert_empty H (Suc k) d m =
     insert_empty H k (Suc d) (m(empty_hash H (Suc d) \<mapsto> empty_node H (Suc d)))"

definition empty_nodes :: "hasher \<Rightarrow> sh256 \<rightharpoonup> node" where
  "empty_nodes H = (insert_empty H 40 0 [empty_hash H 0 \<mapsto> empty_node H 0])
     (nd_hash (empty_world_root H) \<mapsto> empty_world_root H)"

lemma nd_hash_empty_node [simp]: "nd_hash (empty_node H d) = empty_hash H d"
  by (simp add: empty_node_def)

lemma node_empty_leaf_ok [simp]: "node_empty_leaf H = Inr (empty_node H 0)"
  by (simp add: node_empty_leaf_def node_new_def node_value_hash_def empty_node_def
      empty_hash.simps)

locale trie_hasher =
  fixes H :: hasher
  assumes hash_total: "32 dvd length bs \<Longrightarrow> bs \<noteq> [] \<Longrightarrow> \<exists>h. H bs = Inr h \<and> length h = 32"
begin

lemma hash_ok: "32 dvd length bs \<Longrightarrow> bs \<noteq> [] \<Longrightarrow> H bs = Inr (word_bytes (value_hash H bs))"
  using hash_total [of bs] by (auto simp: value_hash_def word_bytes_word_of_bytes)

lemma trie_hash_ok: "32 dvd length bs \<Longrightarrow> bs \<noteq> [] \<Longrightarrow> trie_hash H bs = Inr (value_hash H bs)"
  by (simp add: trie_hash_def hash_ok)

lemma hash_branch_bytes: "H (word_bytes l @ word_bytes r) = Inr (word_bytes (branch_hash H l r))"
proof -
  have "word_bytes l @ word_bytes r \<noteq> []" using length_word_bytes [of l] by fastforce
  then show ?thesis using hash_total [of "word_bytes l @ word_bytes r"]
    by (auto simp: branch_hash_def word_bytes_word_of_bytes)
qed

lemma node_branch_ok:
  "node_branch H l r = Inr \<lparr>nd_raw = mk_branch l r, nd_hash = branch_hash H l r\<rparr>"
  by (simp add: node_branch_def node_new_def node_value_hash_def node_value_to_bytes_def hash_branch_bytes)

lemma node_new_branch_ok:
  "node_new H (Branch b) = Inr \<lparr>nd_raw = Branch b, nd_hash = branch_hash H (br_left b) (br_right b)\<rparr>"
  by (simp add: node_new_def node_value_hash_def node_value_to_bytes_def hash_branch_bytes)

lemma node_raw_branch_ok:
  "node_raw_branch H l r = Inr \<lparr>nd_raw = mk_branch l r, nd_hash = branch_hash H l r\<rparr>"
  by (simp add: node_raw_branch_def node_new_branch_ok)

lemma node_top_node_ok:
  "node_top_node H k r = Inr \<lparr>nd_raw = mk_branch (ucast k) r, nd_hash = branch_hash H (ucast k) r\<rparr>"
  by (simp add: node_top_node_def node_branch_ok)

lemma node_leaf_ok:
  "32 dvd length v \<Longrightarrow> v \<noteq> [] \<Longrightarrow> p \<noteq> [23] \<Longrightarrow>
   node_leaf H p v = Inr \<lparr>nd_raw = mk_leaf p v, nd_hash = value_hash H v\<rparr>"
  by (simp add: node_leaf_def node_new_def node_value_hash_def node_value_to_bytes_def hash_ok)

lemma node_wf_branch: "node_wf H \<lparr>nd_raw = Branch b, nd_hash = branch_hash H (br_left b) (br_right b)\<rparr>"
  by (simp add: node_wf_def node_value_hash_def node_value_to_bytes_def hash_branch_bytes)

lemma node_wf_empty_node: "node_wf H (empty_node H d)"
  using node_wf_branch by (cases d) (simp_all add: empty_node_def node_wf_def node_value_hash_def
      node_value_to_bytes_def hash_branch_bytes empty_hash.simps)

lemma node_branch_empty: "node_branch H (empty_hash H d) (empty_hash H d) = Inr (empty_node H (Suc d))"
  by (simp add: node_branch_ok empty_node_def empty_hash.simps)

lemma init_world_loop_ok:
  "init_world_loop H k (empty_node H d) m = Inr (empty_node H (d + k), insert_empty H k d m)"
  by (induction k arbitrary: d m) (simp_all add: node_branch_empty)

lemma init_world_state_ok: "init_world_state H = Inr (empty_world_root H, empty_nodes H)"
  by (simp add: init_world_state_def init_world_loop_ok zk_trie_depth_def node_branch_ok
      empty_world_root_def empty_nodes_def)

lemma empty_trie_node_ok: "empty_trie_node H = Inr (empty_nodes H)"
  by (simp add: empty_trie_node_def init_world_state_ok)

end

text \<open>What the static map of empty nodes holds.\<close>

lemma insert_empty_cases:
  "insert_empty H k d m h = m h \<or>
   (\<exists>j. d < j \<and> j \<le> d + k \<and> h = empty_hash H j \<and> insert_empty H k d m h = Some (empty_node H j))"
proof (induction k arbitrary: d m)
  case (Suc k)
  let ?m = "m(empty_hash H (Suc d) \<mapsto> empty_node H (Suc d))"
  from Suc [of "Suc d" ?m] show ?case
  proof (elim disjE exE conjE)
    assume "insert_empty H k (Suc d) ?m h = ?m h"
    then show ?thesis by (cases "h = empty_hash H (Suc d)") auto
  next
    fix j assume "Suc d < j" "j \<le> Suc d + k" "h = empty_hash H j"
      "insert_empty H k (Suc d) ?m h = Some (empty_node H j)"
    then show ?thesis by (intro disjI2 exI [of _ j]) simp
  qed
qed simp

lemma insert_empty_keeps: "m h \<noteq> None \<Longrightarrow> insert_empty H k d m h \<noteq> None"
proof (induction k arbitrary: d m)
  case (Suc k)
  then show ?case by (simp del: not_None_eq)
qed simp

lemma insert_empty_dom: "d < j \<Longrightarrow> j \<le> d + k \<Longrightarrow> insert_empty H k d m (empty_hash H j) \<noteq> None"
proof (induction k arbitrary: d m)
  case (Suc k)
  show ?case
  proof (cases "j = Suc d")
    case True
    then show ?thesis by (auto simp del: not_None_eq intro!: insert_empty_keeps)
  next
    case False
    then show ?thesis using Suc.IH [of "Suc d"] Suc.prems by auto
  qed
qed simp

lemma empty_nodes_cases:
  assumes "empty_nodes H h = Some n"
  shows "(\<exists>d\<le>40. h = empty_hash H d \<and> n = empty_node H d) \<or>
         (h = nd_hash (empty_world_root H) \<and> n = empty_world_root H)"
proof (cases "h = nd_hash (empty_world_root H)")
  case False
  then have "insert_empty H 40 0 [empty_hash H 0 \<mapsto> empty_node H 0] h = Some n"
    using assms by (simp add: empty_nodes_def)
  then show ?thesis
    using insert_empty_cases [of H 40 0 "[empty_hash H 0 \<mapsto> empty_node H 0]" h]
    by (force split: if_splits)
qed (use assms in \<open>simp add: empty_nodes_def\<close>)

lemma empty_nodes_hash: "empty_nodes H h = Some n \<Longrightarrow> nd_hash n = h"
  using empty_nodes_cases [of H h n] by (auto simp: empty_node_def)

lemma empty_nodes_dom: "d \<le> 40 \<Longrightarrow> empty_nodes H (empty_hash H d) \<noteq> None"
proof (cases "d = 0")
  case True
  then show ?thesis
    by (auto simp: empty_nodes_def simp del: not_None_eq intro!: insert_empty_keeps)
next
  case False
  moreover assume "d \<le> 40"
  ultimately show ?thesis
    using insert_empty_dom [of 0 d 40 H] by (auto simp: empty_nodes_def)
qed

lemma empty_nodes_root: "empty_nodes H (nd_hash (empty_world_root H)) = Some (empty_world_root H)"
  by (simp add: empty_nodes_def)

section \<open>MiMC is such a hash\<close>

context ff_field begin

lemma mimc_sum_total: "32 dvd length bs \<Longrightarrow> bs \<noteq> [] \<Longrightarrow> \<exists>h. mimc_sum F K bs = Inr h \<and> length h = 32"
proof -
  assume "32 dvd length bs" "bs \<noteq> []"
  then obtain n where "length bs = 32 * Suc n" by (metis dvdE length_0_conv mult_0_right not0_implies_Suc)
  then show ?thesis by (simp add: mimc_sum_ok)
qed

text \<open>
  A hash is a field element, hence never beyond the key of the tail leaf, which is the largest
  field element, nor below the key of the head leaf.
\<close>

lemma mimc_hash_bounds:
  assumes "trie_hash (mimc_sum F K) data = Inr h"
  shows "lo_hkey leaf_opening_head \<le> h \<and> h \<le> lo_hkey leaf_opening_tail"
proof -
  obtain bs where bs: "mimc_sum F K data = Inr bs" "h = word_of_bytes bs"
    using assms by (auto simp: trie_hash_def bind_result_ok_iff)
  have pad: "mimc_sum F K data = mimc_sum F K (pad_block data)" by (simp add: mimc_sum_pad)
  have ne: "0 < length data" using bs(1) by (auto simp: mimc_sum_empty)
  have "\<exists>n. length (pad_block data) = 32 * Suc n"
  proof (cases "length data < 32")
    case True
    with ne have "length (pad_block data) = 32" by (intro length_pad_block)
    then show ?thesis by (intro exI [of _ 0]) simp
  next
    case False
    then have "32 dvd length data"
      using bs(1) mimc_sum_ragged [of data K] by (cases "length data = 32") (auto simp: dvd_eq_mod_eq_0)
    moreover then obtain k where "length data = 32 * k" ..
    ultimately show ?thesis using ne by (cases k) (auto simp: pad_block_multiple)
  qed
  then obtain n where "length (pad_block data) = 32 * Suc n" ..
  then have "bs = be_bytes 32 (miyaguchi_preneel (mimc_round_keys K) (message_elements (pad_block data)))"
    using bs(1) mimc_sum_ok pad by fastforce
  moreover have "foldl (\<lambda>h m. f h m mod fr_modulus) x ms < fr_modulus" if "x < fr_modulus" for f x and ms :: "nat list"
    using that by (induction ms arbitrary: x) auto
  then have "miyaguchi_preneel cs ms < fr_modulus" for cs ms
    by (simp add: miyaguchi_preneel_def)
  ultimately obtain v where v: "bs = be_bytes 32 v" "v < fr_modulus" by blast
  then have "unat h = v"
    using fr_modulus_less by (simp add: bs(2) word_of_bytes_def be_nat_be_bytes unat_of_nat)
  with v(2) show ?thesis
    by (simp add: leaf_opening_head_def leaf_opening_tail_def word_le_nat_alt fr_modulus_def)
qed

end

interpretation mimc: trie_hasher "mimc_sum mont_ff K" for K
  by unfold_locales (rule mont.mimc_sum_total)

section \<open>What the nodes guarantee\<close>

text \<open>C24: parsing the bytes of a leaf gives the leaf back except for its link to the next leaf, which
  comes out as the link to the previous one: \<open>parse\<close> reads both from the same bytes.\<close>

theorem leaf_parse_loses_next_link:
  "leaf_opening_parse (leaf_opening_to_bytes l) = Inr (l\<lparr>lo_next_leaf := lo_prev_leaf l\<rparr>)"
  by (rule leaf_opening_parse_to_bytes)

text \<open>The MiMC hash of a key lies between the keys of the head and the tail leaf, so every key has
  a neighbour on both sides in the order of the leaves.\<close>

theorem key_hash_between_head_and_tail:
  assumes "trie_hash (mimc_sum mont_ff K) key = Inr hkey"
  shows "lo_hkey leaf_opening_head \<le> hkey \<and> hkey \<le> lo_hkey leaf_opening_tail"
  by (rule mont.mimc_hash_bounds [OF assms])

theorem key_hash_between_head_and_tail_witness:
  "value_hash (mimc_sum mont_ff (\<lambda>_. 7)) (replicate 32 1) \<le> lo_hkey leaf_opening_tail"
proof -
  have "trie_hash (mimc_sum mont_ff (\<lambda>_. 7)) (replicate 32 1) = Inr (value_hash (mimc_sum mont_ff (\<lambda>_. 7)) (replicate 32 1))"
    by (rule mimc.trie_hash_ok) (simp_all add: length_greater_0_conv [symmetric] del: length_greater_0_conv replicate_empty)
  from key_hash_between_head_and_tail [OF this] show ?thesis by simp
qed

text \<open>The loop that fills the static map of empty nodes builds the 41 hashes of empty subtrees and
  the root of the empty trie, and every node in the map has its key as hash and its value hashes
  to it.\<close>

theorem empty_nodes_are_well_formed:
  "\<exists>m. init_world_state (mimc_sum mont_ff K) = Inr (empty_world_root (mimc_sum mont_ff K), m) \<and>
    m (nd_hash (empty_world_root (mimc_sum mont_ff K))) = Some (empty_world_root (mimc_sum mont_ff K)) \<and>
    (\<forall>d<41. m (empty_hash (mimc_sum mont_ff K) d) \<noteq> None) \<and>
    (\<forall>h n. m h = Some n \<longrightarrow> nd_hash n = h \<and> node_wf (mimc_sum mont_ff K) n)"
proof -
  let ?H = "mimc_sum mont_ff K"
  have "node_wf ?H (empty_world_root ?H)"
    using mimc.node_wf_branch [of K "\<lparr>br_left = 0, br_right = empty_hash ?H 40\<rparr>"] by (simp add: empty_world_root_def)
  then have "nd_hash n = h \<and> node_wf ?H n" if "empty_nodes ?H h = Some n" for h n
    using empty_nodes_cases [OF that] mimc.node_wf_empty_node [of K] by auto
  moreover have "empty_nodes ?H (empty_hash ?H d) \<noteq> None" if "d < 41" for d
    using that by (intro empty_nodes_dom) simp
  ultimately show ?thesis
    by (intro exI [of _ "empty_nodes ?H"]) (auto simp: mimc.init_world_state_ok empty_nodes_root simp del: not_None_eq)
qed

theorem empty_nodes_are_well_formed_witness:
  "\<exists>m. init_world_state (mimc_sum mont_ff (\<lambda>_. 7)) = Inr (empty_world_root (mimc_sum mont_ff (\<lambda>_. 7)), m) \<and>
    m (empty_hash (mimc_sum mont_ff (\<lambda>_. 7)) 5) \<noteq> None"
proof -
  have "(5 :: nat) < 41" by simp
  then show ?thesis using empty_nodes_are_well_formed [of "\<lambda>_. 7"] by blast
qed

end
