(* ===== verification/Zk_Database.thy ===== *)
theory Zk_Database
  imports Zk_Node
begin

text \<open>
  The trait \<open>Database\<close> of \<open>src/common/zktrie/src/sparse_merkle_trie.rs\<close> with the values its
  methods exchange (\<open>FlattenedLeaf\<close>, \<open>KeyRange\<close> of \<open>storage.rs\<close>). A generic function over
  \<open>D: Database\<close> takes the record of the trait's methods, whose state type is the store's.
  The locale \<open>node_db\<close> is the contract of the node part of the trait.
\<close>

section \<open>Values\<close>

record flattened_leaf =
  fl_leaf_index :: u64
  fl_leaf_value :: bytes

definition flattened_leaf_head :: flattened_leaf where
  "flattened_leaf_head =
     \<lparr>fl_leaf_index = 0, fl_leaf_value = word_bytes (lo_hval leaf_opening_head)\<rparr>"

definition flattened_leaf_tail :: flattened_leaf where
  "flattened_leaf_tail =
     \<lparr>fl_leaf_index = 1, fl_leaf_value = word_bytes (lo_hval leaf_opening_tail)\<rparr>"

definition flattened_leaf_new :: "u64 \<Rightarrow> bytes \<Rightarrow> flattened_leaf" where
  "flattened_leaf_new leaf_index leaf_value =
     \<lparr>fl_leaf_index = leaf_index, fl_leaf_value = leaf_value\<rparr>"

definition flattened_leaf_path :: "flattened_leaf \<Rightarrow> ('e, bytes) result" where
  "flattened_leaf_path l = get_leaf_path (fl_leaf_index l)"

record key_range =
  kr_left_index :: u64
  kr_center :: "flattened_leaf option"
  kr_right_index :: u64

definition key_range_left_path :: "key_range \<Rightarrow> ('e, bytes) result" where
  "key_range_left_path r = get_leaf_path (kr_left_index r)"

definition key_range_right_path :: "key_range \<Rightarrow> ('e, bytes) result" where
  "key_range_right_path r = get_leaf_path (kr_right_index r)"

section \<open>The trait\<close>

text \<open>
  \<open>get_nearest_keys\<close> has no error in its type; its implementation may panic. \<open>get_code\<close>
  takes \<open>&mut self\<close>.
\<close>

record 's database =
  db_get_node :: "'s \<Rightarrow> sh256 \<Rightarrow> (zk_error, node option) result"
  db_update_node :: "sh256 \<Rightarrow> node \<Rightarrow> ('s, zk_error, node) comp"
  db_get_nearest_keys :: "'s \<Rightarrow> sh256 \<Rightarrow> sh256 \<Rightarrow> (zk_error, key_range) result"
  db_update_index :: "sh256 \<Rightarrow> flattened_leaf \<Rightarrow> 's \<Rightarrow> 's"
  db_remove_index :: "sh256 \<Rightarrow> 's \<Rightarrow> 's"
  db_get_code :: "sh256 \<Rightarrow> 's \<Rightarrow> bytes option \<times> 's"

text \<open>
  The contract: \<open>view\<close> is the map from hashes to nodes a store presents. A write never fails,
  leaves every other key alone, and afterwards its key holds the new node or what it held
  before (a store may answer some keys from a static table).
\<close>

locale node_db =
  fixes D :: "'s database" and view :: "'s \<Rightarrow> sh256 \<rightharpoonup> node"
  assumes get_node: "db_get_node D s h = Inr (view s h)"
    and update_node: "\<exists>s'. db_update_node D k n s = (Inr n, s') \<and>
      (\<forall>h. h \<noteq> k \<longrightarrow> view s' h = view s h) \<and>
      (view s' k = Some n \<or> (view s' k = view s k \<and> view s k \<noteq> None))"
    and update_index: "view (db_update_index D k v s) = view s"
    and remove_index: "view (db_remove_index D k s) = view s"

section \<open>Recording the nodes a run writes\<close>

text \<open>
  The same store with a log of the nodes written to it. Running an operation on it gives the
  list of nodes the operation writes; \<open>tracks\<close> says that nothing else changes.
\<close>

definition log_db :: "'s database \<Rightarrow> ('s \<times> node list) database" where
  "log_db D = \<lparr>
     db_get_node = (\<lambda>(s, w) h. db_get_node D s h),
     db_update_node = (\<lambda>k n (s, w). case db_update_node D k n s of (r, s') \<Rightarrow> (r, (s', w @ [n]))),
     db_get_nearest_keys = (\<lambda>(s, w) root k. db_get_nearest_keys D s root k),
     db_update_index = (\<lambda>k v (s, w). (db_update_index D k v s, w)),
     db_remove_index = (\<lambda>k (s, w). (db_remove_index D k s, w)),
     db_get_code = (\<lambda>h (s, w). case db_get_code D h s of (r, s') \<Rightarrow> (r, (s', w)))\<rparr>"

definition tracks :: "('s \<times> node list, 'e, 'a) comp \<Rightarrow> ('s, 'e, 'a) comp \<Rightarrow> bool" where
  "tracks cl c \<longleftrightarrow> (\<forall>s w. \<exists>ws. cl (s, w) = (fst (c s), (snd (c s), w @ ws)))"

named_theorems tracking \<open>operations on a logged store follow those on the store\<close>

lemma tracks_lift [tracking]: "tracks (lift_result r) (lift_result r)"
  by (simp add: tracks_def)

lemma tracks_return [tracking]: "tracks (returnc x) (returnc x)"
  by (simp add: tracks_def)

lemma tracks_read [tracking]: "(\<And>s w. f (s, w) = g s) \<Longrightarrow> tracks (readc f) (readc g)"
  by (simp add: tracks_def)

lemma tracks_modify [tracking]:
  "(\<And>s w. f (s, w) = (g s, w)) \<Longrightarrow> tracks (modifyc f) (modifyc g)"
  by (simp add: tracks_def)

lemma tracks_bind [tracking]:
  assumes "tracks cl c" and "\<And>x. tracks (fl x) (f x)"
  shows "tracks (bindc cl fl) (bindc c f)"
  unfolding tracks_def
proof (intro allI)
  fix s w
  obtain ws where ws: "cl (s, w) = (fst (c s), (snd (c s), w @ ws))"
    using assms(1) unfolding tracks_def by blast
  show "\<exists>ws. bindc cl fl (s, w) = (fst (bindc c f s), (snd (bindc c f s), w @ ws))"
  proof (cases "fst (c s)")
    case (Inl e)
    then show ?thesis using ws by (auto simp: bindc_def split: prod.splits)
  next
    case (Inr x)
    obtain vs where "fl x (snd (c s), w @ ws) = (fst (f x (snd (c s))), (snd (f x (snd (c s))), (w @ ws) @ vs))"
      using assms(2) unfolding tracks_def by blast
    then show ?thesis using ws Inr by (cases "c s") (simp add: bindc_def)
  qed
qed

lemma tracks_update_node [tracking]:
  "tracks (db_update_node (log_db D) k n) (db_update_node D k n)"
  by (auto simp: tracks_def log_db_def split: prod.splits)

lemma log_db_get_node [simp]: "db_get_node (log_db D) (s, w) h = db_get_node D s h"
  by (simp add: log_db_def)

lemma log_db_nearest [simp]: "db_get_nearest_keys (log_db D) (s, w) r k = db_get_nearest_keys D s r k"
  by (simp add: log_db_def)

lemma log_db_update_index [simp]: "db_update_index (log_db D) k v (s, w) = (db_update_index D k v s, w)"
  by (simp add: log_db_def)

lemma log_db_remove_index [simp]: "db_remove_index (log_db D) k (s, w) = (db_remove_index D k s, w)"
  by (simp add: log_db_def)

text \<open>The nodes an operation writes when it runs from \<open>s\<close>.\<close>

definition written :: "('s \<times> node list, 'e, 'a) comp \<Rightarrow> 's \<Rightarrow> node list" where
  "written cl s = snd (snd (cl (s, [])))"

text \<open>
  A run is free of hash clashes when no two nodes among those stored before it and those it
  writes have the same hash.
\<close>

definition clash_free :: "('s \<Rightarrow> sh256 \<rightharpoonup> node) \<Rightarrow> ('s \<times> node list, 'e, 'a) comp \<Rightarrow> 's \<Rightarrow> bool" where
  "clash_free view cl s \<longleftrightarrow> inj_on nd_hash (ran (view s) \<union> set (written cl s))"

text \<open>Every stored node is stored under its own hash.\<close>

definition consistent :: "(sh256 \<rightharpoonup> node) \<Rightarrow> bool" where
  "consistent V \<longleftrightarrow> (\<forall>h n. V h = Some n \<longrightarrow> nd_hash n = h)"

lemma consistentD: "consistent V \<Longrightarrow> V h = Some n \<Longrightarrow> nd_hash n = h"
  by (simp add: consistent_def)

text \<open>Stored nodes come from a set of nodes without clashes.\<close>

definition stored_in :: "node set \<Rightarrow> (sh256 \<rightharpoonup> node) \<Rightarrow> bool" where
  "stored_in U V \<longleftrightarrow> consistent V \<and> ran V \<subseteq> U"

context node_db begin

text \<open>A write of a node under its hash, in a store without clashes, is a map update.\<close>

lemma update_stored_in:
  assumes "inj_on nd_hash U" "stored_in U (view s)" "n \<in> U"
  shows "\<exists>s'. db_update_node D (nd_hash n) n s = (Inr n, s') \<and>
    view s' = (view s)(nd_hash n \<mapsto> n) \<and> stored_in U (view s') \<and> view s \<subseteq>\<^sub>m view s'"
proof -
  obtain s' where s': "db_update_node D (nd_hash n) n s = (Inr n, s')"
    "\<And>h. h \<noteq> nd_hash n \<Longrightarrow> view s' h = view s h"
    "view s' (nd_hash n) = Some n \<or> (view s' (nd_hash n) = view s (nd_hash n) \<and> view s (nd_hash n) \<noteq> None)"
    using update_node [of "nd_hash n" n s] by blast
  have same: "m = n" if "view s (nd_hash n) = Some m" for m
  proof -
    from that have "m \<in> U" "nd_hash m = nd_hash n"
      using assms(2) by (auto simp: stored_in_def ran_def dest: consistentD)
    with assms(1,3) show ?thesis by (auto dest: inj_onD)
  qed
  have view': "view s' = (view s)(nd_hash n \<mapsto> n)"
    using s'(2,3) same by (intro ext) (cases "view s (nd_hash n)", auto)
  have "stored_in U (view s')"
    using assms(2,3) by (auto simp: view' stored_in_def consistent_def ran_def split: if_splits)
  moreover have "view s \<subseteq>\<^sub>m view s'" using same by (auto simp: view' map_le_def)
  ultimately show ?thesis using s'(1) view' by blast
qed

end

end
