(* ===== verification/Sparse_Merkle_Trie.thy ===== *)
theory Sparse_Merkle_Trie
  imports Zk_Database
begin

text \<open>
  The sparse Merkle trie over a node store: \<open>src/common/zktrie/src/sparse_merkle_trie.rs\<close>.
  The state of an operation is the trie (its root hash) and the store.
\<close>

section \<open>State\<close>

record spare_merkle_trie =
  smt_root_hash :: sh256

definition smt_new :: "sh256 \<Rightarrow> spare_merkle_trie" where
  "smt_new root_hash = \<lparr>smt_root_hash = root_hash\<rparr>"

text \<open>An operation on the store alone, in a state that also has the trie.\<close>

definition on_db :: "('s, 'e, 'a) comp \<Rightarrow> ('t \<times> 's, 'e, 'a) comp" where
  "on_db c = (\<lambda>(t, s). case c s of (r, s') \<Rightarrow> (r, (t, s')))"

datatype hash_or_node = HnNode node | HnHash sh256

definition wrap_branch_child :: "node \<Rightarrow> hash_or_node" where
  "wrap_branch_child n = (case nd_raw n of NextFree _ \<Rightarrow> HnNode n | _ \<Rightarrow> HnHash (nd_hash n))"

fun hash_or_node_expand :: "'s database \<Rightarrow> 's \<Rightarrow> hash_or_node \<Rightarrow> (zk_error, node option) result" where
  "hash_or_node_expand D s (HnHash h) = db_get_node D s h"
| "hash_or_node_expand D s (HnNode n) = Inr (Some n)"

fun hash_or_node_hash :: "hash_or_node \<Rightarrow> sh256" where
  "hash_or_node_hash (HnHash h) = h"
| "hash_or_node_hash (HnNode n) = nd_hash n"

section \<open>Operations\<close>

definition smt_root_node :: "'s database \<Rightarrow> spare_merkle_trie \<Rightarrow> 's \<Rightarrow> (zk_error, node) result" where
  "smt_root_node D t s =
     bind_result (db_get_node D s (smt_root_hash t)) (\<lambda>found.
       ok_or (RootNodeNotFound (smt_root_hash t)) found)"

definition smt_root_branch :: "'s database \<Rightarrow> spare_merkle_trie \<Rightarrow> 's \<Rightarrow> (zk_error, branch_node) result" where
  "smt_root_branch D t s =
     bind_result (smt_root_node D t s) (\<lambda>root_node.
       ok_or (RootNodeExpectToBeBranchNode root_node) (node_value_branch (nd_raw root_node)))"

definition smt_sub_root_hash :: "'s database \<Rightarrow> spare_merkle_trie \<Rightarrow> 's \<Rightarrow> (zk_error, sh256) result" where
  "smt_sub_root_hash D t s = bind_result (smt_root_branch D t s) (\<lambda>b. Inr (br_right b))"

definition smt_next_free_node :: "'s database \<Rightarrow> spare_merkle_trie \<Rightarrow> 's \<Rightarrow> (zk_error, u64) result" where
  "smt_next_free_node D t s =
     bind_result (smt_root_branch D t s) (\<lambda>b. parse_node_index (word_bytes (br_left b)))"

definition smt_set_next_free_node ::
  "hasher \<Rightarrow> 's database \<Rightarrow> u64 \<Rightarrow> (spare_merkle_trie \<times> 's, zk_error, unit) comp" where
  "smt_set_next_free_node H D free =
     bindc (readc (\<lambda>(t, s). smt_root_branch D t s)) (\<lambda>branch_node.
     bindc (lift_result (node_top_node H free (br_right branch_node))) (\<lambda>root.
     bindc (on_db (db_update_node D (nd_hash root) root)) (\<lambda>root.
       modifyc (apfst (\<lambda>t. t\<lparr>smt_root_hash := nd_hash root\<rparr>)))))"

definition smt_commit :: "(spare_merkle_trie \<times> 's, zk_error, unit) comp" where
  "smt_commit = returnc ()"

definition db_add :: "'s database \<Rightarrow> node \<Rightarrow> ('s, zk_error, node) comp" where
  "db_add D n = db_update_node D (nd_hash n) n"

function smt_add_leaf ::
  "hasher \<Rightarrow> 's database \<Rightarrow> nat \<Rightarrow> sh256 \<Rightarrow> bytes \<Rightarrow> bytes \<Rightarrow> ('s, zk_error, node) comp" where
  "smt_add_leaf H D lvl current path value =
     (if zk_trie_depth + 2 \<le> lvl then lift_result (Inl (Fail ReachedMaxLevel))
      else bindc (readc (\<lambda>s. db_get_node D s current)) (\<lambda>found.
        case found of
          None \<Rightarrow> lift_result (Inl (Fail (NodeNotFound lvl current)))
        | Some n \<Rightarrow>
          (case nd_raw n of
             Branch branch \<Rightarrow>
               bindc (lift_result (index path lvl)) (\<lambda>bit.
               bindc (lift_result (branch_child branch bit)) (\<lambda>child.
               bindc (smt_add_leaf H D (lvl + 1) child path value) (\<lambda>updated_child.
               bindc (lift_result (node_new H (Branch (branch_new_replace branch bit (nd_hash updated_child)))))
                 (db_add D))))
           | Leaf leaf \<Rightarrow>
               bindc (lift_result (slice_range path lvl (length path))) (\<lambda>rest.
                 if prefix_len (lf_path leaf) rest = length (lf_path leaf)
                 then bindc (lift_result (node_leaf H rest value)) (db_add D)
                 else lift_result (Inl (Fail PathNotAllow)))
           | EmptyLeaf \<Rightarrow>
               bindc (lift_result (slice_range path lvl (length path))) (\<lambda>rest.
               bindc (lift_result (node_leaf H rest value)) (db_add D))
           | NextFree nf \<Rightarrow>
               bindc (lift_result (slice_range path lvl (length path))) (\<lambda>rest.
                 if prefix_len (lf_path nf) rest = length (lf_path nf)
                 then bindc (lift_result (node_leaf H rest value)) (db_add D)
                 else lift_result (Inl Panic)))))"
  by pat_completeness auto
termination by (relation "measure (\<lambda>(H, D, lvl, _). 42 - lvl)") (auto simp: zk_trie_depth_def)

function smt_remove_leaf ::
  "hasher \<Rightarrow> 's database \<Rightarrow> nat \<Rightarrow> sh256 \<Rightarrow> bytes \<Rightarrow> ('s, zk_error, node) comp" where
  "smt_remove_leaf H D lvl current path =
     (if zk_trie_depth + 2 \<le> lvl then lift_result (Inl (Fail ReachedMaxLevel))
      else bindc (readc (\<lambda>s. db_get_node D s current)) (\<lambda>found.
        case found of
          None \<Rightarrow> lift_result (Inl (Fail (NodeNotFound lvl current)))
        | Some n \<Rightarrow>
          (case nd_raw n of
             Branch branch \<Rightarrow>
               bindc (lift_result (index path lvl)) (\<lambda>bit.
               bindc (lift_result (branch_child branch bit)) (\<lambda>child.
               bindc (smt_remove_leaf H D (lvl + 1) child path) (\<lambda>updated_child.
               bindc (lift_result (node_new H (Branch (branch_new_replace branch bit (nd_hash updated_child)))))
                 (db_add D))))
           | Leaf leaf \<Rightarrow> lift_result (node_empty_leaf H)
           | EmptyLeaf \<Rightarrow> lift_result (node_empty_leaf H)
           | NextFree nf \<Rightarrow> lift_result (node_empty_leaf H))))"
  by pat_completeness auto
termination by (relation "measure (\<lambda>(H, D, lvl, _). 42 - lvl)") (auto simp: zk_trie_depth_def)

declare smt_add_leaf.simps [simp del] smt_remove_leaf.simps [simp del]

definition smt_put ::
  "hasher \<Rightarrow> 's database \<Rightarrow> bytes \<Rightarrow> bytes \<Rightarrow> (spare_merkle_trie \<times> 's, zk_error, unit) comp" where
  "smt_put H D path value =
     bindc (readc (\<lambda>(t, s). Inr (smt_root_hash t))) (\<lambda>root_hash.
     bindc (on_db (smt_add_leaf H D 0 root_hash path value)) (\<lambda>root.
       modifyc (apfst (\<lambda>t. t\<lparr>smt_root_hash := nd_hash root\<rparr>))))"

definition smt_remove ::
  "hasher \<Rightarrow> 's database \<Rightarrow> bytes \<Rightarrow> (spare_merkle_trie \<times> 's, zk_error, unit) comp" where
  "smt_remove H D path =
     bindc (readc (\<lambda>(t, s). Inr (smt_root_hash t))) (\<lambda>root_hash.
     bindc (on_db (smt_remove_leaf H D 0 root_hash path)) (\<lambda>root.
       modifyc (apfst (\<lambda>t. t\<lparr>smt_root_hash := nd_hash root\<rparr>))))"

text \<open>The loop \<open>for i in 0..(ZK_TRIE_DEPTH + 2)\<close> of \<open>get_node\<close>.\<close>

function smt_get_node_loop ::
  "'s database \<Rightarrow> 's \<Rightarrow> bytes \<Rightarrow> nat \<Rightarrow> sh256 \<Rightarrow> (zk_error, node option) result" where
  "smt_get_node_loop D s path i next_node_hash =
     (if zk_trie_depth + 2 \<le> i then Inl (Fail ReachedMaxLevel)
      else bind_result (db_get_node D s next_node_hash) (\<lambda>found.
        case found of
          None \<Rightarrow> Inl (Fail (NodeNotFound i next_node_hash))
        | Some n \<Rightarrow>
          (case nd_raw n of
             Branch b \<Rightarrow>
               bind_result (index path i) (\<lambda>bit.
                 smt_get_node_loop D s path (i + 1) (if bit = 0 then br_left b else br_right b))
           | EmptyLeaf \<Rightarrow> Inr None
           | Leaf l \<Rightarrow>
               bind_result (slice_range path i (length path)) (\<lambda>rest.
                 Inr (if lf_path l = rest then Some n else None))
           | NextFree l \<Rightarrow>
               bind_result (slice_range path i (length path)) (\<lambda>rest.
                 if lf_path l = rest then Inr (Some n) else Inl Panic))))"
  by pat_completeness auto
termination by (relation "measure (\<lambda>(D, s, path, i, _). 42 - i)") (auto simp: zk_trie_depth_def)

declare smt_get_node_loop.simps [simp del]

definition smt_get_node ::
  "'s database \<Rightarrow> spare_merkle_trie \<Rightarrow> 's \<Rightarrow> bytes \<Rightarrow> (zk_error, node option) result" where
  "smt_get_node D t s path = smt_get_node_loop D s path 0 (smt_root_hash t)"

section \<open>Walking the stored tree\<close>

text \<open>
  The abstraction: the node reached from a hash by a list of directions. Two stores present
  the same trie when they agree on every walk.
\<close>

fun walk :: "(sh256 \<rightharpoonup> node) \<Rightarrow> sh256 \<Rightarrow> bytes \<Rightarrow> node option" where
  "walk V h [] = V h"
| "walk V h (b # bs) =
     (case V h of
        Some n \<Rightarrow> (case nd_raw n of
            Branch br \<Rightarrow> walk V (if b = 0 then br_left br else br_right br) bs
          | _ \<Rightarrow> None)
      | None \<Rightarrow> None)"

lemma walk_Cons_SomeE:
  assumes "walk V h (b # bs) = Some m"
  obtains n br where "V h = Some n" "nd_raw n = Branch br"
    "walk V (if b = 0 then br_left br else br_right br) bs = Some m"
  using assms by (auto split: option.splits node_value.splits)

lemma walk_mono: "V \<subseteq>\<^sub>m V' \<Longrightarrow> walk V h bs = Some m \<Longrightarrow> walk V' h bs = Some m"
proof (induction bs arbitrary: h)
  case Nil
  then show ?case by (auto simp: map_le_def dom_def)
next
  case (Cons b bs)
  from Cons.prems(2) obtain n br where n: "V h = Some n" "nd_raw n = Branch br"
    "walk V (if b = 0 then br_left br else br_right br) bs = Some m" by (rule walk_Cons_SomeE)
  have "V' h = Some n" using Cons.prems(1) n(1) by (force simp: map_le_def dom_def)
  with n Cons.IH [OF Cons.prems(1) n(3)] show ?case by simp
qed

text \<open>A directions list has only the bytes 0 and 1.\<close>

abbreviation directions :: "bytes \<Rightarrow> bool" where
  "directions bs \<equiv> set bs \<subseteq> {0, 1}"

text \<open>A leaf slot at the end of a path: nothing there yet, or a leaf with the rest of the path.\<close>

definition slot :: "bytes \<Rightarrow> node \<Rightarrow> bool" where
  "slot rest n \<longleftrightarrow> nd_raw n = EmptyLeaf \<or> (\<exists>v. nd_raw n = Leaf \<lparr>lf_path = rest, lf_value = v\<rparr>)"

lemma prefix_len_self [simp]: "prefix_len p p = length p"
  by (simp add: prefix_len_eq_length_iff)

section \<open>Reading\<close>

lemma split_path:
  assumes "drop i path = b # rest"
  shows "i < length path" "path ! i = b" "drop (Suc i) path = rest"
proof -
  show i: "i < length path" using assms by (metis drop_eq_Nil list.distinct(1) not_le)
  then show "path ! i = b" using assms by (metis Cons_nth_drop_Suc list.inject)
  from i show "drop (Suc i) path = rest" using assms by (metis Cons_nth_drop_Suc list.inject)
qed

context node_db begin

lemma get_node_loop_walk:
  assumes "walk (view s) h bs = Some n" "slot rest n" "drop i path = bs @ rest"
    "i + length bs < 42" "rest \<noteq> []"
  shows "smt_get_node_loop D s path i h = Inr (if nd_raw n = EmptyLeaf then None else Some n)"
  using assms
proof (induction bs arbitrary: i h)
  case Nil
  have "i \<le> length path" using Nil.prems(3,5) by (metis append_Nil drop_all linear)
  then show ?case
    using Nil by (subst smt_get_node_loop.simps) (auto simp: get_node zk_trie_depth_def slot_def)
next
  case (Cons b bs)
  from Cons.prems(1) obtain m br where m: "view s h = Some m" "nd_raw m = Branch br"
    "walk (view s) (if b = 0 then br_left br else br_right br) bs = Some n" by (rule walk_Cons_SomeE)
  note sp = split_path [of i path b "bs @ rest"]
  show ?case
    using Cons.IH [OF m(3) Cons.prems(2)] Cons.prems(3-5) m(1,2) sp
    by (subst smt_get_node_loop.simps) (simp add: get_node zk_trie_depth_def)
qed

lemma get_node_loop_missing:
  assumes "view s h = None" "i < 42"
  shows "smt_get_node_loop D s path i h = Inl (Fail (NodeNotFound i h))"
  using assms by (subst smt_get_node_loop.simps) (simp add: get_node zk_trie_depth_def)

end

section \<open>Writing\<close>

text \<open>
  What a write along a path does to the walks: the path now ends in the new leaf, and every
  other path of the same length that led somewhere leads there still.
\<close>

definition branch_at :: "(sh256 \<rightharpoonup> node) \<Rightarrow> sh256 \<Rightarrow> branch_node option" where
  "branch_at V h = (case V h of Some n \<Rightarrow> node_value_branch (nd_raw n) | None \<Rightarrow> None)"

definition replaces ::
  "(sh256 \<rightharpoonup> node) \<Rightarrow> sh256 \<Rightarrow> bytes \<Rightarrow> node \<Rightarrow> (sh256 \<rightharpoonup> node) \<Rightarrow> sh256 \<Rightarrow> bool" where
  "replaces V h bs leaf V' h' \<longleftrightarrow>
     V \<subseteq>\<^sub>m V' \<and> walk V' h' bs = Some leaf \<and>
     (\<forall>br. bs \<noteq> [] \<longrightarrow> branch_at V h = Some br \<longrightarrow>
        (\<exists>x. branch_at V' h' = Some (branch_new_replace br (hd bs) x))) \<and>
     (\<forall>q m. length q = length bs \<longrightarrow> directions q \<longrightarrow> q \<noteq> bs \<longrightarrow>
        walk V h q = Some m \<longrightarrow> walk V' h' q = Some m)"

lemma replaces_Nil: "V \<subseteq>\<^sub>m V' \<Longrightarrow> V' h' = Some leaf \<Longrightarrow> replaces V h [] leaf V' h'"
  by (simp add: replaces_def)

lemma replaces_Cons:
  assumes "V h = Some m" "nd_raw m = Branch br" "b = 0 \<or> b = 1"
    and rep: "replaces V (if b = 0 then br_left br else br_right br) bs leaf V1 hc"
    and n: "nd_raw n = Branch (branch_new_replace br b hc)"
    and V': "V1 \<subseteq>\<^sub>m V'" "V' (nd_hash n) = Some n"
  shows "replaces V h (b # bs) leaf V' (nd_hash n)"
  unfolding replaces_def
proof (intro conjI allI impI)
  have V1: "V \<subseteq>\<^sub>m V1" using rep by (simp add: replaces_def)
  then show V: "V \<subseteq>\<^sub>m V'" using V'(1) by (rule map_le_trans)
  have child: "(if b = 0 then br_left (branch_new_replace br b hc)
      else br_right (branch_new_replace br b hc)) = hc"
    using assms(3) by (auto simp: branch_new_replace_def)
  show "walk V' (nd_hash n) (b # bs) = Some leaf"
    using rep walk_mono [OF V'(1)] by (simp add: V'(2) n child replaces_def)
  show "\<exists>x. branch_at V' (nd_hash n) = Some (branch_new_replace br' (hd (b # bs)) x)"
    if "branch_at V h = Some br'" for br'
    using that assms(1,2) by (auto simp: branch_at_def V'(2) n)
  fix q l assume q: "length q = length (b # bs)" "directions q" "q \<noteq> b # bs" "walk V h q = Some l"
  then obtain c q' where c: "q = c # q'" "length q' = length bs" "c = 0 \<or> c = 1" "directions q'"
    by (cases q) auto
  show "walk V' (nd_hash n) q = Some l"
  proof (cases "c = b")
    case True
    then have "walk V1 hc q' = Some l"
      using rep q c assms(1,2) by (auto simp: replaces_def)
    then show ?thesis using walk_mono [OF V'(1)] True by (simp add: c(1) V'(2) n child)
  next
    case False
    then have "(if c = 0 then br_left (branch_new_replace br b hc)
        else br_right (branch_new_replace br b hc)) = (if c = 0 then br_left br else br_right br)"
      using assms(3) c(3) by (auto simp: branch_new_replace_def)
    moreover have "walk V' (if c = 0 then br_left br else br_right br) q' = Some l"
      using q(4) c(1) assms(1,2) by (intro walk_mono [OF V]) simp
    ultimately show ?thesis by (simp add: c(1) V'(2) n)
  qed
qed

text \<open>The hash that the nodes above a leaf get: siblings from the store, recomputed upwards.\<close>

fun path_hash :: "hasher \<Rightarrow> (sh256 \<rightharpoonup> node) \<Rightarrow> sh256 \<Rightarrow> bytes \<Rightarrow> sh256 \<Rightarrow> sh256" where
  "path_hash H V h [] leaf_hash = leaf_hash"
| "path_hash H V h (b # bs) leaf_hash =
     (case V h of
        Some n \<Rightarrow> (case nd_raw n of
            Branch br \<Rightarrow>
              if b = 0 then branch_hash H (path_hash H V (br_left br) bs leaf_hash) (br_right br)
              else branch_hash H (br_left br) (path_hash H V (br_right br) bs leaf_hash)
          | _ \<Rightarrow> 0)
      | None \<Rightarrow> 0)"

text \<open>The node that a write leaves at the top of a path.\<close>

definition written_node :: "hasher \<Rightarrow> (sh256 \<rightharpoonup> node) \<Rightarrow> sh256 \<Rightarrow> bytes \<Rightarrow> node \<Rightarrow> node" where
  "written_node H V h bs leaf = (case (bs, branch_at V h) of
     (b # bs', Some br) \<Rightarrow>
       (let br' = branch_new_replace br b (path_hash H V (if b = 0 then br_left br else br_right br) bs' (nd_hash leaf))
        in \<lparr>nd_raw = Branch br', nd_hash = branch_hash H (br_left br') (br_right br')\<rparr>)
   | _ \<Rightarrow> leaf)"

locale trie_db = trie_hasher H + node_db D view
  for H :: hasher and D :: "'s database" and view :: "'s \<Rightarrow> sh256 \<rightharpoonup> node"
begin

lemma db_add_log_total: "\<exists>s'. db_add (log_db D) n (s, w) = (Inr n, (s', w @ [n]))"
  using update_node [of "nd_hash n" n s] by (auto simp: db_add_def log_db_def)

lemma db_add_log_view:
  assumes "db_add (log_db D) n (s, w) = (Inr n, (s', w'))"
    and "inj_on nd_hash U" "stored_in U (view s)" "n \<in> U"
  shows "view s' = (view s)(nd_hash n \<mapsto> n)" "stored_in U (view s')" "view s \<subseteq>\<^sub>m view s'"
  using update_stored_in [OF assms(2-4)] assms(1) by (auto simp: db_add_def log_db_def)

lemma add_leaf_walk:
  assumes "walk (view s) h bs = Some n0" "slot rest n0" "drop lvl path = bs @ rest"
    "lvl + length bs < 42" "rest \<noteq> []" "rest \<noteq> [23]" "directions bs"
    and v: "32 dvd length v" "v \<noteq> []"
  shows "\<exists>n s' ws. smt_add_leaf H (log_db D) lvl h path v (s, w) = (Inr n, (s', w @ ws)) \<and>
    nd_hash n = path_hash H (view s) h bs (value_hash H v) \<and>
    n = written_node H (view s) h bs \<lparr>nd_raw = mk_leaf rest v, nd_hash = value_hash H v\<rparr> \<and>
    (\<forall>U. inj_on nd_hash U \<longrightarrow> stored_in U (view s) \<longrightarrow> set ws \<subseteq> U \<longrightarrow>
      stored_in U (view s') \<and> view s' (nd_hash n) = Some n \<and>
      replaces (view s) h bs \<lparr>nd_raw = mk_leaf rest v, nd_hash = value_hash H v\<rparr> (view s') (nd_hash n))"
  using assms(1-7)
proof (induction bs arbitrary: lvl h w)
  case Nil
  let ?n = "\<lparr>nd_raw = mk_leaf rest v, nd_hash = value_hash H v\<rparr>"
  have "lvl \<le> length path" using Nil.prems(3,5) by (metis append_Nil drop_all linear)
  moreover obtain s' where s': "db_add (log_db D) ?n (s, w) = (Inr ?n, (s', w @ [?n]))"
    using db_add_log_total by blast
  ultimately have "smt_add_leaf H (log_db D) lvl h path v (s, w) = (Inr ?n, (s', w @ [?n]))"
    using Nil by (subst smt_add_leaf.simps)
      (auto simp: get_node zk_trie_depth_def slot_def node_leaf_ok [OF v] split: node_value.splits)
  moreover have "stored_in U (view s') \<and> view s' (nd_hash ?n) = Some ?n \<and> replaces (view s) h [] ?n (view s') (nd_hash ?n)"
    if "inj_on nd_hash U" "stored_in U (view s)" "set [?n] \<subseteq> U" for U
    using db_add_log_view [OF s' that(1,2)] that(3) by (auto intro!: replaces_Nil)
  ultimately show ?case by (intro exI [of _ ?n] exI [of _ s'] exI [of _ "[?n]"]) (simp add: written_node_def)
next
  case (Cons b bs)
  let ?leaf = "\<lparr>nd_raw = mk_leaf rest v, nd_hash = value_hash H v\<rparr>"
  from Cons.prems(1) obtain m br where m: "view s h = Some m" "nd_raw m = Branch br"
    "walk (view s) (if b = 0 then br_left br else br_right br) bs = Some n0" by (rule walk_Cons_SomeE)
  have b: "b = 0 \<or> b = 1" using Cons.prems(7) by auto
  have sp: "lvl < length path" "path ! lvl = b" "drop (Suc lvl) path = bs @ rest"
    using split_path [of lvl path b "bs @ rest"] Cons.prems(3) by simp_all
  let ?child = "if b = 0 then br_left br else br_right br"
  have rec: "Suc lvl + length bs < 42" "directions bs" using Cons.prems(4,7) by simp_all
  obtain nc s1 ws1 where c: "smt_add_leaf H (log_db D) (Suc lvl) ?child path v (s, w) = (Inr nc, (s1, w @ ws1))"
    "nd_hash nc = path_hash H (view s) ?child bs (value_hash H v)"
    "\<forall>U. inj_on nd_hash U \<longrightarrow> stored_in U (view s) \<longrightarrow> set ws1 \<subseteq> U \<longrightarrow>
      stored_in U (view s1) \<and> replaces (view s) ?child bs ?leaf (view s1) (nd_hash nc)"
    using Cons.IH [OF m(3) Cons.prems(2) sp(3) rec(1) Cons.prems(5,6) rec(2), of w] by blast
  let ?br = "branch_new_replace br b (nd_hash nc)"
  let ?n = "\<lparr>nd_raw = Branch ?br, nd_hash = branch_hash H (br_left ?br) (br_right ?br)\<rparr>"
  obtain s' where s': "db_add (log_db D) ?n (s1, w @ ws1) = (Inr ?n, (s', (w @ ws1) @ [?n]))"
    using db_add_log_total by blast
  have child: "(branch_child br b :: (zk_error, sh256) result) = Inr ?child" using b by (auto simp: branch_child_def)
  have run: "smt_add_leaf H (log_db D) lvl h path v (s, w) = (Inr ?n, (s', w @ (ws1 @ [?n])))"
    using Cons.prems(4) sp m(1,2) s'
    by (subst smt_add_leaf.simps)
      (simp add: get_node zk_trie_depth_def child bindc_ok [of "smt_add_leaf H (log_db D) (Suc lvl) ?child path v" "(s, w)", OF c(1)] node_new_branch_ok del: if_split)
  have "stored_in U (view s') \<and> view s' (nd_hash ?n) = Some ?n \<and> replaces (view s) h (b # bs) ?leaf (view s') (nd_hash ?n)"
    if U: "inj_on nd_hash U" "stored_in U (view s)" "set (ws1 @ [?n]) \<subseteq> U" for U
  proof -
    have 1: "stored_in U (view s1)" "replaces (view s) ?child bs ?leaf (view s1) (nd_hash nc)"
      using c(3) [rule_format, OF U(1,2)] U(3) by auto
    note upd = db_add_log_view [OF s' U(1) 1(1)]
    show ?thesis
      using replaces_Cons [OF m(1,2) b 1(2), of ?n "view s'"] upd U(3) by simp
  qed
  moreover have "nd_hash ?n = path_hash H (view s) h (b # bs) (value_hash H v)"
    using b m(1,2) c(2) by (auto simp: branch_new_replace_def)
  moreover have "?n = written_node H (view s) h (b # bs) ?leaf"
    using m(1,2) c(2) by (simp add: written_node_def branch_at_def empty_hash.simps Let_def)
  ultimately show ?case using run by blast
qed

text \<open>Removing a leaf is the same walk, with the static empty leaf at its end.\<close>

lemma remove_leaf_walk:
  assumes "walk (view s) h bs = Some n0" "slot rest n0" "drop lvl path = bs @ rest"
    "lvl + length bs < 42" "directions bs" and empty: "view s 0 = Some (empty_node H 0)"
  shows "\<exists>n s' ws. smt_remove_leaf H (log_db D) lvl h path (s, w) = (Inr n, (s', w @ ws)) \<and>
    nd_hash n = path_hash H (view s) h bs 0 \<and> n = written_node H (view s) h bs (empty_node H 0) \<and>
    (\<forall>U. inj_on nd_hash U \<longrightarrow> stored_in U (view s) \<longrightarrow> set ws \<subseteq> U \<longrightarrow>
      stored_in U (view s') \<and> view s' (nd_hash n) = Some n \<and> replaces (view s) h bs (empty_node H 0) (view s') (nd_hash n))"
  using assms(1-5)
proof (induction bs arbitrary: lvl h w)
  case Nil
  then have "smt_remove_leaf H (log_db D) lvl h path (s, w) = (Inr (empty_node H 0), (s, w @ []))"
    by (subst smt_remove_leaf.simps) (auto simp: get_node zk_trie_depth_def slot_def split: node_value.splits)
  then show ?case
    using empty by (intro exI [of _ "empty_node H 0"] exI [of _ s] exI [of _ "[]"])
      (auto intro!: replaces_Nil simp: empty_hash.simps written_node_def)
next
  case (Cons b bs)
  from Cons.prems(1) obtain m br where m: "view s h = Some m" "nd_raw m = Branch br"
    "walk (view s) (if b = 0 then br_left br else br_right br) bs = Some n0" by (rule walk_Cons_SomeE)
  have b: "b = 0 \<or> b = 1" using Cons.prems(5) by auto
  have sp: "lvl < length path" "path ! lvl = b" "drop (Suc lvl) path = bs @ rest"
    using split_path [of lvl path b "bs @ rest"] Cons.prems(3) by simp_all
  let ?child = "if b = 0 then br_left br else br_right br"
  have rec: "Suc lvl + length bs < 42" "directions bs" using Cons.prems(4,5) by simp_all
  obtain nc s1 ws1 where c: "smt_remove_leaf H (log_db D) (Suc lvl) ?child path (s, w) = (Inr nc, (s1, w @ ws1))"
    "nd_hash nc = path_hash H (view s) ?child bs 0"
    "\<forall>U. inj_on nd_hash U \<longrightarrow> stored_in U (view s) \<longrightarrow> set ws1 \<subseteq> U \<longrightarrow>
      stored_in U (view s1) \<and> replaces (view s) ?child bs (empty_node H 0) (view s1) (nd_hash nc)"
    using Cons.IH [OF m(3) Cons.prems(2) sp(3) rec, of w] by blast
  let ?br = "branch_new_replace br b (nd_hash nc)"
  let ?n = "\<lparr>nd_raw = Branch ?br, nd_hash = branch_hash H (br_left ?br) (br_right ?br)\<rparr>"
  obtain s' where s': "db_add (log_db D) ?n (s1, w @ ws1) = (Inr ?n, (s', (w @ ws1) @ [?n]))"
    using db_add_log_total by blast
  have child: "(branch_child br b :: (zk_error, sh256) result) = Inr ?child" using b by (auto simp: branch_child_def)
  have run: "smt_remove_leaf H (log_db D) lvl h path (s, w) = (Inr ?n, (s', w @ (ws1 @ [?n])))"
    using Cons.prems(4) sp m(1,2) s'
    by (subst smt_remove_leaf.simps)
      (simp add: get_node zk_trie_depth_def child
        bindc_ok [of "smt_remove_leaf H (log_db D) (Suc lvl) ?child path" "(s, w)", OF c(1)]
        node_new_branch_ok del: if_split)
  have "stored_in U (view s') \<and> view s' (nd_hash ?n) = Some ?n \<and> replaces (view s) h (b # bs) (empty_node H 0) (view s') (nd_hash ?n)"
    if U: "inj_on nd_hash U" "stored_in U (view s)" "set (ws1 @ [?n]) \<subseteq> U" for U
  proof -
    have 1: "stored_in U (view s1)" "replaces (view s) ?child bs (empty_node H 0) (view s1) (nd_hash nc)"
      using c(3) [rule_format, OF U(1,2)] U(3) by auto
    note upd = db_add_log_view [OF s' U(1) 1(1)]
    show ?thesis
      using replaces_Cons [OF m(1,2) b 1(2), of ?n "view s'"] upd U(3) by simp
  qed
  moreover have "nd_hash ?n = path_hash H (view s) h (b # bs) 0"
    using b m(1,2) c(2) by (auto simp: branch_new_replace_def)
  moreover have "?n = written_node H (view s) h (b # bs) (empty_node H 0)"
    using m(1,2) c(2) by (simp add: written_node_def branch_at_def empty_hash.simps Let_def)
  ultimately show ?case using run by blast
qed

end

section \<open>Logged runs follow plain runs\<close>

lemma tracks_db_add [tracking]: "tracks (db_add (log_db D) n) (db_add D n)"
  unfolding db_add_def by (rule tracks_update_node)

lemma tracks_add_leaf [tracking]:
  "tracks (smt_add_leaf H (log_db D) lvl h path v) (smt_add_leaf H D lvl h path v)"
proof (induction "42 - lvl" arbitrary: lvl h rule: less_induct)
  case less
  have IH: "lvl < 42 \<Longrightarrow> tracks (smt_add_leaf H (log_db D) (Suc lvl) c path v) (smt_add_leaf H D (Suc lvl) c path v)" for c
    by (rule less) simp
  show ?case
    by (subst (1 2) smt_add_leaf.simps)
      (auto simp: zk_trie_depth_def split: option.split node_value.split intro!: tracking IH)
qed

lemma tracks_remove_leaf [tracking]:
  "tracks (smt_remove_leaf H (log_db D) lvl h path) (smt_remove_leaf H D lvl h path)"
proof (induction "42 - lvl" arbitrary: lvl h rule: less_induct)
  case less
  have IH: "lvl < 42 \<Longrightarrow> tracks (smt_remove_leaf H (log_db D) (Suc lvl) c path) (smt_remove_leaf H D (Suc lvl) c path)" for c
    by (rule less) simp
  show ?case
    by (subst (1 2) smt_remove_leaf.simps)
      (auto simp: zk_trie_depth_def split: option.split node_value.split intro!: tracking IH)
qed

section \<open>The trie as a partial map of leaves\<close>

text \<open>
  What is known of a stored trie: the next free index and, for some leaf indices, the content
  of the leaf (\<open>None\<close> for an empty leaf, \<open>Some v\<close> for a leaf with value \<open>v\<close>). A store built from
  proofs holds only the paths of those proofs, so the knowledge is partial.
\<close>

definition leaf_at :: "(sh256 \<rightharpoonup> node) \<Rightarrow> sh256 \<Rightarrow> u64 \<Rightarrow> node option" where
  "leaf_at V root idx = walk V root (1 # leaf_bits idx)"

fun content_raw :: "bytes option \<Rightarrow> node_value" where
  "content_raw None = EmptyLeaf"
| "content_raw (Some v) = mk_leaf [22] v"

definition trie_rep ::
  "(sh256 \<rightharpoonup> node) \<Rightarrow> sh256 \<Rightarrow> u64 \<Rightarrow> (u64 \<rightharpoonup> bytes option) \<Rightarrow> bool" where
  "trie_rep V root nf L \<longleftrightarrow>
     (\<exists>br. branch_at V root = Some br \<and> ucast (br_left br) = nf) \<and>
     (\<forall>i c. L i = Some c \<longrightarrow> unat i < 2 ^ 40 \<and> (\<exists>n. leaf_at V root i = Some n \<and> nd_raw n = content_raw c))"

definition leaf_path :: "u64 \<Rightarrow> bytes" where
  "leaf_path idx = 1 # leaf_bits idx @ [22]"

lemma get_leaf_path_eq: "unat idx < 2 ^ 40 \<Longrightarrow> get_leaf_path idx = Inr (leaf_path idx)"
  by (simp add: get_leaf_path_ok leaf_path_def)

lemma trie_repD:
  assumes "trie_rep V root nf L" "L i = Some c"
  obtains n where "unat i < 2 ^ 40" "leaf_at V root i = Some n" "nd_raw n = content_raw c" "slot [22] n"
  using assms by (cases c) (force simp: trie_rep_def slot_def)+

lemma trie_rep_replaces:
  assumes rep: "trie_rep V root nf L" "unat i < 2 ^ 40"
    and new: "replaces V root (1 # leaf_bits i) n V' root'" "nd_raw n = content_raw c"
  shows "trie_rep V' root' nf (L(i \<mapsto> c))"
  unfolding trie_rep_def
proof (intro conjI allI impI)
  obtain br where br: "branch_at V root = Some br" "ucast (br_left br) = nf"
    using rep(1) by (auto simp: trie_rep_def)
  then obtain x where "branch_at V' root' = Some (branch_new_replace br 1 x)"
    using new(1) by (auto simp: replaces_def)
  with br(2) show "\<exists>br. branch_at V' root' = Some br \<and> ucast (br_left br) = nf"
    by (simp add: branch_new_replace_def)
  fix j d assume j: "(L(i \<mapsto> c)) j = Some d"
  show "unat j < 2 ^ 40" using j rep by (auto simp: trie_rep_def split: if_splits)
  show "\<exists>n. leaf_at V' root' j = Some n \<and> nd_raw n = content_raw d"
  proof (cases "j = i")
    case True
    then show ?thesis using j new by (auto simp: leaf_at_def replaces_def)
  next
    case False
    then obtain m where m: "unat j < 2 ^ 40" "leaf_at V root j = Some m" "nd_raw m = content_raw d"
      using j rep(1) by (auto elim: trie_repD)
    have "1 # leaf_bits j \<noteq> 1 # leaf_bits i" using False leaf_bits_inject [OF _ m(1) rep(2)] by auto
    moreover have "directions (1 # leaf_bits j)" using set_leaf_bits [of j] by auto
    ultimately have "leaf_at V' root' j = Some m"
      using new(1) m(2) unfolding replaces_def leaf_at_def by (metis length_Cons length_leaf_bits)
    with m(3) show ?thesis by blast
  qed
qed

section \<open>The operations of the trie on what is known\<close>

text \<open>The nodes written by an operation on a trie and a logged store.\<close>

definition tracks_trie ::
  "('t \<times> 's \<times> node list, 'e, 'a) comp \<Rightarrow> ('t \<times> 's, 'e, 'a) comp \<Rightarrow> bool" where
  "tracks_trie cl c \<longleftrightarrow> (\<forall>t s w. \<exists>ws. cl (t, (s, w)) =
     (fst (c (t, s)), (fst (snd (c (t, s))), (snd (snd (c (t, s))), w @ ws))))"

definition trie_written :: "('t \<times> 's \<times> node list, 'e, 'a) comp \<Rightarrow> 't \<Rightarrow> 's \<Rightarrow> node list" where
  "trie_written cl t s = snd (snd (snd (cl (t, (s, [])))))"

definition trie_clash_free ::
  "('s \<Rightarrow> sh256 \<rightharpoonup> node) \<Rightarrow> ('t \<times> 's \<times> node list, 'e, 'a) comp \<Rightarrow> 't \<Rightarrow> 's \<Rightarrow> bool" where
  "trie_clash_free view cl t s \<longleftrightarrow>
     consistent (view s) \<and> inj_on nd_hash (ran (view s) \<union> set (trie_written cl t s))"

lemma tracks_trie_lift [tracking]: "tracks_trie (lift_result r) (lift_result r)"
  by (simp add: tracks_trie_def)

lemma tracks_trie_return [tracking]: "tracks_trie (returnc x) (returnc x)"
  by (simp add: tracks_trie_def)

lemma tracks_trie_read [tracking]:
  "(\<And>t s w. f (t, (s, w)) = g (t, s)) \<Longrightarrow> tracks_trie (readc f) (readc g)"
  by (simp add: tracks_trie_def)

lemma tracks_trie_modify_trie [tracking]:
  "tracks_trie (modifyc (apfst f)) (modifyc (apfst f))"
  by (simp add: tracks_trie_def)

lemma tracks_trie_modify_db [tracking]:
  "(\<And>s w. f (s, w) = (g s, w)) \<Longrightarrow> tracks_trie (modifyc (apsnd f)) (modifyc (apsnd g))"
  by (simp add: tracks_trie_def)

lemma tracks_trie_on_db [tracking]: "tracks cl c \<Longrightarrow> tracks_trie (on_db cl) (on_db c)"
  unfolding tracks_trie_def
proof (intro allI)
  fix t s w
  assume "tracks cl c"
  then obtain ws where "cl (s, w) = (fst (c s), (snd (c s), w @ ws))"
    unfolding tracks_def by blast
  then show "\<exists>ws. on_db cl (t, (s, w)) = (fst (on_db c (t, s)),
      (fst (snd (on_db c (t, s))), (snd (snd (on_db c (t, s))), w @ ws)))"
    by (cases "c s") (simp add: on_db_def)
qed

lemma tracks_trie_bind [tracking]:
  assumes "tracks_trie cl c" and "\<And>x. tracks_trie (fl x) (f x)"
  shows "tracks_trie (bindc cl fl) (bindc c f)"
  unfolding tracks_trie_def
proof (intro allI)
  fix t s w
  obtain r t' s' where c: "c (t, s) = (r, (t', s'))" by (metis prod.exhaust)
  then obtain ws where ws: "cl (t, (s, w)) = (r, (t', (s', w @ ws)))"
    using assms(1) unfolding tracks_trie_def by (metis fst_conv snd_conv)
  show "\<exists>ws. bindc cl fl (t, (s, w)) = (fst (bindc c f (t, s)),
      (fst (snd (bindc c f (t, s))), (snd (snd (bindc c f (t, s))), w @ ws)))"
  proof (cases r)
    case (Inl e)
    then show ?thesis using c ws by (auto simp: bindc_def)
  next
    case (Inr x)
    obtain vs where "fl x (t', (s', w @ ws)) = (fst (f x (t', s')),
        (fst (snd (f x (t', s'))), (snd (snd (f x (t', s'))), (w @ ws) @ vs)))"
      using assms(2) unfolding tracks_trie_def by blast
    then show ?thesis using c ws Inr by (simp add: bindc_def)
  qed
qed

text \<open>A logged run that succeeds gives the plain run.\<close>

lemma tracks_trieD:
  assumes "tracks_trie cl c" "cl (t, (s, w)) = (r, (t', (s', w')))"
  shows "c (t, s) = (r, (t', s'))"
proof -
  obtain ws where "cl (t, (s, w)) =
     (fst (c (t, s)), (fst (snd (c (t, s))), (snd (snd (c (t, s))), w @ ws)))"
    using assms(1) unfolding tracks_trie_def by blast
  with assms(2) show ?thesis by (metis prod.collapse prod.inject)
qed

end
