(* ===== verification/Zk_Trie.thy ===== *)
theory Zk_Trie
  imports Sparse_Merkle_Trie
begin

text \<open>
  The trie with its linked list of leaves: \<open>src/common/zktrie/src/trie.rs\<close>. A \<open>ZkTrie\<close> has the
  sparse Merkle trie as its only field besides the type marker, so its state is that of the
  sparse Merkle trie.
\<close>

type_synonym zk_trie = spare_merkle_trie

section \<open>Operations\<close>

definition zk_new :: "sh256 \<Rightarrow> zk_trie" where
  "zk_new root = smt_new root"

definition zk_top_root_hash :: "zk_trie \<Rightarrow> sh256" where
  "zk_top_root_hash t = smt_root_hash t"

definition zk_sub_root_hash :: "'s database \<Rightarrow> zk_trie \<Rightarrow> 's \<Rightarrow> (zk_error, sh256) result" where
  "zk_sub_root_hash D t s = smt_sub_root_hash D t s"

definition zk_next_free_node :: "'s database \<Rightarrow> zk_trie \<Rightarrow> 's \<Rightarrow> (zk_error, u64) result" where
  "zk_next_free_node D t s = smt_next_free_node D t s"

definition zk_next_free_node_path :: bytes where
  "zk_next_free_node_path = [0, leaf_tag LeafTypeNextFreeNode]"

text \<open>The increment of a \<open>u64\<close> wraps around in the release build.\<close>

definition zk_increment_next_free ::
  "hasher \<Rightarrow> 's database \<Rightarrow> (zk_trie \<times> 's, zk_error, u64) comp" where
  "zk_increment_next_free H D =
     bindc (readc (\<lambda>(t, s). smt_next_free_node D t s)) (\<lambda>found_free_node.
       let next_free_node = found_free_node + 1
       in bindc (smt_set_next_free_node H D next_free_node) (\<lambda>_. returnc next_free_node))"

definition zk_get_next_free_leaf_node :: "'s database \<Rightarrow> zk_trie \<Rightarrow> 's \<Rightarrow> (zk_error, u64) result" where
  "zk_get_next_free_leaf_node D t s = smt_next_free_node D t s"

definition zk_parse_node ::
  "'s database \<Rightarrow> (bytes \<Rightarrow> (zk_error, 'n) result) \<Rightarrow> bytes \<Rightarrow> zk_trie \<Rightarrow> 's \<Rightarrow> (zk_error, 'n) result" where
  "zk_parse_node D f key t s =
     (case smt_get_node D t s key of
        Inr (Some n) \<Rightarrow>
          (case node_value_of n of
             Some data \<Rightarrow> f data
           | None \<Rightarrow> Inl (Fail (ZkTrieParseNodeFail key (node_value_ty (nd_raw n)))))
      | Inr None \<Rightarrow> Inl (Fail (ZKTrieKeyNotFound key))
      | Inl err \<Rightarrow> Inl err)"

definition zk_parse_leaf_at :: "'s database \<Rightarrow> bytes \<Rightarrow> (zk_trie \<times> 's, zk_error, leaf_opening) comp" where
  "zk_parse_leaf_at D key = readc (\<lambda>(t, s). zk_parse_node D leaf_opening_parse key t s)"

definition zk_commit :: "(zk_trie \<times> 's, zk_error, unit) comp" where
  "zk_commit = smt_commit"

definition zk_nearest_keys :: "'s database \<Rightarrow> sh256 \<Rightarrow> (zk_trie \<times> 's, zk_error, key_range) comp" where
  "zk_nearest_keys D hkey = readc (\<lambda>(t, s). db_get_nearest_keys D s (zk_top_root_hash t) hkey)"

definition zk_set_head_and_tail :: "hasher \<Rightarrow> 's database \<Rightarrow> (zk_trie \<times> 's, zk_error, unit) comp" where
  "zk_set_head_and_tail H D =
     bindc (readc (\<lambda>(t, s). zk_get_next_free_leaf_node D t s)) (\<lambda>idx.
     bindc (lift_result (get_leaf_path idx)) (\<lambda>head_path.
     bindc (smt_put H D head_path (leaf_opening_to_bytes leaf_opening_head)) (\<lambda>_.
     bindc (modifyc (apsnd (db_update_index D (lo_hkey leaf_opening_head) flattened_leaf_head))) (\<lambda>_.
     bindc (zk_increment_next_free H D) (\<lambda>_.
     bindc (readc (\<lambda>(t, s). zk_next_free_node D t s)) (\<lambda>tail_index.
     bindc (modifyc (apsnd (db_update_index D (lo_hkey leaf_opening_tail) flattened_leaf_tail))) (\<lambda>_.
     bindc (lift_result (get_leaf_path tail_index)) (\<lambda>tail_path.
     bindc (smt_put H D tail_path (leaf_opening_to_bytes leaf_opening_tail)) (\<lambda>_.
     bindc (zk_increment_next_free H D) (\<lambda>_.
       returnc ()))))))))))"

definition zk_empty :: "hasher \<Rightarrow> 's database \<Rightarrow> ('s, zk_error, zk_trie) comp" where
  "zk_empty H D s =
     (case init_world_state H of
        Inl e \<Rightarrow> (Inl e, s)
      | Inr (empty_nd, _) \<Rightarrow>
          (case zk_set_head_and_tail H D (zk_new (nd_hash empty_nd), s) of
             (Inl e, (t, s')) \<Rightarrow> (Inl e, s')
           | (Inr _, (t, s')) \<Rightarrow> (Inr t, s')))"

text \<open>\<open>remove\<close>: relink the left neighbour, delete the leaf, relink the right neighbour.\<close>

definition zk_remove_found ::
  "hasher \<Rightarrow> 's database \<Rightarrow> sh256 \<Rightarrow> key_range \<Rightarrow> flattened_leaf \<Rightarrow> (zk_trie \<times> 's, zk_error, unit) comp" where
  "zk_remove_found H D hkey nearest_key current_flat_leaf_value =
     bindc (lift_result (key_range_left_path nearest_key)) (\<lambda>left_leaf_path.
     bindc (lift_result (key_range_right_path nearest_key)) (\<lambda>right_leaf_path.
     bindc (zk_parse_leaf_at D left_leaf_path) (\<lambda>prior_left_leaf.
     let new_left_leaf = leaf_opening_new_next_leaf prior_left_leaf (kr_right_index nearest_key) in
     bindc (smt_put H D left_leaf_path (leaf_opening_to_bytes new_left_leaf)) (\<lambda>_.
     bindc (lift_result (get_leaf_path (fl_leaf_index current_flat_leaf_value))) (\<lambda>leaf_path_to_delete.
     bindc (zk_parse_leaf_at D leaf_path_to_delete) (\<lambda>prior_deleted_leaf.
     bindc (modifyc (apsnd (db_remove_index D hkey))) (\<lambda>_.
     bindc (smt_remove H D leaf_path_to_delete) (\<lambda>_.
     bindc (zk_parse_leaf_at D right_leaf_path) (\<lambda>prior_right_leaf.
     let new_right_leaf = leaf_opening_new_prev_leaf prior_right_leaf (kr_left_index nearest_key) in
       smt_put H D right_leaf_path (leaf_opening_to_bytes new_right_leaf))))))))))"

definition zk_remove :: "hasher \<Rightarrow> 's database \<Rightarrow> bytes \<Rightarrow> (zk_trie \<times> 's, zk_error, unit) comp" where
  "zk_remove H D key =
     bindc (lift_result (trie_hash H key)) (\<lambda>hkey.
     bindc (zk_nearest_keys D hkey) (\<lambda>nearest_key.
     case kr_center nearest_key of
       Some current_flat_leaf_value \<Rightarrow> zk_remove_found H D hkey nearest_key current_flat_leaf_value
     | None \<Rightarrow> returnc ()))"

definition zk_read :: "hasher \<Rightarrow> 's database \<Rightarrow> bytes \<Rightarrow> zk_trie \<Rightarrow> 's \<Rightarrow> (zk_error, bytes option) result" where
  "zk_read H D key t s =
     bind_result (trie_hash H key) (\<lambda>hkey.
     bind_result (db_get_nearest_keys D s (zk_top_root_hash t) hkey) (\<lambda>nearest_keys.
       Inr (case kr_center nearest_keys of Some leaf \<Rightarrow> Some (fl_leaf_value leaf) | None \<Rightarrow> None)))"

text \<open>The branch of \<open>put\<close> for a key that is not in the trie.\<close>

definition zk_put_absent ::
  "hasher \<Rightarrow> 's database \<Rightarrow> sh256 \<Rightarrow> key_range \<Rightarrow> bytes \<Rightarrow> (zk_trie \<times> 's, zk_error, unit) comp" where
  "zk_put_absent H D hkey nearest_keys val =
     bindc (lift_result (key_range_left_path nearest_keys)) (\<lambda>left_leaf_path.
     bindc (lift_result (key_range_right_path nearest_keys)) (\<lambda>right_leaf_path.
     bindc (readc (\<lambda>(t, s). smt_next_free_node D t s)) (\<lambda>next_free_node.
     bindc (zk_parse_leaf_at D left_leaf_path) (\<lambda>prior_left_leaf.
     let new_left_leaf = leaf_opening_new_next_leaf prior_left_leaf next_free_node in
     bindc (smt_put H D left_leaf_path (leaf_opening_to_bytes new_left_leaf)) (\<lambda>_.
     bindc (lift_result (get_leaf_path next_free_node)) (\<lambda>leaf_path_to_add.
     bindc (lift_result (trie_hash H val)) (\<lambda>hval.
     bindc (modifyc (apsnd (db_update_index D hkey (flattened_leaf_new next_free_node val)))) (\<lambda>_.
     let new_leaf_value = leaf_opening_new (kr_left_index nearest_keys) (kr_right_index nearest_keys) hkey hval in
     bindc (smt_put H D leaf_path_to_add (leaf_opening_to_bytes new_leaf_value)) (\<lambda>_.
     bindc (zk_parse_leaf_at D right_leaf_path) (\<lambda>prior_right_leaf.
     let new_right_leaf = leaf_opening_new_prev_leaf prior_right_leaf next_free_node in
     bindc (smt_put H D right_leaf_path (leaf_opening_to_bytes new_right_leaf)) (\<lambda>_.
     bindc (zk_increment_next_free H D) (\<lambda>_.
       returnc ()))))))))))))"

text \<open>The branch of \<open>put\<close> for a key the trie holds.\<close>

definition zk_put_present ::
  "hasher \<Rightarrow> 's database \<Rightarrow> sh256 \<Rightarrow> flattened_leaf \<Rightarrow> bytes \<Rightarrow> (zk_trie \<times> 's, zk_error, unit) comp" where
  "zk_put_present H D hkey current_flat_leaf_value val =
     bindc (lift_result (flattened_leaf_path current_flat_leaf_value)) (\<lambda>leaf_path_to_update.
     bindc (lift_result (trie_hash H val)) (\<lambda>hval.
     bindc (modifyc (apsnd (db_update_index D hkey
              (flattened_leaf_new (fl_leaf_index current_flat_leaf_value) val)))) (\<lambda>_.
     bindc (zk_parse_leaf_at D leaf_path_to_update) (\<lambda>prior_updated_leaf.
     let new_updated_leaf = leaf_opening_new_hval prior_updated_leaf hval in
       smt_put H D leaf_path_to_update (leaf_opening_to_bytes new_updated_leaf)))))"

definition zk_put :: "hasher \<Rightarrow> 's database \<Rightarrow> bytes \<Rightarrow> bytes \<Rightarrow> (zk_trie \<times> 's, zk_error, unit) comp" where
  "zk_put H D key val =
     bindc (lift_result (trie_hash H key)) (\<lambda>hkey.
     bindc (zk_nearest_keys D hkey) (\<lambda>nearest_keys.
     bindc (readc (\<lambda>(t, s). zk_sub_root_hash D t s)) (\<lambda>_.
     bindc (case kr_center nearest_keys of
              None \<Rightarrow> zk_put_absent H D hkey nearest_keys val
            | Some current_flat_leaf_value \<Rightarrow> zk_put_present H D hkey current_flat_leaf_value val) (\<lambda>_.
     bindc (readc (\<lambda>(t, s). zk_sub_root_hash D t s)) (\<lambda>_.
       returnc ())))))"

section \<open>Logged runs\<close>

lemma log_db_get_node_loop:
  "smt_get_node_loop (log_db D) (s, w) p i h = smt_get_node_loop D s p i h"
proof (induction "42 - i" arbitrary: i h rule: less_induct)
  case less
  have IH: "i < 42 \<Longrightarrow> smt_get_node_loop (log_db D) (s, w) p (Suc i) c = smt_get_node_loop D s p (Suc i) c" for c
    by (rule less) simp
  show ?case
    by (subst (1 2) smt_get_node_loop.simps)
      (auto simp: zk_trie_depth_def IH bind_result_def split: option.split node_value.split sum.split)
qed

lemma log_db_reads [simp]:
  "smt_get_node (log_db D) t (s, w) p = smt_get_node D t s p"
  "smt_root_branch (log_db D) t (s, w) = smt_root_branch D t s"
  by (simp_all add: smt_get_node_def log_db_get_node_loop smt_root_branch_def smt_root_node_def)

lemma log_db_trie_reads [simp]:
  "smt_next_free_node (log_db D) t (s, w) = smt_next_free_node D t s"
  "smt_sub_root_hash (log_db D) t (s, w) = smt_sub_root_hash D t s"
  "zk_parse_node (log_db D) f p t (s, w) = zk_parse_node D f p t s"
  by (simp_all add: smt_next_free_node_def smt_sub_root_hash_def zk_parse_node_def)

lemma tracks_smt_put [tracking]: "tracks_trie (smt_put H (log_db D) p v) (smt_put H D p v)"
  unfolding smt_put_def by (intro tracking) auto

lemma tracks_smt_remove [tracking]: "tracks_trie (smt_remove H (log_db D) p) (smt_remove H D p)"
  unfolding smt_remove_def by (intro tracking) auto

lemma tracks_set_next_free [tracking]:
  "tracks_trie (smt_set_next_free_node H (log_db D) k) (smt_set_next_free_node H D k)"
  unfolding smt_set_next_free_node_def by (intro tracking) auto

lemma tracks_increment [tracking]:
  "tracks_trie (zk_increment_next_free H (log_db D)) (zk_increment_next_free H D)"
  unfolding zk_increment_next_free_def Let_def by (intro tracking) auto

lemma tracks_parse_leaf_at [tracking]: "tracks_trie (zk_parse_leaf_at (log_db D) p) (zk_parse_leaf_at D p)"
  unfolding zk_parse_leaf_at_def by (intro tracking) auto

lemma tracks_nearest_keys [tracking]: "tracks_trie (zk_nearest_keys (log_db D) k) (zk_nearest_keys D k)"
  unfolding zk_nearest_keys_def by (intro tracking) auto

lemma tracks_zk_put_absent [tracking]:
  "tracks_trie (zk_put_absent H (log_db D) hk kr v) (zk_put_absent H D hk kr v)"
  unfolding zk_put_absent_def Let_def by (intro tracking) auto

lemma tracks_zk_put_present [tracking]:
  "tracks_trie (zk_put_present H (log_db D) hk l v) (zk_put_present H D hk l v)"
  unfolding zk_put_present_def Let_def by (intro tracking) auto

lemma tracks_zk_put [tracking]: "tracks_trie (zk_put H (log_db D) k v) (zk_put H D k v)"
  unfolding zk_put_def
  by (intro tracks_trie_bind tracks_trie_lift tracks_nearest_keys tracks_trie_read tracks_trie_return)
    (auto simp: zk_sub_root_hash_def split: option.split intro: tracking)

lemma tracks_zk_remove [tracking]: "tracks_trie (zk_remove H (log_db D) k) (zk_remove H D k)"
proof -
  have "tracks_trie (zk_remove_found H (log_db D) hk kr l) (zk_remove_found H D hk kr l)" for hk kr l
    unfolding zk_remove_found_def Let_def by (intro tracking) auto
  then show ?thesis
    unfolding zk_remove_def
    by (intro tracks_trie_bind tracks_trie_lift tracks_nearest_keys) (auto split: option.split intro: tracking)
qed

lemma tracks_set_head_and_tail [tracking]:
  "tracks_trie (zk_set_head_and_tail H (log_db D)) (zk_set_head_and_tail H D)"
  unfolding zk_set_head_and_tail_def zk_get_next_free_leaf_node_def zk_next_free_node_def
  by (intro tracking) auto

end
