(* ===== verification/Zk_Trie_Runs.thy ===== *)
theory Zk_Trie_Runs
  imports Zk_Trie
begin

text \<open>
  What the operations of \<open>src/common/zktrie/src/trie.rs\<close> do to a trie of which the next free index
  and some leaves are known: \<open>runs\<close> is the judgement, with a rule per operation; the theory ends
  with the outcomes of \<open>put\<close> and \<open>remove\<close> on a store with the contract \<open>node_db\<close>.
\<close>

section \<open>What the operations do to a known trie\<close>

text \<open>
  The log only grows, whatever the operation does. (A run that fails in the middle has still
  written what it wrote.)
\<close>

definition grows :: "('t \<times> 's \<times> node list, 'e, 'a) comp \<Rightarrow> bool" where
  "grows cl \<longleftrightarrow> (\<forall>t s w. set w \<subseteq> set (snd (snd (snd (cl (t, (s, w)))))))"

named_theorems growing \<open>the log of written nodes grows\<close>

lemma growsD: "grows cl \<Longrightarrow> cl (t, (s, w)) = (r, (t', (s', w'))) \<Longrightarrow> set w \<subseteq> set w'"
  by (metis grows_def snd_conv)

lemma tracks_trie_grows: "tracks_trie cl c \<Longrightarrow> grows cl"
  unfolding grows_def
proof (intro allI)
  fix t s w assume "tracks_trie cl c"
  then obtain ws where "cl (t, (s, w)) = (fst (c (t, s)), (fst (snd (c (t, s))), (snd (snd (c (t, s))), w @ ws)))"
    unfolding tracks_trie_def by blast
  then show "set w \<subseteq> set (snd (snd (snd (cl (t, (s, w))))))" by simp
qed

lemma grows_basic [growing]:
  "grows (lift_result r)" "grows (returnc x)" "grows (readc f)"
  "grows (modifyc (apsnd (db_update_index (log_db D) k v)))"
  "grows (modifyc (apsnd (db_remove_index (log_db D) k)))"
  "grows (smt_put H (log_db D) p u)" "grows (smt_remove H (log_db D) p)"
  "grows (zk_parse_leaf_at (log_db D) p)" "grows (zk_increment_next_free H (log_db D))"
  by (simp_all add: grows_def tracks_smt_put [THEN tracks_trie_grows, unfolded grows_def]
      tracks_smt_remove [THEN tracks_trie_grows, unfolded grows_def]
      tracks_parse_leaf_at [THEN tracks_trie_grows, unfolded grows_def]
      tracks_increment [THEN tracks_trie_grows, unfolded grows_def])

lemma grows_bind [growing]:
  assumes "grows c" and "\<And>x. grows (f x)"
  shows "grows (bindc c f)"
  unfolding grows_def
proof (intro allI)
  fix t s w
  obtain r t' s' w' where c: "c (t, (s, w)) = (r, (t', (s', w')))" by (metis prod.exhaust)
  show "set w \<subseteq> set (snd (snd (snd (bindc c f (t, (s, w))))))"
  proof (cases r)
    case (Inl e)
    then show ?thesis using c growsD [OF assms(1) c] by (simp add: bindc_def)
  next
    case (Inr x)
    obtain q t2 s2 w2 where f: "f x (t', (s', w')) = (q, (t2, (s2, w2)))" by (metis prod.exhaust)
    show ?thesis using c Inr growsD [OF assms(1) c] growsD [OF assms(2) f] f by (simp add: bindc_def)
  qed
qed

text \<open>
  From a store with nodes of \<open>U\<close> that presents the trie \<open>a\<close> (next free index and known leaves)
  and holds the nodes \<open>E\<close>, a run that writes nodes of \<open>U\<close> returns \<open>r\<close> and leaves the trie \<open>b\<close>.
\<close>

type_synonym trie_view = "u64 \<times> (u64 \<rightharpoonup> bytes option)"

definition presents ::
  "('s \<Rightarrow> sh256 \<rightharpoonup> node) \<Rightarrow> node set \<Rightarrow> (sh256 \<rightharpoonup> node) \<Rightarrow> trie_view \<Rightarrow> zk_trie \<Rightarrow> 's \<Rightarrow> bool" where
  "presents view U E a t s \<longleftrightarrow> stored_in U (view s) \<and> E \<subseteq>\<^sub>m view s \<and>
     trie_rep (view s) (smt_root_hash t) (fst a) (snd a)"

text \<open>
  The judgement itself, for any assertions about trie and store: a logged run from a state with
  \<open>P\<close> that writes nodes of \<open>U\<close> only returns \<open>x\<close> and ends in a state with \<open>Q\<close>.
\<close>

definition triple ::
  "node set \<Rightarrow> ('t \<Rightarrow> 's \<Rightarrow> bool) \<Rightarrow> ('t \<times> 's \<times> node list, zk_error, 'a) comp \<Rightarrow> 'a \<Rightarrow> ('t \<Rightarrow> 's \<Rightarrow> bool) \<Rightarrow> bool" where
  "triple U P cl x Q \<longleftrightarrow> (\<forall>t s w r t' s' w'.
     P t s \<longrightarrow> cl (t, (s, w)) = (r, (t', (s', w'))) \<longrightarrow> set w' \<subseteq> U \<longrightarrow> r = Inr x \<and> Q t' s')"

abbreviation runs ::
  "('s \<Rightarrow> sh256 \<rightharpoonup> node) \<Rightarrow> node set \<Rightarrow> (sh256 \<rightharpoonup> node) \<Rightarrow> (zk_trie \<times> 's \<times> node list, zk_error, 'a) comp \<Rightarrow>
   trie_view \<Rightarrow> 'a \<Rightarrow> trie_view \<Rightarrow> bool" where
  "runs view U E cl a x b \<equiv> triple U (presents view U E a) cl x (presents view U E b)"

lemma tripleI:
  assumes "\<And>t s w r t' s' w'. P t s \<Longrightarrow> cl (t, (s, w)) = (r, (t', (s', w'))) \<Longrightarrow> set w' \<subseteq> U \<Longrightarrow> r = Inr x \<and> Q t' s'"
  shows "triple U P cl x Q"
  unfolding triple_def using assms by blast

lemma tripleD:
  assumes "triple U P cl x Q" "P t s" "cl (t, (s, w)) = (r, (t', (s', w')))" "set w' \<subseteq> U"
  shows "r = Inr x" "Q t' s'"
  using assms unfolding triple_def by blast+

lemma triple_bind:
  assumes c: "triple U P c x Q" and f: "triple U Q (f x) y R" and g: "\<And>z. grows (f z)"
  shows "triple U P (bindc c f) y R"
proof (rule tripleI)
  fix t s w r t' s' w'
  assume p: "P t s" "bindc c f (t, (s, w)) = (r, (t', (s', w')))" "set w' \<subseteq> U"
  obtain q t1 s1 w1 where q: "c (t, (s, w)) = (q, (t1, (s1, w1)))" by (metis prod.exhaust)
  have "set w1 \<subseteq> U"
  proof (cases q)
    case (Inl e)
    then show ?thesis using p(2,3) q by (simp add: bindc_def)
  next
    case (Inr z)
    then have "f z (t1, (s1, w1)) = (r, (t', (s', w')))" using p(2) q by (simp add: bindc_def)
    then show ?thesis using growsD [OF g] p(3) by blast
  qed
  note 1 = tripleD [OF c p(1) q this]
  have "f x (t1, (s1, w1)) = (r, (t', (s', w')))" using p(2) q 1(1) by (simp add: bindc_def)
  then show "r = Inr y \<and> R t' s'" using tripleD [OF f 1(2) _ p(3)] by blast
qed

lemma triple_basic:
  "triple U P (lift_result (Inr x)) x P"
  "triple U P (returnc x) x P"
  by (auto intro!: tripleI)

lemma triple_lift: "r = Inr x \<Longrightarrow> triple U P (lift_result r) x P"
  by (simp add: triple_basic)

lemma triple_read: "(\<And>t s w. P t s \<Longrightarrow> f (t, (s, w)) = Inr x) \<Longrightarrow> triple U P (readc f) x P"
  by (auto intro!: tripleI)

context node_db begin

lemma runs_index:
  "runs view U E (modifyc (apsnd (db_update_index (log_db D) k v))) a () a"
  "runs view U E (modifyc (apsnd (db_remove_index (log_db D) k))) a () a"
  by (auto intro!: tripleI simp: presents_def update_index remove_index)

lemma presents_root:
  assumes "presents view U E a t s"
  obtains n br where "view s (smt_root_hash t) = Some n" "nd_raw n = Branch br" "ucast (br_left br) = fst a"
    "smt_root_branch D t s = Inr br"
proof -
  obtain br where br: "branch_at (view s) (smt_root_hash t) = Some br" "ucast (br_left br) = fst a"
    using assms by (auto simp: presents_def trie_rep_def)
  from br(1) obtain n where n: "view s (smt_root_hash t) = Some n" "node_value_branch (nd_raw n) = Some br"
    by (auto simp: branch_at_def split: option.splits)
  then have "nd_raw n = Branch br" by (cases "nd_raw n") auto
  with that n br show thesis by (simp add: smt_root_branch_def smt_root_node_def get_node)
qed

lemma presents_next_free: "presents view U E a t s \<Longrightarrow> smt_next_free_node D t s = Inr (fst a)"
  by (elim presents_root) (simp add: smt_next_free_node_def parse_node_index_word_bytes)

lemma presents_sub_root:
  "presents view U E a t s \<Longrightarrow> \<exists>h. smt_sub_root_hash D t s = Inr h"
  by (elim presents_root) (simp add: smt_sub_root_hash_def)

lemma runs_next_free: "runs view U E (readc (\<lambda>(t, s). smt_next_free_node (log_db D) t s)) a (fst a) a"
  by (rule triple_read) (auto simp: presents_next_free)

lemma presents_leaf:
  assumes "presents view U E a t s" "snd a i = Some c"
  shows "smt_get_node D t s (leaf_path i) =
      (case c of None \<Rightarrow> Inr None
       | Some v \<Rightarrow> Inr (leaf_at (view s) (smt_root_hash t) i))"
    and "c = Some v \<Longrightarrow> \<exists>n. leaf_at (view s) (smt_root_hash t) i = Some n \<and> nd_raw n = mk_leaf [22] v"
proof -
  obtain n where n: "unat i < 2 ^ 40" "leaf_at (view s) (smt_root_hash t) i = Some n"
    "nd_raw n = content_raw c" "slot [22] n"
    using assms by (auto simp: presents_def elim: trie_repD)
  have "smt_get_node D t s (leaf_path i) = Inr (if nd_raw n = EmptyLeaf then None else Some n)"
    unfolding smt_get_node_def
    by (rule get_node_loop_walk [where bs = "1 # leaf_bits i" and rest = "[22]"])
      (use n in \<open>auto simp: leaf_at_def leaf_path_def\<close>)
  then show "smt_get_node D t s (leaf_path i) =
      (case c of None \<Rightarrow> Inr None | Some v \<Rightarrow> Inr (leaf_at (view s) (smt_root_hash t) i))"
    using n by (cases c) auto
  show "c = Some v \<Longrightarrow> \<exists>n. leaf_at (view s) (smt_root_hash t) i = Some n \<and> nd_raw n = mk_leaf [22] v"
    using n by simp
qed

text \<open>Reading a leaf takes its next link from the bytes of its previous link.\<close>

lemma presents_parse_leaf:
  assumes p: "presents view U E a t s" and "snd a i = Some (Some (leaf_opening_to_bytes l))"
  shows "zk_parse_node D leaf_opening_parse (leaf_path i) t s = Inr (l\<lparr>lo_next_leaf := lo_prev_leaf l\<rparr>)"
proof -
  obtain n where n: "leaf_at (view s) (smt_root_hash t) i = Some n"
    "nd_raw n = mk_leaf [22] (leaf_opening_to_bytes l)" using presents_leaf(2) [OF assms] by auto
  have g: "smt_get_node D t s (leaf_path i) = Inr (Some n)"
    using presents_leaf(1) [OF assms] n(1) by simp
  then show ?thesis
    by (simp add: zk_parse_node_def node_value_of_def n(2) leaf_opening_parse_to_bytes)
qed

lemma runs_parse_leaf:
  "snd a i = Some (Some (leaf_opening_to_bytes l)) \<Longrightarrow>
   runs view U E (zk_parse_leaf_at (log_db D) (leaf_path i)) a (l\<lparr>lo_next_leaf := lo_prev_leaf l\<rparr>) a"
  unfolding zk_parse_leaf_at_def by (rule triple_read) (simp add: presents_parse_leaf)

lemma runs_parse_leaf_absent:
  assumes "presents view U E a t s" "snd a i = Some None"
  shows "zk_parse_node D leaf_opening_parse (leaf_path i) t s = Inl (Fail (ZKTrieKeyNotFound (leaf_path i)))"
  using presents_leaf(1) [OF assms] by (simp add: zk_parse_node_def)

end

context trie_db begin

lemma runs_put:
  assumes inj: "inj_on nd_hash U" and i: "snd a i = Some c" and v: "32 dvd length v" "v \<noteq> []"
  shows "runs view U E (smt_put H (log_db D) (leaf_path i) v) a () (fst a, (snd a)(i \<mapsto> Some v))"
proof (rule tripleI)
  fix t s w r t' s' w'
  assume p: "presents view U E a t s" "smt_put H (log_db D) (leaf_path i) v (t, (s, w)) = (r, (t', (s', w')))"
    "set w' \<subseteq> U"
  obtain n where n: "unat i < 2 ^ 40" "leaf_at (view s) (smt_root_hash t) i = Some n"
    "nd_raw n = content_raw c" "slot [22] n"
    using p(1) i by (auto simp: presents_def elim: trie_repD)
  have wk: "walk (view s) (smt_root_hash t) (1 # leaf_bits i) = Some n" using n(2) by (simp add: leaf_at_def)
  have dir: "directions (1 # leaf_bits i)" using set_leaf_bits [of i] by auto
  have path: "drop 0 (leaf_path i) = (1 # leaf_bits i) @ [22]" by (simp add: leaf_path_def)
  from add_leaf_walk [OF wk n(4) path _ _ _ dir v, of w] obtain m s1 ws where m:
    "smt_add_leaf H (log_db D) 0 (smt_root_hash t) (leaf_path i) v (s, w) = (Inr m, (s1, w @ ws))"
    "\<And>U. inj_on nd_hash U \<Longrightarrow> stored_in U (view s) \<Longrightarrow> set ws \<subseteq> U \<Longrightarrow> stored_in U (view s1) \<and>
      replaces (view s) (smt_root_hash t) (1 # leaf_bits i) \<lparr>nd_raw = mk_leaf [22] v, nd_hash = value_hash H v\<rparr>
        (view s1) (nd_hash m)"
    by (auto simp del: walk.simps path_hash.simps)
  have run: "r = Inr ()" "t' = t\<lparr>smt_root_hash := nd_hash m\<rparr>" "s' = s1" "w' = w @ ws"
    using p(2) m(1) by (auto simp: smt_put_def on_db_def bindc_def)
  have st: "stored_in U (view s1)"
    "replaces (view s) (smt_root_hash t) (1 # leaf_bits i) \<lparr>nd_raw = mk_leaf [22] v, nd_hash = value_hash H v\<rparr>
        (view s1) (nd_hash m)"
    using m(2) [OF inj] p(1,3) run(4) by (auto simp: presents_def)
  have "trie_rep (view s1) (nd_hash m) (fst a) ((snd a)(i \<mapsto> Some v))"
    using p(1) by (intro trie_rep_replaces [OF _ n(1) st(2)]) (auto simp: presents_def)
  moreover have "E \<subseteq>\<^sub>m view s1" using p(1) st(2) by (auto simp: presents_def replaces_def intro: map_le_trans)
  ultimately show "r = Inr () \<and> presents view U E (fst a, (snd a)(i \<mapsto> Some v)) t' s'"
    using run st(1) by (simp add: presents_def)
qed

lemma runs_remove:
  assumes inj: "inj_on nd_hash U" and E: "E 0 = Some (empty_node H 0)" and i: "snd a i = Some c"
  shows "runs view U E (smt_remove H (log_db D) (leaf_path i)) a () (fst a, (snd a)(i \<mapsto> None))"
proof (rule tripleI)
  fix t s w r t' s' w'
  assume p: "presents view U E a t s" "smt_remove H (log_db D) (leaf_path i) (t, (s, w)) = (r, (t', (s', w')))"
    "set w' \<subseteq> U"
  have empty: "view s 0 = Some (empty_node H 0)" using p(1) E by (force simp: presents_def map_le_def dom_def)
  obtain n where n: "unat i < 2 ^ 40" "leaf_at (view s) (smt_root_hash t) i = Some n"
    "nd_raw n = content_raw c" "slot [22] n"
    using p(1) i by (auto simp: presents_def elim: trie_repD)
  have wk: "walk (view s) (smt_root_hash t) (1 # leaf_bits i) = Some n" using n(2) by (simp add: leaf_at_def)
  have dir: "directions (1 # leaf_bits i)" using set_leaf_bits [of i] by auto
  have path: "drop 0 (leaf_path i) = (1 # leaf_bits i) @ [22]" by (simp add: leaf_path_def)
  from remove_leaf_walk [OF wk n(4) path _ dir empty, of w] obtain m s1 ws where m:
    "smt_remove_leaf H (log_db D) 0 (smt_root_hash t) (leaf_path i) (s, w) = (Inr m, (s1, w @ ws))"
    "\<And>U. inj_on nd_hash U \<Longrightarrow> stored_in U (view s) \<Longrightarrow> set ws \<subseteq> U \<Longrightarrow> stored_in U (view s1) \<and>
      replaces (view s) (smt_root_hash t) (1 # leaf_bits i) (empty_node H 0) (view s1) (nd_hash m)"
    by (auto simp del: walk.simps path_hash.simps)
  have run: "r = Inr ()" "t' = t\<lparr>smt_root_hash := nd_hash m\<rparr>" "s' = s1" "w' = w @ ws"
    using p(2) m(1) by (auto simp: smt_remove_def on_db_def bindc_def)
  have st: "stored_in U (view s1)"
    "replaces (view s) (smt_root_hash t) (1 # leaf_bits i) (empty_node H 0) (view s1) (nd_hash m)"
    using m(2) [OF inj] p(1,3) run(4) by (auto simp: presents_def)
  have "trie_rep (view s1) (nd_hash m) (fst a) ((snd a)(i \<mapsto> None))"
    using p(1) by (intro trie_rep_replaces [OF _ n(1) st(2)]) (auto simp: presents_def empty_node_def)
  moreover have "E \<subseteq>\<^sub>m view s1" using p(1) st(2) by (auto simp: presents_def replaces_def intro: map_le_trans)
  ultimately show "r = Inr () \<and> presents view U E (fst a, (snd a)(i \<mapsto> None)) t' s'"
    using run st(1) by (simp add: presents_def)
qed

end



lemma trie_rep_root:
  assumes "trie_rep V root nf L" "branch_at V' root' = Some br" "ucast (br_left br) = nf'"
    and "\<And>i n. leaf_at V root i = Some n \<Longrightarrow> leaf_at V' root' i = Some n"
  shows "trie_rep V' root' nf' L"
  using assms unfolding trie_rep_def by metis

context trie_db begin

lemma runs_increment:
  assumes inj: "inj_on nd_hash U"
  shows "runs view U E (zk_increment_next_free H (log_db D)) a (fst a + 1) (fst a + 1, snd a)"
proof (rule tripleI)
  fix t s w r t' s' w'
  assume p: "presents view U E a t s" "zk_increment_next_free H (log_db D) (t, (s, w)) = (r, (t', (s', w')))"
    "set w' \<subseteq> U"
  obtain n br where br: "view s (smt_root_hash t) = Some n" "nd_raw n = Branch br" "ucast (br_left br) = fst a"
    "smt_root_branch D t s = Inr br" using p(1) by (rule presents_root)
  let ?n = "\<lparr>nd_raw = mk_branch (ucast (fst a + 1)) (br_right br), nd_hash = branch_hash H (ucast (fst a + 1)) (br_right br)\<rparr>"
  obtain s1 where s1: "db_add (log_db D) ?n (s, w) = (Inr ?n, (s1, w @ [?n]))" using db_add_log_total by blast
  have run: "r = Inr (fst a + 1)" "t' = t\<lparr>smt_root_hash := nd_hash ?n\<rparr>" "s' = s1" "w' = w @ [?n]"
    using p(2) br(4) s1
    by (auto simp: zk_increment_next_free_def presents_next_free [OF p(1)] smt_set_next_free_node_def
        node_top_node_ok on_db_def bindc_def db_add_def Let_def)
  have n: "?n \<in> U" and st: "stored_in U (view s)" using p(1,3) run(4) by (auto simp: presents_def)
  note upd = db_add_log_view [OF s1 inj st n]
  have walk: "leaf_at (view s1) (nd_hash ?n) i = Some m" if "leaf_at (view s) (smt_root_hash t) i = Some m" for i m
    using that br(1,2) walk_mono [OF upd(3), of "br_right br" "leaf_bits i" m] by (simp add: leaf_at_def upd(1))
  have "trie_rep (view s1) (nd_hash ?n) (fst a + 1) (snd a)"
    by (rule trie_rep_root [of "view s" "smt_root_hash t" "fst a", OF _ _ _ walk])
      (use p(1) in \<open>auto simp: presents_def branch_at_def upd(1)\<close>)
  moreover have "E \<subseteq>\<^sub>m view s1" using p(1) upd(3) by (auto simp: presents_def intro: map_le_trans)
  ultimately show "r = Inr (fst a + 1) \<and> presents view U E (fst a + 1, snd a) t' s'"
    using run upd(2) by (simp add: presents_def)
qed

text \<open>
  \<open>put\<close> of a new key: the left neighbour, the new leaf and the right neighbour are written and
  the counter moves. The right neighbour is read back after the other writes, so its next link
  becomes its old previous link.
\<close>

lemma runs_put_absent:
  fixes ll rl :: leaf_opening
  assumes inj: "inj_on nd_hash U"
    and left: "L (kr_left_index kr) = Some (Some (leaf_opening_to_bytes ll))"
    and right: "L (kr_right_index kr) = Some (Some (leaf_opening_to_bytes rl))"
    and free: "L nf = Some c"
    and ne: "kr_left_index kr \<noteq> nf" "kr_right_index kr \<noteq> nf" "kr_left_index kr \<noteq> kr_right_index kr"
    and dom: "\<forall>i\<in>dom L. unat i < 2 ^ 40"
    and hv: "trie_hash H val = Inr hval"
  shows "runs view U E (zk_put_absent H (log_db D) hkey kr val) (nf, L) ()
    (nf + 1, L(kr_left_index kr \<mapsto> Some (leaf_opening_to_bytes (ll\<lparr>lo_next_leaf := nf\<rparr>)),
               nf \<mapsto> Some (leaf_opening_to_bytes (leaf_opening_new (kr_left_index kr) (kr_right_index kr) hkey hval)),
               kr_right_index kr \<mapsto> Some (leaf_opening_to_bytes (rl\<lparr>lo_next_leaf := lo_prev_leaf rl, lo_prev_leaf := nf\<rparr>))))"
proof -
  have paths: "get_leaf_path (kr_left_index kr) = (Inr (leaf_path (kr_left_index kr)) :: (zk_error, bytes) result)"
    "get_leaf_path (kr_right_index kr) = (Inr (leaf_path (kr_right_index kr)) :: (zk_error, bytes) result)"
    "get_leaf_path nf = (Inr (leaf_path nf) :: (zk_error, bytes) result)"
    using left right free by (auto intro!: get_leaf_path_eq dom [rule_format])
  have len: "leaf_opening_to_bytes l \<noteq> []" "32 dvd length (leaf_opening_to_bytes l)" for l
    using length_leaf_opening_to_bytes [of l] by fastforce+
  let ?l = "leaf_opening_to_bytes (leaf_opening_new_next_leaf (ll\<lparr>lo_next_leaf := lo_prev_leaf ll\<rparr>) nf)"
  let ?n = "leaf_opening_to_bytes (leaf_opening_new (kr_left_index kr) (kr_right_index kr) hkey hval)"
  let ?r = "leaf_opening_to_bytes (leaf_opening_new_prev_leaf (rl\<lparr>lo_next_leaf := lo_prev_leaf rl\<rparr>) nf)"
  let ?L1 = "L(kr_left_index kr \<mapsto> Some ?l)"
  let ?L2 = "?L1(nf \<mapsto> Some ?n)"
  let ?L3 = "?L2(kr_right_index kr \<mapsto> Some ?r)"
  note put = runs_put [OF inj _ len(2,1), of "(n, M)" for n M, unfolded fst_conv snd_conv]
  note parse = runs_parse_leaf [of "(n, M)" for n M, unfolded fst_conv snd_conv]
  note free_ok = runs_next_free [of U E "(nf, L)", unfolded fst_conv]
  note increment = runs_increment [OF inj, of E "(nf, ?L3)", unfolded fst_conv snd_conv]
  have at: "?L1 nf = Some c" "?L2 (kr_right_index kr) = Some (Some (leaf_opening_to_bytes rl))"
    using free right ne by simp_all
  have "runs view U E (zk_put_absent H (log_db D) hkey kr val) (nf, L) () (nf + 1, ?L3)"
    unfolding zk_put_absent_def key_range_left_path_def key_range_right_path_def Let_def
    by (rule triple_bind [OF triple_lift [OF paths(1)]], rule triple_bind [OF triple_lift [OF paths(2)]],
        rule triple_bind [OF free_ok], rule triple_bind, rule parse, rule left, rule triple_bind, rule put, rule left,
        rule triple_bind [OF triple_lift [OF paths(3)]], rule triple_bind [OF triple_lift [OF hv]],
        rule triple_bind [OF runs_index(1)], rule triple_bind, rule put, rule at(1),
        rule triple_bind, rule parse, rule at(2), rule triple_bind, rule put, rule at(2),
        rule triple_bind [OF increment], rule triple_basic(2))
      (intro growing)+
  then show ?thesis by (simp add: leaf_opening_new_prev_leaf_def leaf_opening_new_next_leaf_def)
qed

text \<open>\<open>put\<close> of a key the trie holds: only its leaf is written, with its next link lost.\<close>

lemma runs_put_present:
  assumes inj: "inj_on nd_hash U"
    and leaf: "L (fl_leaf_index fl) = Some (Some (leaf_opening_to_bytes l))"
    and dom: "unat (fl_leaf_index fl) < 2 ^ 40"
    and hv: "trie_hash H val = Inr hval"
  shows "runs view U E (zk_put_present H (log_db D) hkey fl val) (nf, L) ()
    (nf, L(fl_leaf_index fl \<mapsto> Some (leaf_opening_to_bytes (l\<lparr>lo_next_leaf := lo_prev_leaf l, lo_hval := hval\<rparr>))))"
proof -
  note path = get_leaf_path_eq [OF dom]
  have len: "leaf_opening_to_bytes l \<noteq> []" "32 dvd length (leaf_opening_to_bytes l)" for l
    using length_leaf_opening_to_bytes [of l] by fastforce+
  note put = runs_put [OF inj _ len(2,1), of "(n, M)" for n M, unfolded fst_conv snd_conv]
  note parse = runs_parse_leaf [of "(n, M)" for n M, unfolded fst_conv snd_conv]
  have "runs view U E (zk_put_present H (log_db D) hkey fl val) (nf, L) ()
      (nf, L(fl_leaf_index fl \<mapsto> Some (leaf_opening_to_bytes (leaf_opening_new_hval (l\<lparr>lo_next_leaf := lo_prev_leaf l\<rparr>) hval))))"
    unfolding zk_put_present_def flattened_leaf_path_def Let_def
    by (rule triple_bind [OF triple_lift [OF path]], rule triple_bind [OF triple_lift [OF hv]],
        rule triple_bind [OF runs_index(1)], rule triple_bind, rule parse, rule leaf, rule put, rule leaf)
      (intro growing)+
  then show ?thesis by (simp add: leaf_opening_new_hval_def)
qed

text \<open>
  \<open>remove\<close>: the left neighbour points to the right one, the leaf is emptied, the right neighbour
  points back, with its next link lost.
\<close>

lemma runs_remove_found:
  assumes inj: "inj_on nd_hash U" and E: "E 0 = Some (empty_node H 0)"
    and left: "L (kr_left_index kr) = Some (Some (leaf_opening_to_bytes ll))"
    and leaf: "L (fl_leaf_index fl) = Some (Some (leaf_opening_to_bytes l))"
    and right: "L (kr_right_index kr) = Some (Some (leaf_opening_to_bytes rl))"
    and ne: "kr_left_index kr \<noteq> fl_leaf_index fl" "kr_right_index kr \<noteq> fl_leaf_index fl"
      "kr_left_index kr \<noteq> kr_right_index kr"
    and dom: "\<forall>i\<in>dom L. unat i < 2 ^ 40"
  shows "runs view U E (zk_remove_found H (log_db D) hkey kr fl) (nf, L) ()
    (nf, L(kr_left_index kr \<mapsto> Some (leaf_opening_to_bytes (ll\<lparr>lo_next_leaf := kr_right_index kr\<rparr>)),
           fl_leaf_index fl \<mapsto> None,
           kr_right_index kr \<mapsto> Some (leaf_opening_to_bytes
             (rl\<lparr>lo_next_leaf := lo_prev_leaf rl, lo_prev_leaf := kr_left_index kr\<rparr>))))"
proof -
  have paths: "get_leaf_path (kr_left_index kr) = (Inr (leaf_path (kr_left_index kr)) :: (zk_error, bytes) result)"
    "get_leaf_path (kr_right_index kr) = (Inr (leaf_path (kr_right_index kr)) :: (zk_error, bytes) result)"
    "get_leaf_path (fl_leaf_index fl) = (Inr (leaf_path (fl_leaf_index fl)) :: (zk_error, bytes) result)"
    using left right leaf by (auto intro!: get_leaf_path_eq dom [rule_format])
  have len: "leaf_opening_to_bytes l \<noteq> []" "32 dvd length (leaf_opening_to_bytes l)" for l
    using length_leaf_opening_to_bytes [of l] by fastforce+
  let ?l = "leaf_opening_to_bytes (leaf_opening_new_next_leaf (ll\<lparr>lo_next_leaf := lo_prev_leaf ll\<rparr>) (kr_right_index kr))"
  let ?r = "leaf_opening_to_bytes (leaf_opening_new_prev_leaf (rl\<lparr>lo_next_leaf := lo_prev_leaf rl\<rparr>) (kr_left_index kr))"
  let ?L1 = "L(kr_left_index kr \<mapsto> Some ?l)"
  let ?L2 = "?L1(fl_leaf_index fl \<mapsto> None)"
  note put = runs_put [OF inj _ len(2,1), of "(n, M)" for n M, unfolded fst_conv snd_conv]
  note parse = runs_parse_leaf [of "(n, M)" for n M, unfolded fst_conv snd_conv]
  note rem = runs_remove [of U E, OF inj E, of "(n, M)" for n M, unfolded fst_conv snd_conv]
  have at: "?L1 (fl_leaf_index fl) = Some (Some (leaf_opening_to_bytes l))"
    "?L2 (kr_right_index kr) = Some (Some (leaf_opening_to_bytes rl))"
    using leaf right ne by simp_all
  have "runs view U E (zk_remove_found H (log_db D) hkey kr fl) (nf, L) () (nf, ?L2(kr_right_index kr \<mapsto> Some ?r))"
    unfolding zk_remove_found_def key_range_left_path_def key_range_right_path_def Let_def
    by (rule triple_bind [OF triple_lift [OF paths(1)]], rule triple_bind [OF triple_lift [OF paths(2)]],
        rule triple_bind, rule parse, rule left, rule triple_bind, rule put, rule left,
        rule triple_bind [OF triple_lift [OF paths(3)]], rule triple_bind, rule parse, rule at(1),
        rule triple_bind [OF runs_index(2)], rule triple_bind, rule rem, rule at(1),
        rule triple_bind, rule parse, rule at(2), rule put, rule at(2))
      (intro growing)+
  then show ?thesis by (simp add: leaf_opening_new_prev_leaf_def leaf_opening_new_next_leaf_def)
qed

end

text \<open>\<open>put\<close> asks for the sub root hash before and after, and ignores the answer.\<close>

definition between_sub_roots :: "'s database \<Rightarrow> (zk_trie \<times> 's, zk_error, unit) comp \<Rightarrow> (zk_trie \<times> 's, zk_error, unit) comp" where
  "between_sub_roots D c = bindc (readc (\<lambda>(t, s). zk_sub_root_hash D t s)) (\<lambda>_.
     bindc c (\<lambda>_. bindc (readc (\<lambda>(t, s). zk_sub_root_hash D t s)) (\<lambda>_. returnc ())))"

text \<open>The outcome of a plain run, from its logged run.\<close>

lemma triple_plain:
  assumes tr: "tracks_trie cl c" and eq: "cl (t, (s, [])) = dl (t, (s, []))"
    and pre: "P t s" "set (trie_written cl t s) \<subseteq> U" and run: "triple U P dl x Q"
  shows "\<exists>t' s'. c (t, s) = (Inr x, (t', s')) \<and> Q t' s'"
proof -
  obtain r t' s' w where r: "dl (t, (s, [])) = (r, (t', (s', w)))" by (metis prod.exhaust)
  have "set w \<subseteq> U" using pre(2) by (simp add: trie_written_def eq r)
  with r have "r = Inr x" "Q t' s'" using tripleD [OF run pre(1)] by blast+
  then show ?thesis using tracks_trieD [OF tr eq [unfolded r]] by blast
qed

lemma runs_plain:
  assumes tr: "tracks_trie cl c"
    and free: "trie_clash_free view cl t s"
    and pre: "E \<subseteq>\<^sub>m view s" "trie_rep (view s) (smt_root_hash t) nf L"
    and eq: "cl (t, (s, [])) = dl (t, (s, []))"
    and run: "\<And>U. inj_on nd_hash U \<Longrightarrow> runs view U E dl (nf, L) x (nf', L')"
  shows "\<exists>t' s'. c (t, s) = (Inr x, (t', s')) \<and> consistent (view s') \<and> E \<subseteq>\<^sub>m view s' \<and>
    trie_rep (view s') (smt_root_hash t') nf' L'"
proof -
  let ?U = "ran (view s) \<union> set (trie_written cl t s)"
  have "presents view ?U E (nf, L) t s"
    using free pre by (simp add: presents_def stored_in_def trie_clash_free_def)
  moreover have "runs view ?U E dl (nf, L) x (nf', L')"
    using free by (intro run) (simp add: trie_clash_free_def)
  ultimately obtain t' s' where "c (t, s) = (Inr x, (t', s'))" "presents view ?U E (nf', L') t' s'"
    using triple_plain [where cl = cl and dl = dl and t = t and s = s and U = ?U, OF tr eq] by blast
  then show ?thesis by (auto simp: presents_def stored_in_def)
qed

context trie_db begin

lemma runs_sub_root_after:
  assumes "runs view U E c a () b"
  shows "runs view U E (between_sub_roots (log_db D) c) a () b"
  unfolding between_sub_roots_def
proof (rule tripleI)
  fix t s w r t' s' w'
  assume p: "presents view U E a t s" "set w' \<subseteq> U"
    "bindc (readc (\<lambda>(t, s). zk_sub_root_hash (log_db D) t s)) (\<lambda>_.
      bindc c (\<lambda>_. bindc (readc (\<lambda>(t, s). zk_sub_root_hash (log_db D) t s)) (\<lambda>_. returnc ())))
      (t, (s, w)) = (r, (t', (s', w')))"
  obtain q t1 s1 w1 where q: "c (t, (s, w)) = (q, (t1, (s1, w1)))" by (metis prod.exhaust)
  obtain h where "zk_sub_root_hash (log_db D) t (s, w) = Inr h"
    using presents_sub_root [OF p(1)] by (auto simp: zk_sub_root_hash_def)
  then have c: "bindc c (\<lambda>_. bindc (readc (\<lambda>(t, s). zk_sub_root_hash (log_db D) t s)) (\<lambda>_. returnc ()))
      (t, (s, w)) = (r, (t', (s', w')))" using p(3) by simp
  have "w1 = w'"
    using c q by (cases q; cases "zk_sub_root_hash (log_db D) t1 (s1, w1)") (auto simp: bindc_def)
  then have 1: "q = Inr ()" "presents view U E b t1 s1" using tripleD [OF assms p(1) q] p(2) by auto
  obtain h' where "zk_sub_root_hash (log_db D) t1 (s1, w1) = Inr h'"
    using presents_sub_root [OF 1(2)] by (auto simp: zk_sub_root_hash_def)
  then show "r = Inr () \<and> presents view U E b t' s'" using c q 1 by (auto simp: bindc_def)
qed

lemma zk_put_absent_case:
  assumes "trie_hash H key = Inr hkey" "db_get_nearest_keys D s (smt_root_hash t) hkey = Inr kr" "kr_center kr = None"
  shows "zk_put H (log_db D) key val (t, (s, w)) =
    between_sub_roots (log_db D) (zk_put_absent H (log_db D) hkey kr val) (t, (s, w))"
  using assms by (simp add: between_sub_roots_def zk_put_def zk_nearest_keys_def zk_top_root_hash_def)

lemma zk_put_present_case:
  assumes "trie_hash H key = Inr hkey" "db_get_nearest_keys D s (smt_root_hash t) hkey = Inr kr" "kr_center kr = Some fl"
  shows "zk_put H (log_db D) key val (t, (s, w)) =
    between_sub_roots (log_db D) (zk_put_present H (log_db D) hkey fl val) (t, (s, w))"
  using assms by (simp add: between_sub_roots_def zk_put_def zk_nearest_keys_def zk_top_root_hash_def)

lemma zk_remove_found_case:
  assumes "trie_hash H key = Inr hkey" "db_get_nearest_keys D s (smt_root_hash t) hkey = Inr kr" "kr_center kr = Some fl"
  shows "zk_remove H (log_db D) key (t, (s, w)) = zk_remove_found H (log_db D) hkey kr fl (t, (s, w))"
  using assms by (simp add: zk_remove_def zk_nearest_keys_def zk_top_root_hash_def)

text \<open>The trie's operations on a store that presents the trie.\<close>

lemma zk_put_absent_ok:
  assumes free: "trie_clash_free view (zk_put H (log_db D) key val) t s"
    and rep: "trie_rep (view s) (smt_root_hash t) nf L"
    and keys: "trie_hash H key = Inr hkey" "trie_hash H val = Inr hval"
      "db_get_nearest_keys D s (smt_root_hash t) hkey = Inr kr" "kr_center kr = None"
    and left: "L (kr_left_index kr) = Some (Some (leaf_opening_to_bytes ll))"
    and right: "L (kr_right_index kr) = Some (Some (leaf_opening_to_bytes rl))"
    and nf: "L nf = Some c"
    and ne: "kr_left_index kr \<noteq> nf" "kr_right_index kr \<noteq> nf" "kr_left_index kr \<noteq> kr_right_index kr"
  shows "\<exists>t' s'. zk_put H D key val (t, s) = (Inr (), (t', s')) \<and> consistent (view s') \<and> view s \<subseteq>\<^sub>m view s' \<and>
    trie_rep (view s') (smt_root_hash t') (nf + 1)
      (L(kr_left_index kr \<mapsto> Some (leaf_opening_to_bytes (ll\<lparr>lo_next_leaf := nf\<rparr>)),
         nf \<mapsto> Some (leaf_opening_to_bytes (leaf_opening_new (kr_left_index kr) (kr_right_index kr) hkey hval)),
         kr_right_index kr \<mapsto> Some (leaf_opening_to_bytes
           (rl\<lparr>lo_next_leaf := lo_prev_leaf rl, lo_prev_leaf := nf\<rparr>))))"
proof -
  have dom: "\<forall>i\<in>dom L. unat i < 2 ^ 40" using rep by (auto simp: trie_rep_def)
  show ?thesis
    by (rule runs_plain [where dl = "between_sub_roots (log_db D) (zk_put_absent H (log_db D) hkey kr val)",
    OF tracks_zk_put free map_le_refl rep zk_put_absent_case [OF keys(1,3,4)]], rule runs_sub_root_after, rule runs_put_absent)
      (assumption | rule left right nf ne dom keys)+
qed

lemma zk_put_present_ok:
  assumes free: "trie_clash_free view (zk_put H (log_db D) key val) t s"
    and rep: "trie_rep (view s) (smt_root_hash t) nf L"
    and keys: "trie_hash H key = Inr hkey" "trie_hash H val = Inr hval"
      "db_get_nearest_keys D s (smt_root_hash t) hkey = Inr kr" "kr_center kr = Some fl"
    and leaf: "L (fl_leaf_index fl) = Some (Some (leaf_opening_to_bytes l))"
  shows "\<exists>t' s'. zk_put H D key val (t, s) = (Inr (), (t', s')) \<and> consistent (view s') \<and> view s \<subseteq>\<^sub>m view s' \<and>
    trie_rep (view s') (smt_root_hash t') nf
      (L(fl_leaf_index fl \<mapsto> Some (leaf_opening_to_bytes
           (l\<lparr>lo_next_leaf := lo_prev_leaf l, lo_hval := hval\<rparr>))))"
proof -
  have dom: "unat (fl_leaf_index fl) < 2 ^ 40" using leaf rep by (auto simp: trie_rep_def)
  show ?thesis
    by (rule runs_plain [where dl = "between_sub_roots (log_db D) (zk_put_present H (log_db D) hkey fl val)",
    OF tracks_zk_put free map_le_refl rep zk_put_present_case [OF keys(1,3,4)]], rule runs_sub_root_after, rule runs_put_present)
      (assumption | rule leaf dom keys)+
qed

lemma zk_remove_ok:
  assumes free: "trie_clash_free view (zk_remove H (log_db D) key) t s"
    and rep: "trie_rep (view s) (smt_root_hash t) nf L" and empty: "view s 0 = Some (empty_node H 0)"
    and keys: "trie_hash H key = Inr hkey"
      "db_get_nearest_keys D s (smt_root_hash t) hkey = Inr kr" "kr_center kr = Some fl"
    and left: "L (kr_left_index kr) = Some (Some (leaf_opening_to_bytes ll))"
    and leaf: "L (fl_leaf_index fl) = Some (Some (leaf_opening_to_bytes l))"
    and right: "L (kr_right_index kr) = Some (Some (leaf_opening_to_bytes rl))"
    and ne: "kr_left_index kr \<noteq> fl_leaf_index fl" "kr_right_index kr \<noteq> fl_leaf_index fl"
      "kr_left_index kr \<noteq> kr_right_index kr"
  shows "\<exists>t' s'. zk_remove H D key (t, s) = (Inr (), (t', s')) \<and> consistent (view s') \<and> view s \<subseteq>\<^sub>m view s' \<and>
    trie_rep (view s') (smt_root_hash t') nf
      (L(kr_left_index kr \<mapsto> Some (leaf_opening_to_bytes (ll\<lparr>lo_next_leaf := kr_right_index kr\<rparr>)),
         fl_leaf_index fl \<mapsto> None,
         kr_right_index kr \<mapsto> Some (leaf_opening_to_bytes
           (rl\<lparr>lo_next_leaf := lo_prev_leaf rl, lo_prev_leaf := kr_left_index kr\<rparr>))))"
proof -
  have dom: "\<forall>i\<in>dom L. unat i < 2 ^ 40" using rep by (auto simp: trie_rep_def)
  show ?thesis
    by (rule runs_plain [where dl = "zk_remove_found H (log_db D) hkey kr fl",
    OF tracks_zk_remove free map_le_refl rep zk_remove_found_case [OF keys]], rule runs_remove_found)
      (assumption | rule empty left leaf right ne dom)+
qed

lemma smt_put_ok:
  assumes free: "trie_clash_free view (smt_put H (log_db D) (leaf_path i) v) t s"
    and rep: "trie_rep (view s) (smt_root_hash t) nf L" "L i = Some c"
    and v: "32 dvd length v" "v \<noteq> []"
  shows "\<exists>t' s'. smt_put H D (leaf_path i) v (t, s) = (Inr (), (t', s')) \<and> consistent (view s') \<and>
    view s \<subseteq>\<^sub>m view s' \<and> trie_rep (view s') (smt_root_hash t') nf (L(i \<mapsto> Some v))"
proof (rule runs_plain [where dl = "smt_put H (log_db D) (leaf_path i) v",
    OF tracks_smt_put free map_le_refl rep(1) refl])
  fix U :: "node set" assume "inj_on nd_hash U"
  then show "runs view U (view s) (smt_put H (log_db D) (leaf_path i) v) (nf, L) () (nf, L(i \<mapsto> Some v))"
    using runs_put [of U "(nf, L)" i c v "view s"] rep(2) v by simp
qed

lemma smt_remove_ok:
  assumes free: "trie_clash_free view (smt_remove H (log_db D) (leaf_path i)) t s"
    and rep: "trie_rep (view s) (smt_root_hash t) nf L" "L i = Some c"
    and empty: "view s 0 = Some (empty_node H 0)"
  shows "\<exists>t' s'. smt_remove H D (leaf_path i) (t, s) = (Inr (), (t', s')) \<and> consistent (view s') \<and>
    view s \<subseteq>\<^sub>m view s' \<and> trie_rep (view s') (smt_root_hash t') nf (L(i \<mapsto> None))"
proof (rule runs_plain [where dl = "smt_remove H (log_db D) (leaf_path i)",
    OF tracks_smt_remove free map_le_refl rep(1) refl])
  fix U :: "node set" assume "inj_on nd_hash U"
  then show "runs view U (view s) (smt_remove H (log_db D) (leaf_path i)) (nf, L) () (nf, L(i \<mapsto> None))"
    using runs_remove [of U "view s" "(nf, L)" i c] rep(2) empty by simp
qed

text \<open>The new root is the hash recomputed along the path from the siblings in the store.\<close>

lemma smt_put_root:
  assumes rep: "trie_rep (view s) (smt_root_hash t) nf L" "L i = Some c" and v: "32 dvd length v" "v \<noteq> []"
  shows "\<exists>s'. smt_put H D (leaf_path i) v (t, s) =
    (Inr (), (smt_new (path_hash H (view s) (smt_root_hash t) (1 # leaf_bits i) (value_hash H v)), s'))"
proof -
  obtain n where n: "leaf_at (view s) (smt_root_hash t) i = Some n" "slot [22] n"
    using rep by (auto elim: trie_repD)
  have wk: "walk (view s) (smt_root_hash t) (1 # leaf_bits i) = Some n" using n(1) by (simp add: leaf_at_def)
  have dir: "directions (1 # leaf_bits i)" using set_leaf_bits [of i] by auto
  have path: "drop 0 (leaf_path i) = (1 # leaf_bits i) @ [22]" by (simp add: leaf_path_def)
  obtain m s1 ws where "smt_add_leaf H (log_db D) 0 (smt_root_hash t) (leaf_path i) v (s, []) = (Inr m, (s1, [] @ ws))"
    "nd_hash m = path_hash H (view s) (smt_root_hash t) (1 # leaf_bits i) (value_hash H v)"
    using add_leaf_walk [OF wk n(2) path _ _ _ dir v, of "[]"] by (auto simp del: walk.simps path_hash.simps)
  then have "smt_put H (log_db D) (leaf_path i) v (t, (s, [])) =
      (Inr (), (smt_new (path_hash H (view s) (smt_root_hash t) (1 # leaf_bits i) (value_hash H v)), (s1, ws)))"
    by (simp add: smt_put_def on_db_def bindc_def smt_new_def del: path_hash.simps)
  from tracks_trieD [OF tracks_smt_put this] show ?thesis by blast
qed

end


section \<open>The genesis trie\<close>

text \<open>The hashes of the empty subtrees and of the world root do not coincide.\<close>

definition empty_distinct :: "hasher \<Rightarrow> bool" where
  "empty_distinct H \<longleftrightarrow> distinct (nd_hash (empty_world_root H) # map (empty_hash H) [0..<41])"

definition no_leaves :: "u64 \<rightharpoonup> bytes option" where
  "no_leaves i = (if unat i < 2 ^ 40 then Some None else None)"

lemma empty_nodes_at:
  assumes "empty_distinct H" "d \<le> 40"
  shows "empty_nodes H (empty_hash H d) = Some (empty_node H d)"
proof -
  obtain n where n: "empty_nodes H (empty_hash H d) = Some n" using empty_nodes_dom [OF assms(2)] by auto
  have inj: "inj_on (empty_hash H) (set [0..<41])" and fresh: "nd_hash (empty_world_root H) \<notin> empty_hash H ` set [0..<41]"
    using assms(1) by (simp_all add: empty_distinct_def distinct_map del: upt_rec_numeral set_upt)
  from empty_nodes_cases [OF n] show ?thesis
  proof
    assume "\<exists>j\<le>40. empty_hash H d = empty_hash H j \<and> n = empty_node H j"
    then obtain j where j: "j \<le> 40" "empty_hash H d = empty_hash H j" "n = empty_node H j" by blast
    then have "d = j" using inj assms(2) by (auto dest!: inj_onD simp del: upt_rec_numeral)
    with n j show ?thesis by simp
  next
    assume "empty_hash H d = nd_hash (empty_world_root H) \<and> n = empty_world_root H"
    moreover have "empty_hash H d \<in> empty_hash H ` set [0..<41]" using assms(2) by (intro imageI) simp
    ultimately show ?thesis using fresh by metis
  qed
qed

lemma walk_empty:
  assumes "\<And>d. d \<le> 40 \<Longrightarrow> V (empty_hash H d) = Some (empty_node H d)" "length bs \<le> 40"
  shows "walk V (empty_hash H (length bs)) bs = Some (empty_node H 0)"
  using assms(2)
proof (induction bs)
  case (Cons b bs)
  then show ?case using assms(1) [of "Suc (length bs)"] by (simp add: empty_node_def)
qed (simp add: assms(1))

lemma trie_rep_empty:
  assumes "empty_distinct H" "empty_nodes H \<subseteq>\<^sub>m V"
  shows "trie_rep V (nd_hash (empty_world_root H)) 0 no_leaves"
proof -
  have V: "V h = Some n" if "empty_nodes H h = Some n" for h n
    using assms(2) that by (force simp: map_le_def dom_def)
  have root: "V (nd_hash (empty_world_root H)) = Some (empty_world_root H)" by (rule V [OF empty_nodes_root])
  have "leaf_at V (nd_hash (empty_world_root H)) i = Some (empty_node H 0)" for i
    using walk_empty [of V H "leaf_bits i"] V [OF empty_nodes_at [OF assms(1)]] root
    by (simp add: leaf_at_def empty_world_root_def)
  moreover have "branch_at V (nd_hash (empty_world_root H)) = Some \<lparr>br_left = 0, br_right = empty_hash H 40\<rparr>"
    using root by (simp add: branch_at_def empty_world_root_def)
  ultimately show ?thesis
    by (auto simp: trie_rep_def no_leaves_def empty_node_def split: if_splits)
qed

context node_db begin

lemma trie_rep_get:
  assumes "trie_rep (view s) (smt_root_hash t) nf L" "L i = Some c"
  shows "\<exists>r. smt_get_node D t s (leaf_path i) = Inr r \<and> map_option nd_raw r = map_option (mk_leaf [22]) c"
proof -
  obtain n where n: "unat i < 2 ^ 40" "leaf_at (view s) (smt_root_hash t) i = Some n"
    "nd_raw n = content_raw c" "slot [22] n" using assms by (rule trie_repD)
  have "smt_get_node D t s (leaf_path i) = Inr (if nd_raw n = EmptyLeaf then None else Some n)"
    unfolding smt_get_node_def
    by (rule get_node_loop_walk [where bs = "1 # leaf_bits i" and rest = "[22]"])
      (use n in \<open>auto simp: leaf_at_def leaf_path_def\<close>)
  then show ?thesis using n(3) by (cases c) auto
qed

end

context trie_db begin

lemma runs_set_head_and_tail:
  assumes inj: "inj_on nd_hash U" and L: "L 0 = Some c" "L 1 = Some d"
  shows "runs view U E (zk_set_head_and_tail H (log_db D)) (0, L) ()
    (2, L(0 \<mapsto> Some (leaf_opening_to_bytes leaf_opening_head), 1 \<mapsto> Some (leaf_opening_to_bytes leaf_opening_tail)))"
proof -
  have paths: "get_leaf_path 0 = (Inr (leaf_path 0) :: (zk_error, bytes) result)"
    "get_leaf_path (0 + 1) = (Inr (leaf_path (0 + 1)) :: (zk_error, bytes) result)"
    by (simp_all add: get_leaf_path_eq)
  have len: "leaf_opening_to_bytes l \<noteq> []" "32 dvd length (leaf_opening_to_bytes l)" for l
    using length_leaf_opening_to_bytes [of l] by fastforce+
  note put = runs_put [OF inj _ len(2,1), of "(n, M)" for n M, unfolded fst_conv snd_conv]
  note inc = runs_increment [OF inj, of E "(n, M)" for n M, unfolded fst_conv snd_conv]
  note free = runs_next_free [of U E "(n, M)" for n M, unfolded fst_conv]
  let ?L1 = "L(0 \<mapsto> Some (leaf_opening_to_bytes leaf_opening_head))"
  have at: "?L1 (0 + 1) = Some d" using L by simp
  have "runs view U E (zk_set_head_and_tail H (log_db D)) (0, L) ()
      (0 + 1 + 1, ?L1(0 + 1 \<mapsto> Some (leaf_opening_to_bytes leaf_opening_tail)))"
    unfolding zk_set_head_and_tail_def zk_get_next_free_leaf_node_def zk_next_free_node_def
    by (rule triple_bind, rule free, rule triple_bind, rule triple_lift, rule paths, rule triple_bind, rule put, rule L(1),
        rule triple_bind, rule runs_index, rule triple_bind, rule inc, rule triple_bind, rule free,
        rule triple_bind, rule runs_index, rule triple_bind, rule triple_lift, rule paths,
        rule triple_bind, rule put, rule at, rule triple_bind, rule inc, rule triple_basic(2))
      (intro growing)+
  then show ?thesis by simp
qed

text \<open>The initial trie: two leaves, the head and the tail, linked to each other.\<close>

lemma zk_empty_ok:
  assumes distinct: "empty_distinct H" and empty: "empty_nodes H \<subseteq>\<^sub>m view s"
    and free: "trie_clash_free view (zk_set_head_and_tail H (log_db D)) (zk_new (nd_hash (empty_world_root H))) s"
  shows "\<exists>t' s'. zk_empty H D s = (Inr t', s') \<and> consistent (view s') \<and> view s \<subseteq>\<^sub>m view s' \<and>
    trie_rep (view s') (smt_root_hash t') 2
      (no_leaves(0 \<mapsto> Some (leaf_opening_to_bytes leaf_opening_head), 1 \<mapsto> Some (leaf_opening_to_bytes leaf_opening_tail)))"
proof -
  let ?t = "zk_new (nd_hash (empty_world_root H))"
  have root: "smt_root_hash ?t = nd_hash (empty_world_root H)" by (simp add: zk_new_def smt_new_def)
  have "\<exists>t' s'. zk_set_head_and_tail H D (?t, s) = (Inr (), (t', s')) \<and> consistent (view s') \<and> view s \<subseteq>\<^sub>m view s' \<and>
    trie_rep (view s') (smt_root_hash t') 2
      (no_leaves(0 \<mapsto> Some (leaf_opening_to_bytes leaf_opening_head), 1 \<mapsto> Some (leaf_opening_to_bytes leaf_opening_tail)))"
  proof (rule runs_plain [where dl = "zk_set_head_and_tail H (log_db D)", OF tracks_set_head_and_tail free map_le_refl _ refl])
    show "trie_rep (view s) (smt_root_hash ?t) 0 no_leaves"
      using trie_rep_empty [OF distinct empty] by (simp add: root)
    fix U :: "node set" assume "inj_on nd_hash U"
    then show "runs view U (view s) (zk_set_head_and_tail H (log_db D)) (0, no_leaves) ()
      (2, no_leaves(0 \<mapsto> Some (leaf_opening_to_bytes leaf_opening_head), 1 \<mapsto> Some (leaf_opening_to_bytes leaf_opening_tail)))"
      by (rule runs_set_head_and_tail [where c = None and d = None]) (simp_all add: no_leaves_def)
  qed
  then show ?thesis by (auto simp: zk_empty_def init_world_state_ok)
qed

end

end
