(* ===== verification/Zk_Trace.thy ===== *)
theory Zk_Trace
  imports Sparse_Merkle_Trie
begin

text \<open>
  The state-access traces of the block's execution: \<open>src/common/zktrie/src/trace.rs\<close>. A trace is
  a record per kind of access; what the code derives from it is the state before the access
  (next free index and sub root), the key's neighbours and the nodes that its proofs determine.
\<close>

section \<open>Data\<close>

record trace_proof =
  tp_leaf_index :: u64
  tp_siblings :: "sh256 list"

record update_trace =
  ut_location :: bytes
  ut_new_next_free_node :: u64
  ut_old_sub_root :: sh256
  ut_new_sub_root :: sh256
  ut_proof :: trace_proof
  ut_key :: bytes
  ut_old_value :: bytes
  ut_new_value :: bytes
  ut_prior_updated_leaf :: leaf_opening

record deletion_trace =
  dt_location :: bytes
  dt_new_next_free_node :: u64
  dt_old_sub_root :: sh256
  dt_new_sub_root :: sh256
  dt_left_proof :: trace_proof
  dt_delete_proof :: trace_proof
  dt_right_proof :: trace_proof
  dt_key :: bytes
  dt_delete_value :: bytes
  dt_prior_left_leaf :: leaf_opening
  dt_prior_delete_leaf :: leaf_opening
  dt_prior_right_leaf :: leaf_opening

record insertion_trace =
  it_location :: bytes
  it_new_next_free_node :: u64
  it_old_sub_root :: sh256
  it_new_sub_root :: sh256
  it_left_proof :: trace_proof
  it_new_proof :: trace_proof
  it_right_proof :: trace_proof
  it_key :: bytes
  it_value :: bytes
  it_prior_left_leaf :: leaf_opening
  it_prior_right_leaf :: leaf_opening

record read_trace =
  rt_location :: bytes
  rt_next_free_node :: u64
  rt_sub_root :: sh256
  rt_leaf :: leaf_opening
  rt_proof :: trace_proof
  rt_key :: bytes
  rt_value :: bytes

record read_zero_trace =
  rz_location :: bytes
  rz_next_free_node :: u64
  rz_sub_root :: sh256
  rz_left_leaf :: leaf_opening
  rz_right_leaf :: leaf_opening
  rz_left_proof :: trace_proof
  rz_right_proof :: trace_proof
  rz_key :: bytes

datatype trace =
    Trace_Read read_trace
  | Trace_ReadZero read_zero_trace
  | Trace_Insertion insertion_trace
  | Trace_Update update_trace
  | Trace_Deletion deletion_trace

section \<open>What a trace says\<close>

text \<open>The decrement of the counter wraps around in the release build.\<close>

fun trace_old_state :: "trace \<Rightarrow> u64 \<times> sh256" where
  "trace_old_state (Trace_Deletion n) = (dt_new_next_free_node n, dt_old_sub_root n)"
| "trace_old_state (Trace_Insertion n) = (it_new_next_free_node n - 1, it_old_sub_root n)"
| "trace_old_state (Trace_Read n) = (rt_next_free_node n, rt_sub_root n)"
| "trace_old_state (Trace_ReadZero n) = (rz_next_free_node n, rz_sub_root n)"
| "trace_old_state (Trace_Update n) = (ut_new_next_free_node n, ut_old_sub_root n)"

definition trace_old_top_node :: "hasher \<Rightarrow> trace \<Rightarrow> ('e, node) result" where
  "trace_old_top_node H tr = (case trace_old_state tr of (next_free_node, sub_root) \<Rightarrow>
     node_top_node H next_free_node sub_root)"

definition trace_old_top_hash :: "hasher \<Rightarrow> trace \<Rightarrow> ('e, sh256) result" where
  "trace_old_top_hash H tr = bind_result (trace_old_top_node H tr) (\<lambda>n. Inr (nd_hash n))"

fun trace_key :: "trace \<Rightarrow> bytes" where
  "trace_key (Trace_Deletion n) = dt_key n"
| "trace_key (Trace_Insertion n) = it_key n"
| "trace_key (Trace_Read n) = rt_key n"
| "trace_key (Trace_ReadZero n) = rz_key n"
| "trace_key (Trace_Update n) = ut_key n"

fun trace_read_value :: "trace \<Rightarrow> bytes" where
  "trace_read_value (Trace_Deletion n) = []"
| "trace_read_value (Trace_Insertion n) = []"
| "trace_read_value (Trace_Read n) = rt_value n"
| "trace_read_value (Trace_ReadZero n) = []"
| "trace_read_value (Trace_Update n) = []"

fun trace_location :: "trace \<Rightarrow> bytes" where
  "trace_location (Trace_Deletion n) = dt_location n"
| "trace_location (Trace_Insertion n) = it_location n"
| "trace_location (Trace_Read n) = rt_location n"
| "trace_location (Trace_ReadZero n) = rz_location n"
| "trace_location (Trace_Update n) = ut_location n"

fun trace_key_range :: "trace \<Rightarrow> key_range" where
  "trace_key_range (Trace_ReadZero n) =
     \<lparr>kr_left_index = tp_leaf_index (rz_left_proof n), kr_center = None,
      kr_right_index = tp_leaf_index (rz_right_proof n)\<rparr>"
| "trace_key_range (Trace_Read n) =
     \<lparr>kr_left_index = lo_prev_leaf (rt_leaf n),
      kr_center = Some \<lparr>fl_leaf_index = tp_leaf_index (rt_proof n), fl_leaf_value = rt_value n\<rparr>,
      kr_right_index = lo_next_leaf (rt_leaf n)\<rparr>"
| "trace_key_range (Trace_Update n) =
     \<lparr>kr_left_index = lo_prev_leaf (ut_prior_updated_leaf n),
      kr_center = Some \<lparr>fl_leaf_index = tp_leaf_index (ut_proof n), fl_leaf_value = ut_old_value n\<rparr>,
      kr_right_index = lo_next_leaf (ut_prior_updated_leaf n)\<rparr>"
| "trace_key_range (Trace_Insertion n) =
     \<lparr>kr_left_index = tp_leaf_index (it_left_proof n), kr_center = None,
      kr_right_index = tp_leaf_index (it_right_proof n)\<rparr>"
| "trace_key_range (Trace_Deletion n) =
     \<lparr>kr_left_index = lo_prev_leaf (dt_prior_delete_leaf n),
      kr_center = Some \<lparr>fl_leaf_index = tp_leaf_index (dt_delete_proof n), fl_leaf_value = dt_delete_value n\<rparr>,
      kr_right_index = lo_next_leaf (dt_prior_delete_leaf n)\<rparr>"

section \<open>The nodes of a proof\<close>

text \<open>
  The loop of \<open>build_nodes\<close>: the siblings are listed from the leaf upwards, the direction of
  sibling number \<open>idx\<close> is entry \<open>n - idx\<close> of the leaf's path, \<open>n\<close> the number of siblings.
\<close>

fun build_nodes_loop ::
  "hasher \<Rightarrow> bytes \<Rightarrow> nat \<Rightarrow> nat \<Rightarrow> sh256 list \<Rightarrow> node \<Rightarrow> node list \<Rightarrow> ('e, node list) result" where
  "build_nodes_loop H trie_path n idx [] root out = Inr (out @ [root])"
| "build_nodes_loop H trie_path n idx (sibling # siblings) root out =
     bind_result (index trie_path (n - idx)) (\<lambda>dir.
     bind_result (if dir = 0 then node_raw_branch H (nd_hash root) sibling
                  else node_raw_branch H sibling (nd_hash root)) (\<lambda>new_root.
       build_nodes_loop H trie_path n (Suc idx) siblings new_root (out @ [root])))"

definition trace_proof_build_nodes ::
  "hasher \<Rightarrow> trace_proof \<Rightarrow> leaf_opening option \<Rightarrow> ('e, node list) result" where
  "trace_proof_build_nodes H p leaf =
     bind_result (get_leaf_path (tp_leaf_index p)) (\<lambda>trie_path.
     bind_result (case leaf of
         Some leaf \<Rightarrow> node_leaf H (drop (length trie_path - 1) trie_path) (leaf_opening_to_bytes leaf)
       | None \<Rightarrow> node_empty_leaf H) (\<lambda>root.
       build_nodes_loop H trie_path (length (tp_siblings p)) 0 (tp_siblings p) root []))"

fun trace_to_nodes :: "hasher \<Rightarrow> trace \<Rightarrow> ('e, node list) result" where
  "trace_to_nodes H (Trace_Update n) =
     trace_proof_build_nodes H (ut_proof n) (Some (ut_prior_updated_leaf n))"
| "trace_to_nodes H (Trace_Insertion n) =
     bind_result (trace_proof_build_nodes H (it_left_proof n) (Some (it_prior_left_leaf n))) (\<lambda>l.
     bind_result (trace_proof_build_nodes H (it_new_proof n) None) (\<lambda>c.
     bind_result (trace_proof_build_nodes H (it_right_proof n) (Some (it_prior_right_leaf n))) (\<lambda>r.
       Inr (l @ c @ r))))"
| "trace_to_nodes H (Trace_Deletion n) =
     bind_result (trace_proof_build_nodes H (dt_left_proof n) (Some (dt_prior_left_leaf n))) (\<lambda>l.
     bind_result (trace_proof_build_nodes H (dt_delete_proof n) (Some (dt_prior_delete_leaf n))) (\<lambda>c.
     bind_result (trace_proof_build_nodes H (dt_right_proof n) (Some (dt_prior_right_leaf n))) (\<lambda>r.
       Inr (l @ c @ r))))"
| "trace_to_nodes H (Trace_Read _) = Inr []"
| "trace_to_nodes H (Trace_ReadZero _) = Inr []"

section \<open>Decoding\<close>

text \<open>
  The wire formats: \<open>serde_json\<close> and \<open>rlp\<close> are libraries, their values and the decoders that
  their macros derive for the five trace structs are the fields of \<open>decoders\<close>; \<open>rlp_view\<close> has
  the operations of \<open>rlp::Rlp\<close> that the hand-written decoders call.
\<close>

datatype trace_type = TraceType_Read | TraceType_ReadZero | TraceType_Insertion | TraceType_Update | TraceType_Deletion

fun trace_type_tag :: "trace_type \<Rightarrow> nat" where
  "trace_type_tag TraceType_Read = 0"
| "trace_type_tag TraceType_ReadZero = 1"
| "trace_type_tag TraceType_Insertion = 2"
| "trace_type_tag TraceType_Update = 3"
| "trace_type_tag TraceType_Deletion = 4"

record ('v, 'e) decoders =
  dec_read :: "'v \<Rightarrow> ('e, read_trace) result"
  dec_read_zero :: "'v \<Rightarrow> ('e, read_zero_trace) result"
  dec_insertion :: "'v \<Rightarrow> ('e, insertion_trace) result"
  dec_update :: "'v \<Rightarrow> ('e, update_trace) result"
  dec_deletion :: "'v \<Rightarrow> ('e, deletion_trace) result"

record 'v raw_trace =
  rw_type :: nat
  rw_value :: 'v

definition trace_try_from :: "('v, 'e) decoders \<Rightarrow> 'v raw_trace \<Rightarrow> ('e, trace) result" where
  "trace_try_from S value =
     (let ty = rw_type value; v = rw_value value in
      if ty = 0 then bind_result (dec_read S v) (\<lambda>n. Inr (Trace_Read n))
      else if ty = 1 then bind_result (dec_read_zero S v) (\<lambda>n. Inr (Trace_ReadZero n))
      else if ty = 2 then bind_result (dec_insertion S v) (\<lambda>n. Inr (Trace_Insertion n))
      else if ty = 3 then bind_result (dec_update S v) (\<lambda>n. Inr (Trace_Update n))
      else if ty = 4 then bind_result (dec_deletion S v) (\<lambda>n. Inr (Trace_Deletion n))
      else Inl Panic)"

datatype decoder_error = Custom string | RlpError string

record 'r rlp_view =
  rlp_at :: "'r \<Rightarrow> nat \<Rightarrow> (decoder_error, 'r) result"
  rlp_bytes :: "'r \<Rightarrow> (decoder_error, bytes) result"
  rlp_u64 :: "'r \<Rightarrow> (decoder_error, u64) result"
  rlp_sh256 :: "'r \<Rightarrow> (decoder_error, sh256) result"
  rlp_item_count :: "'r \<Rightarrow> (decoder_error, nat) result"

definition trace_decode ::
  "'r rlp_view \<Rightarrow> ('r, decoder_error) decoders \<Rightarrow> 'r \<Rightarrow> (decoder_error, trace) result" where
  "trace_decode R S rlp =
     bind_result (rlp_at R rlp 0) (\<lambda>rlp.
     bind_result (bind_result (rlp_at R rlp 0) (rlp_bytes R)) (\<lambda>ty.
     bind_result (if length ty = 4 then Inr (be_nat ty)
                  else Inl (Fail (Custom ''ty expected to 4 bytes''))) (\<lambda>ty.
     bind_result (rlp_at R rlp 1) (\<lambda>rlp.
       if ty = 4 then bind_result (dec_deletion S rlp) (\<lambda>n. Inr (Trace_Deletion n))
       else if ty = 3 then bind_result (dec_update S rlp) (\<lambda>n. Inr (Trace_Update n))
       else if ty = 2 then bind_result (dec_insertion S rlp) (\<lambda>n. Inr (Trace_Insertion n))
       else if ty = 1 then bind_result (dec_read_zero S rlp) (\<lambda>n. Inr (Trace_ReadZero n))
       else if ty = 0 then bind_result (dec_read S rlp) (\<lambda>n. Inr (Trace_Read n))
       else Inl (Fail (Custom ''unknown trace type''))))))"

definition trace_proof_decode :: "'r rlp_view \<Rightarrow> 'r \<Rightarrow> (decoder_error, trace_proof) result" where
  "trace_proof_decode R rlp =
     bind_result (bind_result (rlp_at R rlp 0) (rlp_u64 R)) (\<lambda>leaf_index.
     bind_result (rlp_at R rlp 1) (\<lambda>rlp.
     bind_result (rlp_item_count R rlp) (\<lambda>count.
     bind_result (map_result (\<lambda>i. bind_result (rlp_at R rlp i) (rlp_sh256 R)) [0..<count]) (\<lambda>siblings.
       Inr \<lparr>tp_leaf_index = leaf_index, tp_siblings = siblings\<rparr>))))"

section \<open>What the nodes of a proof are\<close>

text \<open>The directions are listed with the siblings, from the leaf upwards.\<close>

fun proof_hash :: "hasher \<Rightarrow> sh256 \<Rightarrow> (byte \<times> sh256) list \<Rightarrow> sh256" where
  "proof_hash H h [] = h"
| "proof_hash H h ((d, s) # xs) =
     proof_hash H (if d = 0 then branch_hash H h s else branch_hash H s h) xs"

definition branch_over :: "hasher \<Rightarrow> byte \<Rightarrow> sh256 \<Rightarrow> sh256 \<Rightarrow> node" where
  "branch_over H d h s = (if d = 0 then \<lparr>nd_raw = mk_branch h s, nd_hash = branch_hash H h s\<rparr>
     else \<lparr>nd_raw = mk_branch s h, nd_hash = branch_hash H s h\<rparr>)"

fun up_nodes :: "hasher \<Rightarrow> node \<Rightarrow> (byte \<times> sh256) list \<Rightarrow> node list" where
  "up_nodes H n [] = [n]"
| "up_nodes H n ((d, s) # xs) = n # up_nodes H (branch_over H d (nd_hash n) s) xs"

lemma length_up_nodes [simp]: "length (up_nodes H n xs) = Suc (length xs)"
  by (induction H n xs rule: up_nodes.induct) auto

lemma up_nodes_ne [simp]: "up_nodes H n xs \<noteq> []"
  by (metis length_up_nodes length_0_conv nat.simps(3))

lemma hd_up_nodes: "n \<in> set (up_nodes H n xs)"
  by (cases "(H, n, xs)" rule: up_nodes.cases) auto

lemma nd_hash_branch_over:
  "nd_hash (branch_over H d h s) = (if d = 0 then branch_hash H h s else branch_hash H s h)"
  by (simp add: branch_over_def)

lemma last_up_nodes: "nd_hash (last (up_nodes H n xs)) = proof_hash H (nd_hash n) xs"
  by (induction H n xs rule: up_nodes.induct) (auto simp: nd_hash_branch_over)

text \<open>A store that holds them leads from the root to the leaf.\<close>

lemma walk_up_nodes:
  assumes "\<forall>m \<in> set (up_nodes H n xs). V (nd_hash m) = Some m"
  shows "walk V (nd_hash (last (up_nodes H n xs))) (rev (map fst xs) @ q) = walk V (nd_hash n) q"
  using assms
proof (induction H n xs arbitrary: q rule: up_nodes.induct)
  case (2 H n d s xs)
  let ?m = "branch_over H d (nd_hash n) s"
  have m: "V (nd_hash ?m) = Some ?m" using 2(2) hd_up_nodes [of ?m H xs] by simp
  have "walk V (nd_hash (last (up_nodes H ?m xs))) (rev (map fst xs) @ (d # q)) = walk V (nd_hash ?m) (d # q)"
    using 2 by (intro 2(1)) simp
  moreover have "walk V (nd_hash ?m) (d # q) = walk V (nd_hash n) q"
    using m by (cases "d = 0") (simp_all add: branch_over_def)
  ultimately show ?case by simp
qed simp

text \<open>The node of the leaf that a proof is about.\<close>

definition proof_leaf :: "hasher \<Rightarrow> leaf_opening option \<Rightarrow> node" where
  "proof_leaf H leaf = (case leaf of
     Some l \<Rightarrow> \<lparr>nd_raw = mk_leaf [22] (leaf_opening_to_bytes l), nd_hash = value_hash H (leaf_opening_to_bytes l)\<rparr>
   | None \<Rightarrow> empty_node H 0)"

context trie_hasher begin

lemma node_over_ok:
  "(if d = 0 then node_raw_branch H (nd_hash n) s else node_raw_branch H s (nd_hash n)) =
   Inr (branch_over H d (nd_hash n) s)"
  by (simp add: node_raw_branch_ok branch_over_def)

lemma build_nodes_loop_ok:
  assumes "n = idx + length sibs" "n < length path"
  shows "build_nodes_loop H path n idx sibs root out =
    Inr (out @ up_nodes H root (zip (map (\<lambda>k. path ! (n - k)) [idx..<n]) sibs))"
  using assms
proof (induction sibs arbitrary: idx root out)
  case (Cons s sibs)
  then have "idx < n" by simp
  with Cons show ?case by (simp add: node_over_ok upt_conv_Cons del: upt_Suc)
qed simp

lemma node_leaf_opening_ok:
  "node_leaf H [22] (leaf_opening_to_bytes l) =
   Inr \<lparr>nd_raw = mk_leaf [22] (leaf_opening_to_bytes l), nd_hash = value_hash H (leaf_opening_to_bytes l)\<rparr>"
proof -
  have "leaf_opening_to_bytes l \<noteq> []" using length_leaf_opening_to_bytes [of l] by fastforce
  then show ?thesis by (intro node_leaf_ok) simp_all
qed

lemma build_nodes_too_deep:
  assumes "42 \<le> length (tp_siblings p)" "unat (tp_leaf_index p) < 2 ^ 40"
  shows "trace_proof_build_nodes H p leaf = Inl Panic"
proof -
  have "build_nodes_loop H (leaf_path (tp_leaf_index p)) (length (tp_siblings p)) 0 (tp_siblings p) root [] = Inl Panic" for root
    using assms(1) by (cases "tp_siblings p") (auto simp: index_def leaf_path_def)
  moreover have "drop 41 (leaf_path (tp_leaf_index p)) = [22]" "length (leaf_path (tp_leaf_index p)) = 42"
    by (simp_all add: leaf_path_def)
  ultimately show ?thesis
    by (cases leaf) (simp_all add: trace_proof_build_nodes_def node_leaf_opening_ok get_leaf_path_eq [OF assms(2)])
qed

lemma build_nodes_ok:
  assumes "length (tp_siblings p) = 40" "unat (tp_leaf_index p) < 2 ^ 40"
  shows "(trace_proof_build_nodes H p leaf :: ('e, node list) result) =
    Inr (up_nodes H (proof_leaf H leaf) (zip (rev (leaf_bits (tp_leaf_index p))) (tp_siblings p)))"
proof -
  let ?i = "tp_leaf_index p"
  have dirs: "map (\<lambda>k. leaf_path ?i ! (40 - k)) [0..<40] = rev (leaf_bits ?i)"
  proof (rule nth_equalityI)
    fix k assume "k < length (map (\<lambda>k. leaf_path ?i ! (40 - k)) [0..<40])"
    then show "map (\<lambda>k. leaf_path ?i ! (40 - k)) [0..<40] ! k = rev (leaf_bits ?i) ! k"
      by (simp add: leaf_path_def nth_append rev_nth nth_Cons')
  qed simp
  have "drop 41 (leaf_path ?i) = [22]" "length (leaf_path ?i) = 42" by (simp_all add: leaf_path_def)
  then show ?thesis
    using assms(1) dirs
    by (cases leaf) (simp_all add: build_nodes_loop_ok trace_proof_build_nodes_def proof_leaf_def node_leaf_opening_ok get_leaf_path_eq [OF assms(2)] del: upt_rec_numeral)
qed

text \<open>The state before the access is the trie whose top node the trace names.\<close>

lemma old_top_hash_ok:
  "trace_old_top_hash H tr =
     Inr (branch_hash H (ucast (fst (trace_old_state tr))) (snd (trace_old_state tr)))"
  by (simp add: trace_old_top_hash_def trace_old_top_node_def node_top_node_ok split: prod.split)

end

section \<open>What a proof determines\<close>

text \<open>The nodes that a trace's proof determines: with 40 siblings there are 41 of them, the first is
  the leaf, the hash of the last is the one recomputed from leaf and siblings, and any store that
  holds them leads from that hash along the bits of the leaf's index to the leaf.\<close>

theorem proof_determines_path:
  assumes "trie_hasher H" and "length (tp_siblings p) = 40" "unat (tp_leaf_index p) < 2 ^ 40"
  shows "\<exists>ns. (trace_proof_build_nodes H p leaf :: (zk_error, node list) result) = Inr ns \<and> length ns = 41 \<and> hd ns = proof_leaf H leaf \<and>
    nd_hash (last ns) = proof_hash H (nd_hash (proof_leaf H leaf)) (zip (rev (leaf_bits (tp_leaf_index p))) (tp_siblings p)) \<and>
    (\<forall>V. (\<forall>m\<in>set ns. V (nd_hash m) = Some m) \<longrightarrow>
      walk V (nd_hash (last ns)) (leaf_bits (tp_leaf_index p)) = Some (proof_leaf H leaf))"
proof -
  let ?xs = "zip (rev (leaf_bits (tp_leaf_index p))) (tp_siblings p)"
  let ?ns = "up_nodes H (proof_leaf H leaf) ?xs"
  have bits: "rev (map fst ?xs) = leaf_bits (tp_leaf_index p)" using assms(2) by simp
  have "walk V (nd_hash (last ?ns)) (leaf_bits (tp_leaf_index p)) = Some (proof_leaf H leaf)"
    if V: "\<forall>m\<in>set ?ns. V (nd_hash m) = Some m" for V
    using walk_up_nodes [OF V, of "[]"] V hd_up_nodes [of "proof_leaf H leaf" H ?xs]
    unfolding bits by simp
  moreover have "hd ?ns = proof_leaf H leaf"
    by (cases ?xs) auto
  ultimately show ?thesis
    using trie_hasher.build_nodes_ok [OF assms] assms(2)
    by (intro exI [of _ ?ns]) (auto simp: last_up_nodes)
qed

theorem proof_determines_path_witness:
  "\<exists>ns. (trace_proof_build_nodes (mimc_sum mont_ff (\<lambda>_. 7)) \<lparr>tp_leaf_index = 6, tp_siblings = replicate 40 0\<rparr> (Some leaf_opening_head)
     :: (zk_error, node list) result) = Inr ns \<and> length ns = 41"
  using proof_determines_path [OF mimc.trie_hasher_axioms, of "\<lparr>tp_leaf_index = 6, tp_siblings = replicate 40 0\<rparr>" "\<lambda>_. 7" "Some leaf_opening_head"]
  by auto

end
