(* ===== verification/Mem_Store.thy ===== *)
theory Mem_Store
  imports Zk_Trie_Runs Zk_Trace
begin

text \<open>
  The in-memory store of nodes, key ranges and codes: \<open>src/common/zktrie/src/storage.rs\<close>.
  \<open>PrefixDB\<close> is the store seen with the address prefix of an account's storage; it is the one
  implementation of the trait \<open>Database\<close>. Maps are \<open>BTreeMap\<close>s; the lazily built static map
  \<open>EMPTY_TRIE_NODE\<close> answers before the store's own nodes.
\<close>

section \<open>State\<close>

type_synonym level_map = "sh256 \<rightharpoonup> (u64 \<times> sh256 \<rightharpoonup> key_range)"

record mem_store =
  ms_nodes :: "sh256 \<rightharpoonup> node"
  ms_index :: level_map
  ms_staging :: "sh256 \<rightharpoonup> flattened_leaf"
  ms_codes :: "sh256 \<rightharpoonup> bytes"

definition mem_store_new :: mem_store where
  "mem_store_new = \<lparr>ms_nodes = Map.empty, ms_index = Map.empty, ms_staging = Map.empty, ms_codes = Map.empty\<rparr>"

section \<open>Building a store from traces\<close>

definition u64_max_value :: u64 where
  "u64_max_value = - 1"

definition level_map_new :: level_map where
  [simp]: "level_map_new = Map.empty"

definition level_map_insert :: "level_map \<Rightarrow> sh256 \<Rightarrow> u64 \<times> sh256 \<Rightarrow> key_range \<Rightarrow> level_map" where
  "level_map_insert m root k r =
     m(root \<mapsto> (case m root of Some inner \<Rightarrow> inner | None \<Rightarrow> Map.empty)(k \<mapsto> r))"

text \<open>The loop body runs before the test of the bound, so an empty list panics.\<close>

fun level_map_loop :: "hasher \<Rightarrow> trace list \<Rightarrow> level_map \<Rightarrow> (zk_error, level_map) result" where
  "level_map_loop H [] base = Inr base"
| "level_map_loop H (tr # traces) base =
     bind_result (trace_old_top_hash H tr) (\<lambda>top_hash.
     bind_result (trie_hash H (trace_key tr)) (\<lambda>hkey.
       level_map_loop H traces (level_map_insert base top_hash (u64_max_value, hkey) (trace_key_range tr))))"

definition level_map_from_traces :: "hasher \<Rightarrow> trace list \<Rightarrow> (zk_error, level_map) result" where
  "level_map_from_traces H traces =
     (if traces = [] then Inl Panic else level_map_loop H traces level_map_new)"

definition insert_nodes :: "node list \<Rightarrow> (sh256 \<rightharpoonup> node) \<Rightarrow> (sh256 \<rightharpoonup> node)" where
  "insert_nodes ns m = fold (\<lambda>n m. m(nd_hash n \<mapsto> n)) ns m"

fun trace_nodes_loop :: "hasher \<Rightarrow> trace list \<Rightarrow> (sh256 \<rightharpoonup> node) \<Rightarrow> ('e, sh256 \<rightharpoonup> node) result" where
  "trace_nodes_loop H [] n = Inr n"
| "trace_nodes_loop H (tr # traces) n =
     (case trace_old_state tr of (next_free_node, sub_root) \<Rightarrow>
      bind_result (node_next_free_node H next_free_node) (\<lambda>next_free_node.
      bind_result (node_raw_branch H (nd_hash next_free_node) sub_root) (\<lambda>root.
      bind_result (trace_to_nodes H tr) (\<lambda>nodes.
        trace_nodes_loop H traces
          (insert_nodes nodes (n(nd_hash root \<mapsto> root, nd_hash next_free_node \<mapsto> next_free_node)))))))"

definition trace_nodes :: "hasher \<Rightarrow> trace list \<Rightarrow> ('e, sh256 \<rightharpoonup> node) result" where
  "trace_nodes H traces = trace_nodes_loop H traces Map.empty"

definition mem_store_from_traces :: "hasher \<Rightarrow> trace list \<Rightarrow> (zk_error, mem_store) result" where
  "mem_store_from_traces H traces =
     bind_result (trace_nodes H traces) (\<lambda>nodes.
     bind_result (level_map_from_traces H traces) (\<lambda>idx.
       Inr \<lparr>ms_nodes = nodes, ms_index = idx, ms_staging = Map.empty, ms_codes = Map.empty\<rparr>))"

section \<open>Operations\<close>

definition mem_add_codes :: "keccak \<Rightarrow> bytes list \<Rightarrow> mem_store \<Rightarrow> mem_store" where
  "mem_add_codes K codes s =
     fold (\<lambda>code s. s\<lparr>ms_codes := (ms_codes s)(K code \<mapsto> code)\<rparr>) codes s"

definition mem_get_code :: "sh256 \<Rightarrow> mem_store \<Rightarrow> bytes option \<times> mem_store" where
  "mem_get_code h s = (ms_codes s h, s)"

definition mem_get_node :: "hasher \<Rightarrow> mem_store \<Rightarrow> sh256 \<Rightarrow> (zk_error, node option) result" where
  "mem_get_node H s key =
     bind_result (empty_trie_node H) (\<lambda>m.
       case m key of Some n \<Rightarrow> Inr (Some n) | None \<Rightarrow> Inr (ms_nodes s key))"

definition mem_update_node :: "sh256 \<Rightarrow> node \<Rightarrow> (mem_store, zk_error, node) comp" where
  "mem_update_node key n s = (Inr n, s\<lparr>ms_nodes := (ms_nodes s)(key \<mapsto> n)\<rparr>)"

definition mem_update_index :: "sh256 \<Rightarrow> flattened_leaf \<Rightarrow> mem_store \<Rightarrow> mem_store" where
  "mem_update_index k v s = s\<lparr>ms_staging := (ms_staging s)(k \<mapsto> v)\<rparr>"

definition mem_remove_index :: "sh256 \<Rightarrow> mem_store \<Rightarrow> mem_store" where
  "mem_remove_index k s = s\<lparr>ms_staging := (ms_staging s)(k := None)\<rparr>"

definition mem_get_nearest_keys :: "u64 \<Rightarrow> mem_store \<Rightarrow> sh256 \<Rightarrow> sh256 \<Rightarrow> (zk_error, key_range) result" where
  "mem_get_nearest_keys prefix s root k =
     (case ms_index s root of
        Some m \<Rightarrow> (case m (prefix, k) of Some r \<Rightarrow> Inr r | None \<Rightarrow> Inl Panic)
      | None \<Rightarrow> Inl Panic)"

definition prefix_db :: "hasher \<Rightarrow> u64 \<Rightarrow> mem_store database" where
  "prefix_db H prefix = \<lparr>
     db_get_node = mem_get_node H,
     db_update_node = mem_update_node,
     db_get_nearest_keys = mem_get_nearest_keys prefix,
     db_update_index = mem_update_index,
     db_remove_index = mem_remove_index,
     db_get_code = mem_get_code\<rparr>"

text \<open>
  The loop of \<open>add_proof\<close> over the siblings, from the leaf's sibling (number 40) up to number 1.
\<close>

fun add_proof_loop ::
  "hasher \<Rightarrow> bytes \<Rightarrow> bytes list \<Rightarrow> nat \<Rightarrow> nat \<Rightarrow> sh256 \<Rightarrow> node list \<Rightarrow> (zk_error, sh256 \<times> node list) result" where
  "add_proof_loop H trie_path siblings sibling_leaf_idx 0 leaf_hash out = Inr (leaf_hash, out)"
| "add_proof_loop H trie_path siblings sibling_leaf_idx (Suc i) leaf_hash out =
     bind_result (index siblings (Suc i)) (\<lambda>sibling_bytes.
     bind_result (if Suc i = sibling_leaf_idx
                  then Inr (parse_leaf [trie_path ! (length trie_path - 1)] sibling_bytes)
                  else parse_branch sibling_bytes) (\<lambda>sibling_value.
     bind_result (node_new H sibling_value) (\<lambda>sibling.
     bind_result (index trie_path (Suc i)) (\<lambda>dir.
     bind_result (node_raw_branch_auto H dir leaf_hash (nd_hash sibling)) (\<lambda>leaf.
       add_proof_loop H trie_path siblings sibling_leaf_idx i (nd_hash leaf) (out @ [sibling, leaf]))))))"

definition add_proof_nodes ::
  "hasher \<Rightarrow> u64 \<Rightarrow> bytes list \<Rightarrow> (zk_error, node \<times> node list) result" where
  "add_proof_nodes H leaf_index siblings =
     bind_result (get_leaf_path leaf_index) (\<lambda>trie_path.
     bind_result (if length siblings = length trie_path then Inr () else Inl Panic) (\<lambda>_.
     bind_result (bind_result (parse_root (siblings ! 0)) (node_new H)) (\<lambda>root.
     let leaf_value = siblings ! (length siblings - 1);
         siblings = take (length siblings - 1) siblings in
     bind_result (node_new H (parse_leaf [trie_path ! (length trie_path - 1)] leaf_value)) (\<lambda>leaf.
     bind_result (add_proof_loop H trie_path siblings (length siblings - 1) (length siblings - 1) (nd_hash leaf) [])
       (\<lambda>(leaf_hash, out).
     bind_result (unwrap_option (node_value_branch (nd_raw root))) (\<lambda>b.
       if leaf_hash \<noteq> br_right b then Inl (Fail InvalidProof) else Inr (root, out @ [root])))))))"

text \<open>\<open>or_insert_with\<close> evaluates \<open>value.unwrap()\<close> only when the entry is vacant.\<close>

definition mem_add_proof ::
  "hasher \<Rightarrow> u64 \<Rightarrow> u64 \<Rightarrow> sh256 \<Rightarrow> bytes option \<Rightarrow> bytes list \<Rightarrow> (mem_store, zk_error, sh256) comp" where
  "mem_add_proof H prefix leaf_index hkey value siblings =
     bindc (lift_result (add_proof_nodes H leaf_index siblings)) (\<lambda>(root, out).
     bindc (modifyc (\<lambda>s. s\<lparr>ms_nodes := insert_nodes out (ms_nodes s)\<rparr>)) (\<lambda>_.
     let root_hash = nd_hash root in
     bindc (modifyc (\<lambda>s. s\<lparr>ms_index := (ms_index s)(root_hash \<mapsto>
              (case ms_index s root_hash of Some m \<Rightarrow> m | None \<Rightarrow> Map.empty))\<rparr>)) (\<lambda>_.
     bindc (\<lambda>s. case ms_index s root_hash of
              Some m \<Rightarrow> (case m (prefix, hkey) of
                  Some _ \<Rightarrow> (Inr (), s)
                | None \<Rightarrow> (case value of
                    Some v \<Rightarrow> (Inr (), s\<lparr>ms_index := level_map_insert (ms_index s) root_hash (prefix, hkey)
                       \<lparr>kr_left_index = 0, kr_center = Some \<lparr>fl_leaf_index = leaf_index, fl_leaf_value = v\<rparr>,
                        kr_right_index = 0\<rparr>\<rparr>)
                  | None \<Rightarrow> (Inl Panic, s)))
            | None \<Rightarrow> (Inr (), s)) (\<lambda>_.
       returnc root_hash))))"

section \<open>The store has the contract of a node store\<close>

definition mem_view :: "hasher \<Rightarrow> mem_store \<Rightarrow> sh256 \<rightharpoonup> node" where
  "mem_view H s = ms_nodes s ++ empty_nodes H"

context trie_hasher begin

lemma mem_get_node_view: "mem_get_node H s h = Inr (mem_view H s h)"
  by (simp add: mem_get_node_def empty_trie_node_ok mem_view_def map_add_def split: option.split)

lemma prefix_node_db: "node_db (prefix_db H p) (mem_view H)"
  by unfold_locales
    (auto simp: prefix_db_def mem_get_node_view mem_update_node_def mem_update_index_def mem_remove_index_def
      mem_view_def map_add_def split: option.splits)

lemma prefix_trie_db: "trie_db H (prefix_db H p) (mem_view H)"
  by (intro trie_db.intro prefix_node_db trie_hasher_axioms)

lemma mem_view_empty: "empty_nodes H \<subseteq>\<^sub>m mem_view H s"
  by (simp add: mem_view_def)

end

sublocale trie_hasher \<subseteq> prefix: trie_db H "prefix_db H p" "mem_view H" for p
  by (rule prefix_trie_db)

interpretation mimc_node_store: node_db "prefix_db (mimc_sum mont_ff K) p" "mem_view (mimc_sum mont_ff K)" for K p
  by (rule mimc.prefix_node_db)

interpretation mimc_trie_store: trie_db "mimc_sum mont_ff K" "prefix_db (mimc_sum mont_ff K) p"
  "mem_view (mimc_sum mont_ff K)" for K p
  by (rule mimc.prefix_trie_db)


section \<open>Merkle proofs\<close>

definition leaf_value_ok :: "bytes \<Rightarrow> bool" where
  "leaf_value_ok v \<longleftrightarrow> 32 dvd length v \<and> v \<noteq> []"

text \<open>The siblings of a complete proof, from the root down to the leaf.\<close>

definition wf_siblings :: "bytes list \<Rightarrow> bool" where
  "wf_siblings siblings \<longleftrightarrow> length siblings = 42 \<and> (\<forall>j<40. length (siblings ! j) = 64) \<and>
     leaf_value_ok (siblings ! 40) \<and> leaf_value_ok (siblings ! 41)"

text \<open>The node that a sibling's bytes stand for: a leaf next to the leaf, a branch above.\<close>

definition sibling_node :: "hasher \<Rightarrow> bool \<Rightarrow> bytes \<Rightarrow> node" where
  "sibling_node H bottom bs =
     \<lparr>nd_raw = (if bottom then mk_leaf [22] bs else mk_branch (word_of_bytes (take 32 bs)) (word_of_bytes (drop 32 bs))),
      nd_hash = value_hash H bs\<rparr>"

fun proof_out :: "hasher \<Rightarrow> sh256 \<Rightarrow> (byte \<times> node) list \<Rightarrow> node list" where
  "proof_out H h [] = []"
| "proof_out H h ((d, n) # xs) =
     n # branch_over H d h (nd_hash n) # proof_out H (nd_hash (branch_over H d h (nd_hash n))) xs"

definition proof_siblings :: "hasher \<Rightarrow> bytes \<Rightarrow> bytes list \<Rightarrow> nat \<Rightarrow> (byte \<times> node) list" where
  "proof_siblings H path siblings k =
     map (\<lambda>j. (path ! j, sibling_node H (j = 40) (siblings ! j))) (rev [1..<Suc k])"

lemma proof_siblings_Suc:
  "proof_siblings H path siblings (Suc k) =
     (path ! Suc k, sibling_node H (Suc k = 40) (siblings ! Suc k)) # proof_siblings H path siblings k"
  by (simp add: proof_siblings_def)

lemma proof_siblings_0 [simp]: "proof_siblings H path siblings 0 = []"
  by (simp add: proof_siblings_def)

context trie_hasher begin

lemma node_raw_branch_auto_ok:
  "node_raw_branch_auto H d h s = Inr (branch_over H d h s)"
  by (simp add: node_raw_branch_auto_def node_raw_branch_ok branch_over_def)

lemma parse_branch_new:
  assumes "length bs = 64"
  shows "parse_branch bs = Inr (nd_raw (sibling_node H False bs))"
    "node_new H (nd_raw (sibling_node H False bs)) = Inr (sibling_node H False bs)"
proof -
  have lens: "length (take 32 bs) = 32" "length (drop 32 bs) = 32" using assms by simp_all
  show "parse_branch bs = Inr (nd_raw (sibling_node H False bs))"
    using assms by (simp add: parse_branch_def sh256_from_slice_def sibling_node_def)
  have "word_bytes (word_of_bytes (take 32 bs)) @ word_bytes (word_of_bytes (drop 32 bs)) = bs"
    by (simp only: word_bytes_word_of_bytes lens append_take_drop_id)
  then show "node_new H (nd_raw (sibling_node H False bs)) = Inr (sibling_node H False bs)"
    by (simp add: sibling_node_def node_new_branch_ok branch_hash_def value_hash_def)
qed

lemma parse_leaf_new:
  assumes "leaf_value_ok bs"
  shows "node_new H (parse_leaf [22] bs) = Inr (sibling_node H True bs)"
  using assms by (simp add: leaf_value_ok_def node_new_def parse_leaf_def node_value_hash_def
      node_value_to_bytes_def hash_ok sibling_node_def)

lemma add_proof_loop_ok:
  assumes "k < length path" "k < length siblings" "last path = 22" "k \<le> 40"
    and "\<forall>j. 1 \<le> j \<and> j \<le> k \<and> j < 40 \<longrightarrow> length (siblings ! j) = 64"
    and "k = 40 \<longrightarrow> leaf_value_ok (siblings ! 40)"
  shows "add_proof_loop H path siblings 40 k h out =
    Inr (proof_hash H h (map (apsnd nd_hash) (proof_siblings H path siblings k)),
         out @ proof_out H h (proof_siblings H path siblings k))"
  using assms
proof (induction k arbitrary: h out)
  case (Suc k)
  have last: "path ! (length path - Suc 0) = 22"
    using Suc.prems(1,3) last_conv_nth [of path] by (cases path) auto
  show ?case
  proof (cases "Suc k = 40")
    case True
    then have "leaf_value_ok (siblings ! 40)" using Suc.prems(6) by simp
    then show ?thesis
      using Suc.prems Suc.IH last True
      unfolding add_proof_loop.simps(2) proof_siblings_Suc
      by (simp add: node_raw_branch_auto_ok proof_siblings_Suc nd_hash_branch_over parse_leaf_new)
  next
    case False
    then have "length (siblings ! Suc k) = 64" using Suc.prems(4,5) by simp
    then show ?thesis
      using Suc.prems Suc.IH last False
      by (simp add: node_raw_branch_auto_ok proof_siblings_Suc nd_hash_branch_over parse_branch_new)
  qed
qed simp

text \<open>
  A proof with well-formed siblings is accepted exactly when the hash recomputed from the leaf is
  the sub root that its first entry names.
\<close>

lemma add_proof_nodes_ok:
  assumes "wf_siblings siblings" "unat idx < 2 ^ 40"
  defines "ps \<equiv> proof_siblings H (leaf_path idx) siblings 40"
  shows "add_proof_nodes H idx siblings =
    (if proof_hash H (value_hash H (siblings ! 41)) (map (apsnd nd_hash) ps) = word_of_bytes (drop 32 (siblings ! 0))
     then Inr (sibling_node H False (siblings ! 0),
       proof_out H (value_hash H (siblings ! 41)) ps @ [sibling_node H False (siblings ! 0)])
     else Inl (Fail InvalidProof))"
proof -
  note wf = assms(1) [unfolded wf_siblings_def]
  have path: "length (leaf_path idx) = 42" "leaf_path idx ! 41 = 22" "last (leaf_path idx) = 22"
    by (simp_all add: leaf_path_def nth_append)
  have same: "proof_siblings H (leaf_path idx) (take 41 siblings) 40 = ps"
    by (simp add: ps_def proof_siblings_def)
  have root: "bind_result (parse_root (siblings ! 0)) (node_new H) = Inr (sibling_node H False (siblings ! 0))"
    using wf parse_branch_new [of "siblings ! 0"] by (simp add: parse_root_def parse_branch_def)
  have loop: "add_proof_loop H (leaf_path idx) (take 41 siblings) 40 40 h [] =
      Inr (proof_hash H h (map (apsnd nd_hash) ps), proof_out H h ps)" for h
    using add_proof_loop_ok [of 40 "leaf_path idx" "take 41 siblings"] wf path same by simp
  have leaf: "node_new H (parse_leaf [22] (siblings ! 41)) = (Inr (sibling_node H True (siblings ! 41)) :: (zk_error, node) result)"
    using wf by (intro parse_leaf_new) simp
  show ?thesis
    using wf root path leaf
    by (simp add: add_proof_nodes_def get_leaf_path_eq [OF assms(2)] Let_def loop sibling_node_def)
qed

end

text \<open>What an accepted proof does to the store.\<close>

definition proof_entry :: "u64 \<Rightarrow> bytes \<Rightarrow> key_range" where
  "proof_entry leaf_index v = \<lparr>kr_left_index = 0,
     kr_center = Some \<lparr>fl_leaf_index = leaf_index, fl_leaf_value = v\<rparr>, kr_right_index = 0\<rparr>"

definition level_map_get :: "level_map \<Rightarrow> sh256 \<Rightarrow> u64 \<times> sh256 \<Rightarrow> key_range option" where
  "level_map_get m root k = (case m root of Some inner \<Rightarrow> inner k | None \<Rightarrow> None)"

lemma level_map_get_insert:
  "level_map_get (level_map_insert m root k r) root' k' =
     (if root' = root \<and> k' = k then Some r else level_map_get m root' k')"
  by (simp add: level_map_get_def level_map_insert_def split: option.split)

lemma nearest_keys_get:
  "mem_get_nearest_keys prefix s root k =
     (case level_map_get (ms_index s) root (prefix, k) of Some r \<Rightarrow> Inr r | None \<Rightarrow> Inl Panic)"
  by (simp add: mem_get_nearest_keys_def level_map_get_def split: option.split)

lemma mem_add_proof_accepted:
  assumes "add_proof_nodes H idx siblings = Inr (root, out)" and v: "value = Some v"
  shows "\<exists>s'. mem_add_proof H prefix idx hkey value siblings s = (Inr (nd_hash root), s') \<and>
    ms_nodes s' = insert_nodes out (ms_nodes s) \<and> ms_codes s' = ms_codes s \<and> ms_staging s' = ms_staging s \<and>
    (\<forall>r k. level_map_get (ms_index s') r k =
      (if r = nd_hash root \<and> k = (prefix, hkey) \<and> level_map_get (ms_index s) r k = None
       then Some (proof_entry idx v) else level_map_get (ms_index s) r k))"
  using assms
  by (auto simp: mem_add_proof_def Let_def level_map_get_def level_map_insert_def proof_entry_def bindc_def
      split: option.split)

lemma mem_add_proof_rejected:
  assumes "add_proof_nodes H idx siblings = Inl e"
  shows "mem_add_proof H prefix idx hkey value siblings s = (Inl e, s)"
  using assms by (simp add: mem_add_proof_def)

lemma mem_add_proof_no_value:
  assumes "add_proof_nodes H idx siblings = Inr (root, out)" "level_map_get (ms_index s) (nd_hash root) (prefix, hkey) = None"
  shows "fst (mem_add_proof H prefix idx hkey None siblings s) = Inl Panic"
  using assms
  by (auto simp: mem_add_proof_def Let_def level_map_get_def bindc_def split: option.splits)

section \<open>Inserted nodes\<close>

lemma insert_nodes_Nil [simp]: "insert_nodes [] m = m"
  by (simp add: insert_nodes_def)

lemma insert_nodes_Cons [simp]: "insert_nodes (n # ns) m = insert_nodes ns (m(nd_hash n \<mapsto> n))"
  by (simp add: insert_nodes_def)

lemma insert_nodes_append: "insert_nodes (ns @ ms) m = insert_nodes ms (insert_nodes ns m)"
  by (simp add: insert_nodes_def)

lemma insert_nodes_other: "h \<notin> nd_hash ` set ns \<Longrightarrow> insert_nodes ns m h = m h"
  by (induction ns arbitrary: m) auto

lemma insert_nodes_in:
  "inj_on nd_hash (set ns) \<Longrightarrow> n \<in> set ns \<Longrightarrow> insert_nodes ns m (nd_hash n) = Some n"
proof (induction ns arbitrary: m)
  case (Cons k ns)
  show ?case
  proof (cases "n \<in> set ns")
    case True
    then show ?thesis using Cons by (simp add: inj_on_def)
  next
    case False
    then have "nd_hash n \<notin> nd_hash ` set ns" "n = k"
      using Cons.prems by (auto simp: inj_on_def)
    then show ?thesis by (simp add: insert_nodes_other)
  qed
qed simp

text \<open>Nodes without clashes, also with the static ones, are what the store shows.\<close>

lemma mem_view_inserted:
  assumes "ms_nodes s = insert_nodes ns m" "inj_on nd_hash (set ns \<union> ran (empty_nodes H))" "n \<in> set ns"
  shows "mem_view H s (nd_hash n) = Some n"
proof (cases "empty_nodes H (nd_hash n)")
  case None
  have "inj_on nd_hash (set ns)" using assms(2) by (rule inj_on_subset) simp
  then show ?thesis
    using None assms(1,3) by (simp add: mem_view_def map_add_def insert_nodes_in)
next
  case (Some k)
  then have "k \<in> ran (empty_nodes H)" "nd_hash k = nd_hash n"
    by (auto simp: ran_def dest: empty_nodes_hash)
  then have "k = n" using assms(2,3) by (auto dest: inj_onD)
  then show ?thesis using Some by (simp add: mem_view_def map_add_def)
qed

section \<open>Walks over the nodes of a proof\<close>

fun walk_hash :: "(sh256 \<rightharpoonup> node) \<Rightarrow> sh256 \<Rightarrow> bytes \<Rightarrow> sh256 option" where
  "walk_hash V h [] = Some h"
| "walk_hash V h (b # bs) =
     (case V h of
        Some n \<Rightarrow> (case nd_raw n of
            Branch br \<Rightarrow> walk_hash V (if b = 0 then br_left br else br_right br) bs
          | _ \<Rightarrow> None)
      | None \<Rightarrow> None)"

lemma walk_via_hash: "walk V h bs = Option.bind (walk_hash V h bs) V"
  by (induction V h bs rule: walk_hash.induct) (auto split: option.splits node_value.splits)

lemma walk_hash_proof_out:
  assumes "\<forall>m \<in> set (proof_out H h ps). V (nd_hash m) = Some m"
  shows "walk_hash V (proof_hash H h (map (apsnd nd_hash) ps)) (rev (map fst ps) @ q) = walk_hash V h q"
  using assms
proof (induction H h ps arbitrary: q rule: proof_out.induct)
  case (2 H h d n ps)
  let ?m = "branch_over H d h (nd_hash n)"
  have "walk_hash V (proof_hash H (nd_hash ?m) (map (apsnd nd_hash) ps)) (rev (map fst ps) @ (d # q)) =
      walk_hash V (nd_hash ?m) (d # q)"
    using 2 by (intro 2(1)) simp
  moreover have "walk_hash V (nd_hash ?m) (d # q) = walk_hash V h q"
    using 2(2) by (cases "d = 0") (simp_all add: branch_over_def)
  ultimately show ?case by (simp add: nd_hash_branch_over)
qed simp

context node_db begin

lemma get_node_loop_missing_walk:
  assumes "walk_hash (view s) h bs = Some h'" "view s h' = None" "drop i path = bs @ rest" "i + length bs < 42"
  shows "smt_get_node_loop D s path i h = Inl (Fail (NodeNotFound (i + length bs) h'))"
  using assms
proof (induction bs arbitrary: i h)
  case Nil
  then show ?case by (simp add: get_node_loop_missing)
next
  case (Cons b bs)
  from Cons.prems(1) obtain m br where m: "view s h = Some m" "nd_raw m = Branch br"
    "walk_hash (view s) (if b = 0 then br_left br else br_right br) bs = Some h'"
    by (auto split: option.splits node_value.splits)
  note sp = split_path [of i path b "bs @ rest"]
  show ?case
    using Cons.IH [OF m(3) Cons.prems(2)] Cons.prems(3,4) m(1,2) sp
    by (subst smt_get_node_loop.simps) (simp add: get_node zk_trie_depth_def)
qed

end

context trie_hasher begin

text \<open>
  After an accepted proof the store has every node on the way to the leaf, and does not have the
  leaf: reading it by its path ends with \<open>NodeNotFound\<close> at the last level.
\<close>

lemma add_proof_leaf_missing:
  assumes out: "add_proof_nodes H idx siblings = Inr (root, out)"
    and wf: "wf_siblings siblings" "unat idx < 2 ^ 40"
    and s: "ms_nodes s = insert_nodes out m"
    and inj: "inj_on nd_hash (set out \<union> ran (empty_nodes H))"
    and fresh: "mem_view H s (value_hash H (siblings ! 41)) = None"
  shows "smt_get_node (prefix_db H prefix) (smt_new (nd_hash root)) s (leaf_path idx) =
    Inl (Fail (NodeNotFound 41 (value_hash H (siblings ! 41))))"
proof -
  let ?ps = "proof_siblings H (leaf_path idx) siblings 40" and ?h = "value_hash H (siblings ! 41)"
  have eq: "proof_hash H ?h (map (apsnd nd_hash) ?ps) = word_of_bytes (drop 32 (siblings ! 0))"
    "root = sibling_node H False (siblings ! 0)" "out = proof_out H ?h ?ps @ [root]"
    using out by (auto simp: add_proof_nodes_ok [OF wf] split: if_splits)
  have V: "\<forall>n\<in>set out. mem_view H s (nd_hash n) = Some n"
    using mem_view_inserted [OF s inj] by blast
  have dirs: "rev (map fst ?ps) = leaf_bits idx"
  proof -
    have "map (\<lambda>j. leaf_path idx ! j) [1..<Suc 40] = leaf_bits idx"
      by (rule nth_equalityI) (simp_all add: leaf_path_def nth_append)
    then show ?thesis by (simp add: proof_siblings_def rev_map o_def del: upt_Suc upt_rec_numeral)
  qed
  have "walk_hash (mem_view H s) (nd_hash root) (1 # leaf_bits idx) = walk_hash (mem_view H s) ?h []"
    using V eq walk_hash_proof_out [of H ?h ?ps "mem_view H s" "[]"] dirs
    by (simp add: sibling_node_def)
  then show ?thesis
    using prefix.get_node_loop_missing_walk [of s "nd_hash root" "1 # leaf_bits idx" ?h 0 "leaf_path idx" "[22]" prefix] fresh
    by (simp add: smt_get_node_def smt_new_def leaf_path_def del: walk_hash.simps(2))
qed

end

text \<open>The nodes of a proof are branches and siblings, so the leaf that it proves is not among them.\<close>

lemma leaf_not_in_proof_out:
  "\<forall>n\<in>set (map snd ps). n \<noteq> sibling_node H True bs \<Longrightarrow> sibling_node H True bs \<notin> set (proof_out H h ps)"
  by (induction H h ps rule: proof_out.induct) (auto simp: branch_over_def sibling_node_def)

lemma proved_leaf_not_added:
  assumes "siblings ! 40 \<noteq> siblings ! 41"
  shows "sibling_node H True (siblings ! 41) \<notin> set (proof_out H h (proof_siblings H path siblings 40))"
  using assms by (intro leaf_not_in_proof_out) (auto simp: proof_siblings_def sibling_node_def)

lemma mem_add_proof_InrD:
  assumes "mem_add_proof H p idx hkey v siblings s = (Inr h, s')"
  obtains root out where "add_proof_nodes H idx siblings = Inr (root, out)" "h = nd_hash root"
    "ms_nodes s' = insert_nodes out (ms_nodes s)"
  using assms
  by (auto simp: mem_add_proof_def bindc_def Let_def split: sum.splits option.splits if_splits)

text \<open>A hash that the store did not know is still unknown when no node of the proof has it.\<close>

lemma mem_view_not_inserted:
  assumes "ms_nodes s' = insert_nodes ns (ms_nodes s)" "mem_view H s (nd_hash n) = None"
    and "inj_on nd_hash (insert n (set ns))" "n \<notin> set ns"
  shows "mem_view H s' (nd_hash n) = None"
proof -
  have "nd_hash n \<notin> nd_hash ` set ns" using assms(3,4) by (auto simp: inj_on_def)
  then show ?thesis using assms(1,2) by (simp add: mem_view_def insert_nodes_other)
qed

section \<open>A store built from traces\<close>

text \<open>The hash of a trace's key, and the top hash of the trie before the access.\<close>

definition trace_hkey :: "hasher \<Rightarrow> trace \<Rightarrow> sh256" where
  "trace_hkey H tr = projr (trie_hash H (trace_key tr))"

definition trace_top :: "hasher \<Rightarrow> trace \<Rightarrow> sh256" where
  "trace_top H tr = branch_hash H (ucast (fst (trace_old_state tr))) (snd (trace_old_state tr))"

context trie_hasher begin

lemma level_map_loop_ok:
  assumes "\<forall>tr\<in>set traces. \<exists>k. trie_hash H (trace_key tr) = Inr k"
  shows "\<exists>m. level_map_loop H traces base = Inr m \<and>
    (\<forall>r p k. level_map_get m r (p, k) =
      (case find (\<lambda>tr. trace_top H tr = r \<and> trace_hkey H tr = k \<and> p = u64_max_value) (rev traces) of
         Some tr \<Rightarrow> Some (trace_key_range tr) | None \<Rightarrow> level_map_get base r (p, k)))"
  using assms
proof (induction traces arbitrary: base)
  case (Cons tr traces)
  have key: "trie_hash H (trace_key tr) = Inr (trace_hkey H tr)"
    using Cons.prems by (auto simp: trace_hkey_def)
  let ?base = "level_map_insert base (trace_top H tr) (u64_max_value, trace_hkey H tr) (trace_key_range tr)"
  obtain m where m: "level_map_loop H traces ?base = Inr m"
    "\<forall>r p k. level_map_get m r (p, k) =
      (case find (\<lambda>tr. trace_top H tr = r \<and> trace_hkey H tr = k \<and> p = u64_max_value) (rev traces) of
         Some tr \<Rightarrow> Some (trace_key_range tr) | None \<Rightarrow> level_map_get ?base r (p, k))"
    using Cons.IH [of ?base] Cons.prems by auto
  have app: "find P (xs @ [x]) = (case find P xs of Some y \<Rightarrow> Some y | None \<Rightarrow> if P x then Some x else None)" for P xs and x :: trace
    by (induction xs) auto
  have "level_map_loop H (tr # traces) base = Inr m"
    using m(1) by (simp add: old_top_hash_ok key trace_top_def)
  moreover have "level_map_get m r (p, k) =
      (case find (\<lambda>tr. trace_top H tr = r \<and> trace_hkey H tr = k \<and> p = u64_max_value) (rev (tr # traces)) of
         Some tr \<Rightarrow> Some (trace_key_range tr) | None \<Rightarrow> level_map_get base r (p, k))" for r p k
    by (auto simp: m(2) app level_map_get_insert split: option.split)
  ultimately show ?case by blast
qed simp

end


text \<open>The proofs in a trace, with the leaf each is about (none for the empty slot of an insertion).\<close>

fun trace_proofs :: "trace \<Rightarrow> (trace_proof \<times> leaf_opening option) list" where
  "trace_proofs (Trace_Update n) = [(ut_proof n, Some (ut_prior_updated_leaf n))]"
| "trace_proofs (Trace_Insertion n) =
     [(it_left_proof n, Some (it_prior_left_leaf n)), (it_new_proof n, None),
      (it_right_proof n, Some (it_prior_right_leaf n))]"
| "trace_proofs (Trace_Deletion n) =
     [(dt_left_proof n, Some (dt_prior_left_leaf n)), (dt_delete_proof n, Some (dt_prior_delete_leaf n)),
      (dt_right_proof n, Some (dt_prior_right_leaf n))]"
| "trace_proofs (Trace_Read n) = []"
| "trace_proofs (Trace_ReadZero n) = []"

definition wf_trace :: "trace \<Rightarrow> bool" where
  "wf_trace tr \<longleftrightarrow> list_all (\<lambda>(p, l). length (tp_siblings p) = 40 \<and> unat (tp_leaf_index p) < 2 ^ 40) (trace_proofs tr)"

definition proof_nodes :: "hasher \<Rightarrow> trace_proof \<times> leaf_opening option \<Rightarrow> node list" where
  "proof_nodes H = (\<lambda>(p, l). up_nodes H (proof_leaf H l) (zip (rev (leaf_bits (tp_leaf_index p))) (tp_siblings p)))"

definition proof_root :: "hasher \<Rightarrow> trace_proof \<times> leaf_opening option \<Rightarrow> sh256" where
  "proof_root H = (\<lambda>(p, l). proof_hash H (nd_hash (proof_leaf H l)) (zip (rev (leaf_bits (tp_leaf_index p))) (tp_siblings p)))"

definition next_free_value :: "u64 \<Rightarrow> bytes" where
  "next_free_value i = replicate 24 0 @ u64_bytes i"

definition trace_stored :: "hasher \<Rightarrow> trace \<Rightarrow> node list" where
  "trace_stored H tr =
     (let nf = next_free_value (fst (trace_old_state tr)); hf = value_hash H nf in
      [\<lparr>nd_raw = mk_branch hf (snd (trace_old_state tr)), nd_hash = branch_hash H hf (snd (trace_old_state tr))\<rparr>,
       \<lparr>nd_raw = new_next_free nf, nd_hash = hf\<rparr>] @ concat (map (proof_nodes H) (trace_proofs tr)))"

context trie_hasher begin

lemma next_free_node_ok:
  "node_next_free_node H i = Inr \<lparr>nd_raw = new_next_free (next_free_value i), nd_hash = value_hash H (next_free_value i)\<rparr>"
  by (simp add: node_next_free_node_def node_new_def node_value_hash_def new_next_free_def
      node_value_to_bytes_def hash_ok next_free_value_def)

lemma trace_to_nodes_ok:
  assumes "wf_trace tr"
  shows "trace_to_nodes H tr = Inr (concat (map (proof_nodes H) (trace_proofs tr)))"
  using assms by (cases tr) (simp_all add: wf_trace_def build_nodes_ok proof_nodes_def)

lemma trace_nodes_loop_ok:
  assumes "\<forall>tr\<in>set traces. wf_trace tr"
  shows "trace_nodes_loop H traces n = Inr (insert_nodes (concat (map (trace_stored H) traces)) n)"
  using assms
proof (induction traces arbitrary: n)
  case (Cons tr traces)
  then show ?case
    by (simp add: next_free_node_ok node_raw_branch_ok trace_to_nodes_ok trace_stored_def insert_nodes_append Let_def
        split: prod.split)
qed simp

lemma from_traces_ok:
  assumes "traces \<noteq> []" "\<forall>tr\<in>set traces. wf_trace tr" "\<forall>tr\<in>set traces. \<exists>k. trie_hash H (trace_key tr) = Inr k"
  shows "\<exists>s. mem_store_from_traces H traces = Inr s \<and>
    ms_nodes s = insert_nodes (concat (map (trace_stored H) traces)) Map.empty \<and> ms_codes s = Map.empty \<and>
    (\<forall>r p k. level_map_get (ms_index s) r (p, k) =
      map_option trace_key_range
        (find (\<lambda>tr. trace_top H tr = r \<and> trace_hkey H tr = k \<and> p = u64_max_value) (rev traces)))"
proof -
  obtain m where "level_map_loop H traces Map.empty = Inr m"
    "\<forall>r p k. level_map_get m r (p, k) =
      (case find (\<lambda>tr. trace_top H tr = r \<and> trace_hkey H tr = k \<and> p = u64_max_value) (rev traces) of
         Some tr \<Rightarrow> Some (trace_key_range tr) | None \<Rightarrow> level_map_get Map.empty r (p, k))"
    using level_map_loop_ok [OF assms(3)] by blast
  moreover have "level_map_get Map.empty r k = None" for r k by (simp add: level_map_get_def)
  ultimately show ?thesis
    using assms(1,2) by (simp add: mem_store_from_traces_def trace_nodes_def trace_nodes_loop_ok
      level_map_from_traces_def map_option_case cong: option.case_cong)
qed

text \<open>A store with the nodes of a proof can be walked down to the leaf that the proof is about.\<close>

lemma proof_nodes_walk:
  assumes V: "\<forall>m\<in>set (proof_nodes H (p, l)). V (nd_hash m) = Some m" and len: "length (tp_siblings p) = 40"
  shows "walk V (proof_root H (p, l)) (leaf_bits (tp_leaf_index p)) = Some (proof_leaf H l)"
proof -
  let ?xs = "zip (rev (leaf_bits (tp_leaf_index p))) (tp_siblings p)"
  have "walk V (nd_hash (last (up_nodes H (proof_leaf H l) ?xs))) (rev (map fst ?xs) @ []) = walk V (nd_hash (proof_leaf H l)) []"
    using V by (intro walk_up_nodes) (simp add: proof_nodes_def)
  moreover have "V (nd_hash (proof_leaf H l)) = Some (proof_leaf H l)"
    using V hd_up_nodes [of "proof_leaf H l" H ?xs] by (simp add: proof_nodes_def)
  ultimately show ?thesis
    using len by (simp add: last_up_nodes proof_root_def)
qed

text \<open>Every proof of every trace can be walked in a store made of the traces.\<close>

lemma from_traces_walk:
  assumes s: "ms_nodes s = insert_nodes (concat (map (trace_stored H) traces)) Map.empty"
    and inj: "inj_on nd_hash (set (concat (map (trace_stored H) traces)) \<union> ran (empty_nodes H))"
    and tr: "tr \<in> set traces" "wf_trace tr" "pl \<in> set (trace_proofs tr)"
  shows "walk (mem_view H s) (proof_root H pl) (leaf_bits (tp_leaf_index (fst pl))) = Some (proof_leaf H (snd pl))"
proof -
  obtain p l where pl: "pl = (p, l)" by (cases pl)
  have "set (proof_nodes H pl) \<subseteq> set (concat (map (trace_stored H) traces))"
    using tr(1,3) by (auto simp: trace_stored_def Let_def)
  then have "\<forall>m\<in>set (proof_nodes H (p, l)). mem_view H s (nd_hash m) = Some m"
    using mem_view_inserted [OF s inj] unfolding pl by blast
  moreover have "length (tp_siblings p) = 40" using tr(2,3) by (auto simp: wf_trace_def list_all_iff pl)
  ultimately show ?thesis unfolding pl fst_conv snd_conv by (rule proof_nodes_walk)
qed

end

end
