(* ===== verification/Trie_Properties.thy ===== *)
theory Trie_Properties
  imports Mem_Store
begin

text \<open>
  What the trie of \<open>trie.rs\<close> and \<open>sparse_merkle_trie.rs\<close> does on the store of \<open>storage.rs\<close>, for
  any hash function with the law \<open>trie_hasher\<close>, which MiMC has (interpretation \<open>mimc\<close>). A
  store is addressed by hashes, so the statements read: two different nodes with the same hash
  are among those stored before and those written, or the outcome is the one described. The
  witnesses run on a small store with a toy hash.
\<close>

section \<open>Collisions\<close>

definition nodes_collide :: "node set \<Rightarrow> bool" where
  "nodes_collide U \<longleftrightarrow> (\<exists>m n. m \<in> U \<and> n \<in> U \<and> m \<noteq> n \<and> nd_hash m = nd_hash n)"

lemma collide_or_inj: "nodes_collide U \<or> inj_on nd_hash U"
  unfolding nodes_collide_def inj_on_def by blast

definition node_collision ::
  "('s \<Rightarrow> sh256 \<rightharpoonup> node) \<Rightarrow> ('t \<times> 's \<times> node list, 'e, 'a) comp \<Rightarrow> 't \<Rightarrow> 's \<Rightarrow> bool" where
  "node_collision view cl t s \<longleftrightarrow> nodes_collide (ran (view s) \<union> set (trie_written cl t s))"

lemma collision_or_free: "consistent (view s) \<Longrightarrow> node_collision view cl t s \<or> trie_clash_free view cl t s"
  using collide_or_inj by (auto simp: node_collision_def trie_clash_free_def)

section \<open>A toy hash and a small store\<close>

text \<open>The hash of one, two or four 32-byte words.\<close>

definition toy_word :: "bytes \<Rightarrow> nat \<Rightarrow> sh256" where
  "toy_word bs k = word_of_bytes (take 32 (drop (32 * k) bs))"

definition toy_hash :: hasher where
  "toy_hash bs = Inr (word_bytes
     (if length bs = 32 then toy_word bs 0
      else if length bs = 64 then toy_word bs 0 + toy_word bs 1 + 1000
      else toy_word bs 0 + 2 * toy_word bs 1 + 10 * toy_word bs 2 + 100 * toy_word bs 3))"

lemma toy_trie_hasher: "trie_hasher toy_hash"
  by unfold_locales (simp add: toy_hash_def)

interpretation toy: trie_hasher toy_hash
  by (rule toy_trie_hasher)

lemma toy_branch_hash [simp]: "branch_hash toy_hash l r = l + r + 1000"
  by (simp add: branch_hash_def toy_hash_def toy_word_def)

lemma toy_value_hash_word [simp]: "value_hash toy_hash (word_bytes w) = w"
  by (simp add: value_hash_def toy_hash_def toy_word_def)

lemma toy_trie_hash_word [simp]: "trie_hash toy_hash (word_bytes w) = Inr w"
  by (simp add: trie_hash_def toy_hash_def toy_word_def)

lemma toy_value_hash_leaf [simp]:
  "value_hash toy_hash (leaf_opening_to_bytes l) =
     ucast (lo_prev_leaf l) + 2 * ucast (lo_next_leaf l) + 10 * lo_hkey l + 100 * lo_hval l"
  by (simp add: value_hash_def toy_hash_def toy_word_def leaf_opening_to_bytes_def drop_append take_append)

text \<open>Three leaves with indices 0, 1 and 2; further up, every sibling on the way to the root is zero.\<close>

definition toy_leaf :: "u64 \<Rightarrow> leaf_opening" where
  "toy_leaf i = \<lparr>lo_hkey = (if i = 0 then 1 else if i = 1 then 9 else 5), lo_hval = (if i = 0 then 1 else if i = 1 then 2 else 3),
     lo_prev_leaf = 0, lo_next_leaf = 1\<rparr>"

definition toy_leaf_node :: "u64 \<Rightarrow> node" where
  "toy_leaf_node i = \<lparr>nd_raw = mk_leaf [22] (leaf_opening_to_bytes (toy_leaf i)),
     nd_hash = value_hash toy_hash (leaf_opening_to_bytes (toy_leaf i))\<rparr>"

definition toy_nodes :: "node list" where
  "toy_nodes =
     (let a = nd_hash (toy_leaf_node 0); b = nd_hash (toy_leaf_node 1); c = nd_hash (toy_leaf_node 2);
          p = branch_over toy_hash 0 a b; q = branch_over toy_hash 0 c 0; r = branch_over toy_hash 0 (nd_hash p) (nd_hash q);
          spine = up_nodes toy_hash r (replicate 38 (0, 0))
      in toy_leaf_node 0 # toy_leaf_node 1 # toy_leaf_node 2 # p # q # spine @ [branch_over toy_hash 0 2 (nd_hash (last spine))])"

lemma replicate_38: "replicate 38 x = [x,x,x,x,x,x,x,x,x,x,x,x,x,x,x,x,x,x,x,x,x,x,x,x,x,x,x,x,x,x,x,x,x,x,x,x,x,x]"
  by (simp add: numeral_nat)

lemma toy_hashes:
  "map nd_hash toy_nodes =
     [112, 292, 352, 1404, 1352, 3756, 4756, 5756, 6756, 7756, 8756, 9756,
      10756, 11756, 12756, 13756, 14756, 15756, 16756, 17756, 18756, 19756,
      20756, 21756, 22756, 23756, 24756, 25756, 26756, 27756, 28756, 29756,
      30756, 31756, 32756, 33756, 34756, 35756, 36756, 37756, 38756, 39756,
      40756, 41756, 42758]"
  by (simp add: toy_nodes_def toy_leaf_node_def toy_leaf_def Let_def branch_over_def replicate_38)

lemma toy_distinct: "inj_on nd_hash (set toy_nodes)"
proof -
  have "distinct (map nd_hash toy_nodes)" unfolding toy_hashes by simp
  then show ?thesis by (simp add: distinct_map)
qed

lemma toy_empty_hash: "empty_hash toy_hash d = of_nat ((2 ^ d - 1) * 1000)"
proof (induction d)
  case (Suc d)
  define x :: nat where "x = (2 ^ d - 1) * 1000"
  have "(2 ^ Suc d - 1) * 1000 = x + x + (1000 :: nat)"
    using one_le_power [of "2 :: nat" d] by (simp add: x_def algebra_simps)
  then have "of_nat ((2 ^ Suc d - 1) * 1000) = (of_nat x + of_nat x + 1000 :: sh256)"
    by (simp only: of_nat_add of_nat_numeral)
  then show ?case using Suc by (simp only: empty_hash.simps toy_branch_hash x_def)
qed (simp add: empty_hash.simps)

lemma toy_unat_empty: "d \<le> 40 \<Longrightarrow> unat (empty_hash toy_hash d) = (2 ^ d - 1) * 1000"
proof -
  assume "d \<le> 40"
  then have "(2 :: nat) ^ d \<le> 2 ^ 40" by (rule power_increasing) simp
  then have "(2 ^ d - 1) * 1000 < (2 :: nat) ^ 256" by simp
  then show ?thesis by (simp add: toy_empty_hash unat_of_nat del: of_nat_mult)
qed

lemma toy_unat_root: "unat (nd_hash (empty_world_root toy_hash)) = 2 ^ 40 * 1000"
proof -
  have "nd_hash (empty_world_root toy_hash) = of_nat (2 ^ 40 * 1000)"
    by (simp add: empty_world_root_def toy_empty_hash)
  then show ?thesis by (simp add: unat_of_nat del: of_nat_mult)
qed

lemma toy_empty_mod: "empty_nodes toy_hash h = Some n \<Longrightarrow> unat h mod 1000 = 0"
  using empty_nodes_cases [of toy_hash h n] by (auto simp: toy_unat_empty toy_unat_root)

lemma toy_not_empty: "n \<in> set toy_nodes \<Longrightarrow> empty_nodes toy_hash (nd_hash n) = None"
proof -
  assume "n \<in> set toy_nodes"
  moreover have "list_all (\<lambda>h. unat h mod 1000 \<noteq> 0) (map nd_hash toy_nodes)" unfolding toy_hashes by simp
  ultimately have "unat (nd_hash n) mod 1000 \<noteq> 0" by (simp add: list_all_iff)
  then show ?thesis using toy_empty_mod by (cases "empty_nodes toy_hash (nd_hash n)") auto
qed

lemma toy_empty_0: "empty_nodes toy_hash 0 = Some (empty_node toy_hash 0)"
proof -
  obtain n where n: "empty_nodes toy_hash 0 = Some n"
    using empty_nodes_dom [of 0 toy_hash] by (auto simp: empty_hash.simps)
  have "d = 0" if "d \<le> 40" "0 = empty_hash toy_hash d" for d
  proof -
    have "(2 ^ d - 1) * 1000 = (0 :: nat)" using toy_unat_empty [OF that(1)] that(2) by simp
    then show ?thesis using one_less_power [of "2 :: nat" d] by (cases "d = 0") auto
  qed
  moreover have "nd_hash (empty_world_root toy_hash) \<noteq> 0" using toy_unat_root by auto
  ultimately show ?thesis using empty_nodes_cases [OF n] n by force
qed

definition toy_store :: "level_map \<Rightarrow> mem_store" where
  "toy_store idx = \<lparr>ms_nodes = insert_nodes toy_nodes Map.empty, ms_index = idx, ms_staging = Map.empty, ms_codes = Map.empty\<rparr>"

lemma toy_view: "n \<in> set toy_nodes \<Longrightarrow> mem_view toy_hash (toy_store idx) (nd_hash n) = Some n"
  using toy_not_empty [of n] insert_nodes_in [OF toy_distinct, of n]
  by (simp add: mem_view_def toy_store_def map_add_def)

lemma consistent_insert_nodes: "consistent m \<Longrightarrow> consistent (insert_nodes ns m)"
proof (induction ns arbitrary: m)
  case (Cons n ns)
  have "consistent (m(nd_hash n \<mapsto> n))" using Cons.prems by (simp add: consistent_def)
  then show ?case using Cons.IH by simp
qed simp

lemma consistent_mem_view: "consistent (ms_nodes s) \<Longrightarrow> consistent (mem_view H s)"
  by (auto simp: consistent_def mem_view_def map_add_def dest: empty_nodes_hash split: option.splits)

lemma toy_consistent: "consistent (mem_view toy_hash (toy_store idx))"
  by (intro consistent_mem_view) (simp add: toy_store_def consistent_insert_nodes consistent_def [of Map.empty])

definition toy_trie :: zk_trie where
  "toy_trie = zk_new 42758"

definition toy_leaves :: "u64 \<rightharpoonup> bytes option" where
  "toy_leaves = [0 \<mapsto> Some (leaf_opening_to_bytes (toy_leaf 0)), 1 \<mapsto> Some (leaf_opening_to_bytes (toy_leaf 1)),
     2 \<mapsto> Some (leaf_opening_to_bytes (toy_leaf 2))]"

lemma toy_leaf_bits:
  "leaf_bits 0 = replicate 38 0 @ [0, 0]" "leaf_bits 1 = replicate 38 0 @ [0, 1]" "leaf_bits 2 = replicate 38 0 @ [1, 0]"
proof -
  have two: "bit (2 :: int) n \<longleftrightarrow> n = 1" "bit (2 :: nat) n \<longleftrightarrow> n = 1" for n
    using bit_double_iff [of "1 :: int" n] bit_double_iff [of "1 :: nat" n] by (auto simp: bit_1_iff bit_Suc_0_iff)
  show "leaf_bits 0 = replicate 38 0 @ [0, 0]" "leaf_bits 1 = replicate 38 0 @ [0, 1]" "leaf_bits 2 = replicate 38 0 @ [1, 0]"
    by (rule nth_equalityI; auto simp: nth_append nth_Cons' bit_1_iff two)+
qed

lemma toy_trie_rep: "trie_rep (mem_view toy_hash (toy_store idx)) (smt_root_hash toy_trie) 2 toy_leaves"
proof -
  let ?V = "mem_view toy_hash (toy_store idx)"
  let ?a = "nd_hash (toy_leaf_node 0)" and ?b = "nd_hash (toy_leaf_node 1)" and ?c = "nd_hash (toy_leaf_node 2)"
  let ?p = "branch_over toy_hash 0 ?a ?b" and ?q = "branch_over toy_hash 0 ?c 0"
  let ?r = "branch_over toy_hash 0 (nd_hash ?p) (nd_hash ?q)"
  let ?spine = "up_nodes toy_hash ?r (replicate 38 (0, 0))"
  let ?top = "branch_over toy_hash 0 2 (nd_hash (last ?spine))"
  have set: "set toy_nodes = {toy_leaf_node 0, toy_leaf_node 1, toy_leaf_node 2, ?p, ?q, ?top} \<union> set ?spine"
    by (auto simp: toy_nodes_def Let_def)
  have V: "?V (nd_hash n) = Some n" if "n \<in> set toy_nodes" for n using toy_view that .
  have last: "last toy_nodes = ?top" by (simp add: toy_nodes_def Let_def)
  have "toy_nodes \<noteq> []" by (simp add: toy_nodes_def Let_def)
  then have "nd_hash ?top = last (map nd_hash toy_nodes)" by (simp add: last_map last)
  then have root: "smt_root_hash toy_trie = nd_hash ?top"
    by (simp add: toy_hashes toy_trie_def zk_new_def smt_new_def)
  have spine: "walk ?V (nd_hash (last ?spine)) (replicate 38 0 @ q) = walk ?V (nd_hash ?r) q" for q
    using walk_up_nodes [of toy_hash ?r "replicate 38 (0, 0)" ?V q] V set by simp
  have r: "?r \<in> set ?spine" by (rule hd_up_nodes)
  have Vs: "?V (nd_hash ?top) = Some ?top" "?V (nd_hash ?r) = Some ?r" "?V (nd_hash ?p) = Some ?p" "?V (nd_hash ?q) = Some ?q"
    "?V ?a = Some (toy_leaf_node 0)" "?V ?b = Some (toy_leaf_node 1)" "?V ?c = Some (toy_leaf_node 2)"
    using V set r by simp_all
  have raw: "nd_raw ?top = mk_branch 2 (nd_hash (last ?spine))" "nd_raw ?r = mk_branch (nd_hash ?p) (nd_hash ?q)"
    "nd_raw ?p = mk_branch ?a ?b" "nd_raw ?q = mk_branch ?c 0"
    by (simp_all add: branch_over_def)
  have walks: "leaf_at ?V (nd_hash ?top) 0 = Some (toy_leaf_node 0)" "leaf_at ?V (nd_hash ?top) 1 = Some (toy_leaf_node 1)"
    "leaf_at ?V (nd_hash ?top) 2 = Some (toy_leaf_node 2)"
    unfolding leaf_at_def toy_leaf_bits walk.simps(2) Vs raw
    by (simp_all add: spine Vs raw)
  have "branch_at ?V (nd_hash ?top) = Some \<lparr>br_left = 2, br_right = nd_hash (last ?spine)\<rparr>"
    by (simp add: branch_at_def Vs raw)
  then show ?thesis
    using walks unfolding trie_rep_def root
    by (auto simp: toy_leaves_def toy_leaf_node_def split: if_splits)
qed

section \<open>The index of the store\<close>

abbreviation same_index :: "level_map \<Rightarrow> zk_trie \<times> mem_store \<Rightarrow> bool" where
  "same_index m \<equiv> \<lambda>(t, s). ms_index s = m"

lemma keeps_on_db: "keeps (\<lambda>s. ms_index s = m) c \<Longrightarrow> keeps (same_index m) (on_db c)"
  by (force simp: keeps_def on_db_def split: prod.split)

lemma keeps_db_add: "keeps (\<lambda>s. ms_index s = m) (db_add (prefix_db H p) n)"
  by (simp add: keeps_def db_add_def prefix_db_def mem_update_node_def)

lemma keeps_add_leaf: "keeps (\<lambda>s. ms_index s = m) (smt_add_leaf H (prefix_db H p) lvl h path v)"
proof (induction "42 - lvl" arbitrary: lvl h rule: less_induct)
  case less
  have IH: "lvl < 42 \<Longrightarrow> keeps (\<lambda>s. ms_index s = m) (smt_add_leaf H (prefix_db H p) (Suc lvl) c path v)" for c
    by (rule less) simp
  show ?case
    by (subst smt_add_leaf.simps)
      (auto simp: zk_trie_depth_def split: option.split node_value.split intro!: preserved keeps_db_add IH)
qed

lemma keeps_remove_leaf: "keeps (\<lambda>s. ms_index s = m) (smt_remove_leaf H (prefix_db H p) lvl h path)"
proof (induction "42 - lvl" arbitrary: lvl h rule: less_induct)
  case less
  have IH: "lvl < 42 \<Longrightarrow> keeps (\<lambda>s. ms_index s = m) (smt_remove_leaf H (prefix_db H p) (Suc lvl) c path)" for c
    by (rule less) simp
  show ?case
    by (subst smt_remove_leaf.simps)
      (auto simp: zk_trie_depth_def split: option.split node_value.split intro!: preserved keeps_db_add IH)
qed

lemma keeps_update_node: "keeps (\<lambda>s. ms_index s = m) (db_update_node (prefix_db H p) k n)"
  by (simp add: keeps_def prefix_db_def mem_update_node_def)

lemma prefix_index_simps [simp]:
  "ms_index (db_update_index (prefix_db H p) k fl s) = ms_index s"
  "ms_index (db_remove_index (prefix_db H p) k s) = ms_index s"
  by (simp_all add: prefix_db_def mem_update_index_def mem_remove_index_def)

lemma keeps_smt_writes [preserved]:
  "keeps (same_index m) (smt_put H (prefix_db H p) path v)"
  "keeps (same_index m) (smt_remove H (prefix_db H p) path)"
  "keeps (same_index m) (zk_increment_next_free H (prefix_db H p))"
  "keeps (same_index m) (zk_parse_leaf_at (prefix_db H p) path)"
  "keeps (same_index m) (modifyc (apsnd (db_update_index (prefix_db H p) k fl)))"
  "keeps (same_index m) (modifyc (apsnd (db_remove_index (prefix_db H p) k)))"
  unfolding smt_put_def smt_remove_def zk_increment_next_free_def smt_set_next_free_node_def zk_parse_leaf_at_def Let_def
  by (auto intro!: preserved keeps_on_db keeps_add_leaf keeps_remove_leaf keeps_update_node)

lemma keeps_zk_put: "keeps (same_index m) (zk_put H (prefix_db H p) key val)"
  unfolding zk_put_def zk_put_absent_def zk_put_present_def zk_nearest_keys_def Let_def
  by (auto intro!: preserved split: option.split)

lemma keeps_zk_remove: "keeps (same_index m) (zk_remove H (prefix_db H p) key)"
  unfolding zk_remove_def zk_remove_found_def zk_nearest_keys_def Let_def
  by (auto intro!: preserved split: option.split)

lemma put_keeps_index: "ms_index (snd (snd (zk_put H (prefix_db H p) key val (t, s)))) = ms_index s"
  using keepsD [OF keeps_zk_put, of "ms_index s" "(t, s)" H p key val] by (simp add: case_prod_beta)

lemma remove_keeps_index: "ms_index (snd (snd (zk_remove H (prefix_db H p) key (t, s)))) = ms_index s"
  using keepsD [OF keeps_zk_remove, of "ms_index s" "(t, s)" H p key] by (simp add: case_prod_beta)

section \<open>Writing keys\<close>

text \<open>C7: putting a key that the trie does not hold. From a store that presents the two neighbours of
  the key and the next free slot, \<open>put\<close> returns, the counter has moved by one, the slot holds the
  new leaf with the links to both neighbours, the left neighbour points forward to it, the right
  neighbour points back to it, and every other known leaf is as before. The next link of the
  right neighbour is lost: it now has the value of its old previous link, because reading a leaf
  takes both links from the bytes of the previous one.\<close>

theorem put_new_key:
  assumes "trie_hasher H" and "consistent (mem_view H s)"
    and "trie_rep (mem_view H s) (smt_root_hash t) nf L"
    and "trie_hash H key = Inr hkey" "trie_hash H val = Inr hval"
    and "mem_get_nearest_keys p s (smt_root_hash t) hkey = Inr kr" "kr_center kr = None"
    and "L (kr_left_index kr) = Some (Some (leaf_opening_to_bytes ll))"
    and "L (kr_right_index kr) = Some (Some (leaf_opening_to_bytes rl))"
    and "L nf = Some c"
    and "kr_left_index kr \<noteq> nf" "kr_right_index kr \<noteq> nf" "kr_left_index kr \<noteq> kr_right_index kr"
  shows "node_collision (mem_view H) (zk_put H (log_db (prefix_db H p)) key val) t s \<or>
    (\<exists>t' s'. zk_put H (prefix_db H p) key val (t, s) = (Inr (), (t', s')) \<and> mem_view H s \<subseteq>\<^sub>m mem_view H s' \<and>
      trie_rep (mem_view H s') (smt_root_hash t') (nf + 1)
        (L(kr_left_index kr \<mapsto> Some (leaf_opening_to_bytes (ll\<lparr>lo_next_leaf := nf\<rparr>)),
           nf \<mapsto> Some (leaf_opening_to_bytes (leaf_opening_new (kr_left_index kr) (kr_right_index kr) hkey hval)),
           kr_right_index kr \<mapsto> Some (leaf_opening_to_bytes
             (rl\<lparr>lo_next_leaf := lo_prev_leaf rl, lo_prev_leaf := nf\<rparr>)))))"
proof -
  have near: "db_get_nearest_keys (prefix_db H p) s (smt_root_hash t) hkey = Inr kr"
    using assms(6) by (simp add: prefix_db_def)
  show ?thesis
    using collision_or_free [of "mem_view H", OF assms(2), of "zk_put H (log_db (prefix_db H p)) key val" t]
      trie_db.zk_put_absent_ok [OF trie_hasher.prefix_trie_db [OF assms(1)] _ assms(3-5) near assms(7-13)]
    by blast
qed

definition toy_index :: "key_range \<Rightarrow> level_map" where
  "toy_index kr = [42758 \<mapsto> [(5, 7) \<mapsto> kr]]"

lemma toy_nearest: "mem_get_nearest_keys 5 (toy_store (toy_index kr)) (smt_root_hash toy_trie) 7 = Inr kr"
  by (simp add: mem_get_nearest_keys_def toy_store_def toy_index_def toy_trie_def zk_new_def smt_new_def)

lemma word_bytes_ok: "32 dvd length (word_bytes w)" "word_bytes w \<noteq> []"
  using length_word_bytes [of w] by fastforce+

lemma toy_leaves_at:
  "toy_leaves 0 = Some (Some (leaf_opening_to_bytes (toy_leaf 0)))"
  "toy_leaves 1 = Some (Some (leaf_opening_to_bytes (toy_leaf 1)))"
  "toy_leaves 2 = Some (Some (leaf_opening_to_bytes (toy_leaf 2)))"
  by (simp_all add: toy_leaves_def)

theorem put_new_key_witness:
  "node_collision (mem_view toy_hash) (zk_put toy_hash (log_db (prefix_db toy_hash 5)) (word_bytes 7) (word_bytes 8))
     toy_trie (toy_store (toy_index \<lparr>kr_left_index = 0, kr_center = None, kr_right_index = 1\<rparr>)) \<or>
   (\<exists>t' s'. zk_put toy_hash (prefix_db toy_hash 5) (word_bytes 7) (word_bytes 8)
      (toy_trie, toy_store (toy_index \<lparr>kr_left_index = 0, kr_center = None, kr_right_index = 1\<rparr>)) = (Inr (), (t', s')) \<and>
      trie_rep (mem_view toy_hash s') (smt_root_hash t') 3
        (toy_leaves(0 \<mapsto> Some (leaf_opening_to_bytes ((toy_leaf 0)\<lparr>lo_next_leaf := 2\<rparr>)),
           2 \<mapsto> Some (leaf_opening_to_bytes (leaf_opening_new 0 1 7 8)),
           1 \<mapsto> Some (leaf_opening_to_bytes
             ((toy_leaf 1)\<lparr>lo_next_leaf := 0, lo_prev_leaf := 2\<rparr>)))))"
  using put_new_key [OF toy_trie_hasher toy_consistent toy_trie_rep toy_trie_hash_word toy_trie_hash_word toy_nearest,
      of "\<lparr>kr_left_index = 0, kr_center = None, kr_right_index = 1\<rparr>" "toy_leaf 0" "toy_leaf 1"
         "Some (leaf_opening_to_bytes (toy_leaf 2))" 8]
  by (auto simp: toy_leaves_at toy_leaf_def)

text \<open>C8: putting a key that the trie holds. Only the key's leaf is written: it gets the hash of the
  new value, and it loses its next link to its previous one. The counter and every other known
  leaf stay.\<close>

theorem put_known_key:
  assumes "trie_hasher H" and "consistent (mem_view H s)"
    and "trie_rep (mem_view H s) (smt_root_hash t) nf L"
    and "trie_hash H key = Inr hkey" "trie_hash H val = Inr hval"
    and "mem_get_nearest_keys p s (smt_root_hash t) hkey = Inr kr" "kr_center kr = Some fl"
    and "L (fl_leaf_index fl) = Some (Some (leaf_opening_to_bytes l))"
  shows "node_collision (mem_view H) (zk_put H (log_db (prefix_db H p)) key val) t s \<or>
    (\<exists>t' s'. zk_put H (prefix_db H p) key val (t, s) = (Inr (), (t', s')) \<and> mem_view H s \<subseteq>\<^sub>m mem_view H s' \<and>
      trie_rep (mem_view H s') (smt_root_hash t') nf
        (L(fl_leaf_index fl \<mapsto> Some (leaf_opening_to_bytes
             (l\<lparr>lo_next_leaf := lo_prev_leaf l, lo_hval := hval\<rparr>)))))"
proof -
  have near: "db_get_nearest_keys (prefix_db H p) s (smt_root_hash t) hkey = Inr kr"
    using assms(6) by (simp add: prefix_db_def)
  show ?thesis
    using collision_or_free [of "mem_view H", OF assms(2), of "zk_put H (log_db (prefix_db H p)) key val" t]
      trie_db.zk_put_present_ok [OF trie_hasher.prefix_trie_db [OF assms(1)] _ assms(3-5) near assms(7-8)]
    by blast
qed

definition toy_range :: key_range where
  "toy_range = \<lparr>kr_left_index = 0, kr_center = Some \<lparr>fl_leaf_index = 2, fl_leaf_value = word_bytes 3\<rparr>, kr_right_index = 1\<rparr>"

theorem put_known_key_witness:
  "node_collision (mem_view toy_hash) (zk_put toy_hash (log_db (prefix_db toy_hash 5)) (word_bytes 7) (word_bytes 8))
     toy_trie (toy_store (toy_index toy_range)) \<or>
   (\<exists>t' s'. zk_put toy_hash (prefix_db toy_hash 5) (word_bytes 7) (word_bytes 8)
      (toy_trie, toy_store (toy_index toy_range)) = (Inr (), (t', s')) \<and>
      trie_rep (mem_view toy_hash s') (smt_root_hash t') 2
        (toy_leaves(2 \<mapsto> Some (leaf_opening_to_bytes ((toy_leaf 2)\<lparr>lo_next_leaf := 0, lo_hval := 8\<rparr>)))))"
  using put_known_key [OF toy_trie_hasher toy_consistent toy_trie_rep toy_trie_hash_word toy_trie_hash_word toy_nearest,
      of toy_range "\<lparr>fl_leaf_index = 2, fl_leaf_value = word_bytes 3\<rparr>" "toy_leaf 2" 8]
  by (auto simp: toy_leaves_at toy_range_def toy_leaf_def)

text \<open>C9: removing a key that the trie holds. \<open>remove\<close> returns, the key's slot is the empty leaf, the
  left neighbour points forward to the right one and the right one back to the left one, the
  counter and every other known leaf stay. The right neighbour loses its next link.\<close>

theorem remove_known_key:
  assumes "trie_hasher H" and "consistent (mem_view H s)" and "mem_view H s 0 = Some (empty_node H 0)"
    and "trie_rep (mem_view H s) (smt_root_hash t) nf L"
    and "trie_hash H key = Inr hkey"
    and "mem_get_nearest_keys p s (smt_root_hash t) hkey = Inr kr" "kr_center kr = Some fl"
    and "L (kr_left_index kr) = Some (Some (leaf_opening_to_bytes ll))"
    and "L (fl_leaf_index fl) = Some (Some (leaf_opening_to_bytes l))"
    and "L (kr_right_index kr) = Some (Some (leaf_opening_to_bytes rl))"
    and "kr_left_index kr \<noteq> fl_leaf_index fl" "kr_right_index kr \<noteq> fl_leaf_index fl"
      "kr_left_index kr \<noteq> kr_right_index kr"
  shows "node_collision (mem_view H) (zk_remove H (log_db (prefix_db H p)) key) t s \<or>
    (\<exists>t' s'. zk_remove H (prefix_db H p) key (t, s) = (Inr (), (t', s')) \<and> mem_view H s \<subseteq>\<^sub>m mem_view H s' \<and>
      trie_rep (mem_view H s') (smt_root_hash t') nf
        (L(kr_left_index kr \<mapsto> Some (leaf_opening_to_bytes (ll\<lparr>lo_next_leaf := kr_right_index kr\<rparr>)),
           fl_leaf_index fl \<mapsto> None,
           kr_right_index kr \<mapsto> Some (leaf_opening_to_bytes
             (rl\<lparr>lo_next_leaf := lo_prev_leaf rl, lo_prev_leaf := kr_left_index kr\<rparr>)))))"
proof -
  have near: "db_get_nearest_keys (prefix_db H p) s (smt_root_hash t) hkey = Inr kr"
    using assms(6) by (simp add: prefix_db_def)
  show ?thesis
    using collision_or_free [of "mem_view H", OF assms(2), of "zk_remove H (log_db (prefix_db H p)) key" t]
      trie_db.zk_remove_ok [OF trie_hasher.prefix_trie_db [OF assms(1)] _ assms(4,3,5) near assms(7-13)]
    by blast
qed

lemma toy_view_0: "mem_view toy_hash s 0 = Some (empty_node toy_hash 0)"
  using toy_empty_0 by (simp add: mem_view_def map_add_def)

theorem remove_known_key_witness:
  "node_collision (mem_view toy_hash) (zk_remove toy_hash (log_db (prefix_db toy_hash 5)) (word_bytes 7))
     toy_trie (toy_store (toy_index toy_range)) \<or>
   (\<exists>t' s'. zk_remove toy_hash (prefix_db toy_hash 5) (word_bytes 7) (toy_trie, toy_store (toy_index toy_range)) =
      (Inr (), (t', s')) \<and>
      trie_rep (mem_view toy_hash s') (smt_root_hash t') 2
        (toy_leaves(0 \<mapsto> Some (leaf_opening_to_bytes ((toy_leaf 0)\<lparr>lo_next_leaf := 1\<rparr>)),
           2 \<mapsto> None,
           1 \<mapsto> Some (leaf_opening_to_bytes ((toy_leaf 1)\<lparr>lo_next_leaf := 0, lo_prev_leaf := 0\<rparr>)))))"
  using remove_known_key [OF toy_trie_hasher toy_consistent toy_view_0 toy_trie_rep toy_trie_hash_word toy_nearest,
      of toy_range "\<lparr>fl_leaf_index = 2, fl_leaf_value = word_bytes 3\<rparr>" "toy_leaf 0" "toy_leaf 2" "toy_leaf 1"]
  by (auto simp: toy_leaves_at toy_range_def toy_leaf_def)

section \<open>Writing leaves\<close>

text \<open>C15: the sparse Merkle trie reads back what it wrote. After a write along the path of a known
  slot, a read along this path gives a leaf with the value written, and a read along the path of
  any other known slot gives what the slot held before.\<close>

theorem leaf_read_after_write:
  assumes "trie_hasher H" and "consistent (mem_view H s)"
    and "trie_rep (mem_view H s) (smt_root_hash t) nf L" "L i = Some c"
    and "32 dvd length v" "v \<noteq> []"
    and "L j = Some d"
  shows "node_collision (mem_view H) (smt_put H (log_db (prefix_db H p)) (leaf_path i) v) t s \<or>
    (\<exists>t' s' r. smt_put H (prefix_db H p) (leaf_path i) v (t, s) = (Inr (), (t', s')) \<and>
      smt_get_node (prefix_db H p) t' s' (leaf_path j) = Inr r \<and>
      map_option nd_raw r = map_option (mk_leaf [22]) (if j = i then Some v else d))"
proof -
  let ?D = "prefix_db H p"
  note db = trie_hasher.prefix_trie_db [OF assms(1), of p]
  show ?thesis
  proof (cases "trie_clash_free (mem_view H) (smt_put H (log_db ?D) (leaf_path i) v) t s")
    case True
    obtain t' s' where s': "smt_put H ?D (leaf_path i) v (t, s) = (Inr (), (t', s'))"
      "trie_rep (mem_view H s') (smt_root_hash t') nf (L(i \<mapsto> Some v))"
      using trie_db.smt_put_ok [OF db True assms(3-6)] by blast
    have "(L(i \<mapsto> Some v)) j = Some (if j = i then Some v else d)" using assms(7) by simp
    from node_db.trie_rep_get [OF trie_hasher.prefix_node_db [OF assms(1)] s'(2) this, of p] s'(1)
    show ?thesis by blast
  next
    case False
    then show ?thesis
      using collision_or_free [of "mem_view H", OF assms(2), of "smt_put H (log_db ?D) (leaf_path i) v" t] by blast
  qed
qed

theorem leaf_read_after_write_witness:
  "node_collision (mem_view toy_hash) (smt_put toy_hash (log_db (prefix_db toy_hash 5)) (leaf_path 1) (word_bytes 9))
     toy_trie (toy_store Map.empty) \<or>
   (\<exists>t' s' r. smt_put toy_hash (prefix_db toy_hash 5) (leaf_path 1) (word_bytes 9) (toy_trie, toy_store Map.empty) =
      (Inr (), (t', s')) \<and>
      smt_get_node (prefix_db toy_hash 5) t' s' (leaf_path 1) = Inr r \<and>
      map_option nd_raw r = Some (mk_leaf [22] (word_bytes 9)))"
  using leaf_read_after_write [OF toy_trie_hasher toy_consistent toy_trie_rep toy_leaves_at(2) word_bytes_ok toy_leaves_at(2)]
  by simp

text \<open>The root after a write along the path of a known slot is the hash recomputed from the new
  leaf upwards with the siblings found in the store, whatever the store.\<close>

theorem root_after_write:
  assumes "trie_hasher H" and "trie_rep (mem_view H s) (smt_root_hash t) nf L" "L i = Some c"
    and "32 dvd length v" "v \<noteq> []"
  shows "\<exists>s'. smt_put H (prefix_db H p) (leaf_path i) v (t, s) =
    (Inr (), (smt_new (path_hash H (mem_view H s) (smt_root_hash t) (1 # leaf_bits i) (value_hash H v)), s'))"
  by (rule trie_db.smt_put_root [OF trie_hasher.prefix_trie_db [OF assms(1)] assms(2-5)])

theorem root_after_write_witness:
  "\<exists>s'. smt_put toy_hash (prefix_db toy_hash 5) (leaf_path 1) (word_bytes 9) (toy_trie, toy_store Map.empty) =
    (Inr (), (smt_new (path_hash toy_hash (mem_view toy_hash (toy_store Map.empty)) (smt_root_hash toy_trie)
      (1 # leaf_bits 1) 9), s'))"
  using root_after_write [OF toy_trie_hasher toy_trie_rep toy_leaves_at(2) word_bytes_ok]
  by (simp del: path_hash.simps)

text \<open>reading a key of the zk trie answers from the index of the store alone: the value recorded
  for the key under the trie's root, nothing when the record has no value, and a panic when the
  store has no record for this root and key.\<close>

theorem read_answers_from_index:
  "zk_read H (prefix_db H p) key t s =
     (case trie_hash H key of
        Inl e \<Rightarrow> Inl e
      | Inr hkey \<Rightarrow> (case level_map_get (ms_index s) (smt_root_hash t) (p, hkey) of
          None \<Rightarrow> Inl Panic
        | Some r \<Rightarrow> Inr (map_option fl_leaf_value (kr_center r))))"
  by (cases "trie_hash H key")
    (auto simp: zk_read_def prefix_db_def nearest_keys_get zk_top_root_hash_def split: option.split)

text \<open>C19: no write reaches that index. Whatever \<open>put\<close> or \<open>remove\<close> does, and however it ends, the
  index of the store is the one it was; the new leaf is only staged, so a read under the new
  root panics unless the root was indexed before.\<close>

theorem writes_keep_index:
  "ms_index (snd (snd (zk_put H (prefix_db H p) key val (t, s)))) = ms_index s \<and>
   ms_index (snd (snd (zk_remove H (prefix_db H p) key (t, s)))) = ms_index s"
  by (simp add: put_keeps_index remove_keeps_index)

section \<open>Proofs of the state manager\<close>

lemma toy_proof_hash: "proof_hash toy_hash h xs = h + sum_list (map snd xs) + 1000 * of_nat (length xs)"
  by (induction xs arbitrary: h) (auto simp: algebra_simps)

text \<open>Forty siblings of 64 zero bytes, each of hash 1000, and a leaf of hash 5.\<close>

definition toy_siblings :: "bytes list" where
  "toy_siblings = (word_bytes 0 @ word_bytes 80005) # replicate 40 (word_bytes 0 @ word_bytes 0) @ [word_bytes 5]"

lemma toy_siblings_nth:
  "0 < j \<Longrightarrow> j < 41 \<Longrightarrow> toy_siblings ! j = word_bytes 0 @ word_bytes 0"
  "toy_siblings ! 0 = word_bytes 0 @ word_bytes 80005" "toy_siblings ! 41 = word_bytes 5"
  by (cases j; simp add: toy_siblings_def nth_append)+

lemma toy_wf_siblings: "wf_siblings toy_siblings"
proof -
  have "length (toy_siblings ! j) = 64" if "j < 40" for j
    using that toy_siblings_nth(1) [of j] toy_siblings_nth(2) by (cases "j = 0") simp_all
  moreover have "word_bytes w \<noteq> []" for w using word_bytes_ok by blast
  moreover have "length toy_siblings = 42" by (simp add: toy_siblings_def)
  ultimately show ?thesis
    by (simp add: wf_siblings_def leaf_value_ok_def toy_siblings_nth)
qed

text \<open>The hash that a proof determines: that of the leaf combined with those of its siblings.\<close>

definition recomputed_root :: "hasher \<Rightarrow> u64 \<Rightarrow> bytes list \<Rightarrow> sh256" where
  "recomputed_root H idx siblings =
     proof_hash H (value_hash H (siblings ! 41)) (map (apsnd nd_hash) (proof_siblings H (leaf_path idx) siblings 40))"

lemma toy_recomputed_root: "recomputed_root toy_hash idx toy_siblings = 80005"
proof -
  have v0: "value_hash toy_hash (word_bytes 0 @ word_bytes 0) = 1000"
    by (simp add: value_hash_def toy_hash_def toy_word_def)
  have hashes: "map snd (map (apsnd nd_hash) (proof_siblings toy_hash (leaf_path idx) toy_siblings 40)) = replicate 40 1000"
    by (rule nth_equalityI)
      (simp_all add: proof_siblings_def sibling_node_def toy_siblings_nth v0 rev_nth del: upt_Suc upt_rec_numeral)
  have "length (proof_siblings toy_hash (leaf_path idx) toy_siblings 40) = 40"
    by (simp add: proof_siblings_def del: upt_Suc upt_rec_numeral)
  then show ?thesis
    unfolding recomputed_root_def toy_proof_hash hashes
    by (simp add: toy_siblings_nth sum_list_replicate)
qed

text \<open>C17: a proof of the state manager with well-formed siblings is accepted exactly when the hash
  recomputed from its leaf is the sub root that its first entry names. An accepted proof adds the
  nodes it determines to the store and records the value under the trie's root and the key, unless
  a record is there; a rejected proof is the error \<open>InvalidProof\<close> and changes nothing.\<close>

theorem add_proof_checks_root:
  assumes "trie_hasher H" and "wf_siblings siblings" "unat idx < 2 ^ 40"
  shows "if recomputed_root H idx siblings = word_of_bytes (drop 32 (siblings ! 0))
    then \<exists>s'. mem_add_proof H p idx hkey (Some v) siblings s = (Inr (value_hash H (siblings ! 0)), s') \<and>
      ms_nodes s' = insert_nodes (proof_out H (value_hash H (siblings ! 41)) (proof_siblings H (leaf_path idx) siblings 40) @
        [sibling_node H False (siblings ! 0)]) (ms_nodes s) \<and> ms_codes s' = ms_codes s \<and>
      (\<forall>r k. level_map_get (ms_index s') r k =
        (if r = value_hash H (siblings ! 0) \<and> k = (p, hkey) \<and> level_map_get (ms_index s) r k = None
         then Some (proof_entry idx v) else level_map_get (ms_index s) r k))
    else mem_add_proof H p idx hkey (Some v) siblings s = (Inl (Fail InvalidProof), s)"
proof -
  note nodes = trie_hasher.add_proof_nodes_ok [OF assms]
  have hash: "nd_hash (sibling_node H False bs) = value_hash H bs" for bs by (simp add: sibling_node_def)
  show ?thesis
    unfolding recomputed_root_def
    using mem_add_proof_rejected [of H idx siblings "Fail InvalidProof" p hkey "Some v" s]
      mem_add_proof_accepted [of H idx siblings "sibling_node H False (siblings ! 0)" _ "Some v" v p hkey s]
    by (auto simp: nodes hash)
qed

theorem add_proof_checks_root_witness:
  "\<exists>s'. mem_add_proof toy_hash 9 6 7 (Some (word_bytes 3)) toy_siblings mem_store_new = (Inr 81005, s') \<and>
     level_map_get (ms_index s') 81005 (9, 7) = Some (proof_entry 6 (word_bytes 3))"
proof -
  have "value_hash toy_hash (word_bytes 0 @ word_bytes 80005) = 81005"
    by (simp add: value_hash_def toy_hash_def toy_word_def)
  moreover have "level_map_get (ms_index mem_store_new) r k = None" for r k
    by (simp add: level_map_get_def mem_store_new_def)
  ultimately show ?thesis
    using add_proof_checks_root [OF toy_trie_hasher toy_wf_siblings, of 6 9 7 "word_bytes 3" mem_store_new]
    by (force simp: toy_recomputed_root toy_siblings_nth)
qed

text \<open>The nodes that an accepted proof determines: siblings, branches above the leaf and the root of its trie.\<close>

definition proof_node_set :: "hasher \<Rightarrow> u64 \<Rightarrow> bytes list \<Rightarrow> node set" where
  "proof_node_set H idx siblings = insert (sibling_node H False (siblings ! 0))
     (set (proof_out H (value_hash H (siblings ! 41)) (proof_siblings H (leaf_path idx) siblings 40)))"

text \<open>C18: an accepted proof does not make its leaf readable. When the store did not know the hash of
  the proof's leaf before the call and the leaf's sibling is another leaf, then after the call, unless
  the leaf and the nodes of the proof collide, the store still does not know that hash, and reading
  the leaf by its path from the root that the call returns is the error \<open>NodeNotFound\<close> at level 41.\<close>

theorem added_leaf_is_missing:
  assumes "trie_hasher H" and "wf_siblings siblings" "unat idx < 2 ^ 40"
    and "mem_add_proof H p idx hkey v siblings s = (Inr root, s')"
    and "mem_view H s (value_hash H (siblings ! 41)) = None" and "siblings ! 40 \<noteq> siblings ! 41"
  shows "nodes_collide (insert (sibling_node H True (siblings ! 41)) (proof_node_set H idx siblings \<union> ran (empty_nodes H))) \<or>
    mem_view H s' (value_hash H (siblings ! 41)) = None \<and>
    smt_get_node (prefix_db H p') (smt_new root) s' (leaf_path idx) =
      Inl (Fail (NodeNotFound 41 (value_hash H (siblings ! 41))))"
proof (subst disj_imp, rule impI)
  let ?leaf = "sibling_node H True (siblings ! 41)" and ?B = "ran (empty_nodes H)"
  assume "\<not> nodes_collide (insert ?leaf (proof_node_set H idx siblings \<union> ?B))"
  then have inj: "inj_on nd_hash (insert ?leaf (proof_node_set H idx siblings \<union> ?B))"
    using collide_or_inj by blast
  obtain r out where nodes: "add_proof_nodes H idx siblings = Inr (r, out)" "root = nd_hash r"
    "ms_nodes s' = insert_nodes out (ms_nodes s)"
    using assms(4) by (rule mem_add_proof_InrD)
  have out: "set out = proof_node_set H idx siblings"
    using nodes(1)
    by (auto simp: trie_hasher.add_proof_nodes_ok [OF assms(1-3)] proof_node_set_def split: if_splits)
  have hash: "nd_hash ?leaf = value_hash H (siblings ! 41)" by (simp add: sibling_node_def)
  have new: "?leaf \<notin> set out"
    unfolding out proof_node_set_def
    using proved_leaf_not_added [OF assms(6)] by (simp add: sibling_node_def)
  have "inj_on nd_hash (insert ?leaf (set out))" using inj by (rule inj_on_subset) (auto simp: out)
  from mem_view_not_inserted [OF nodes(3) _ this new] have fresh: "mem_view H s' (value_hash H (siblings ! 41)) = None"
    using assms(5) by (simp add: hash)
  moreover have "inj_on nd_hash (set out \<union> ?B)" using inj by (rule inj_on_subset) (auto simp: out)
  ultimately show "mem_view H s' (value_hash H (siblings ! 41)) = None \<and>
    smt_get_node (prefix_db H p') (smt_new root) s' (leaf_path idx) =
      Inl (Fail (NodeNotFound 41 (value_hash H (siblings ! 41))))"
    using trie_hasher.add_proof_leaf_missing [OF assms(1) nodes(1) assms(2,3) nodes(3)] nodes(2) by blast
qed

text \<open>A proof without collisions: the leaf of hash 5 next to one of hash 7, below branches of hash 1000.\<close>

definition toy_branch :: node where
  "toy_branch = sibling_node toy_hash False (word_bytes 0 @ word_bytes 0)"

definition toy_proof :: "bytes list" where
  "toy_proof = (word_bytes 0 @ word_bytes 79012) # replicate 39 (word_bytes 0 @ word_bytes 0) @ [word_bytes 7, word_bytes 5]"

lemma toy_branch_value: "value_hash toy_hash (word_bytes a @ word_bytes b) = a + b + 1000"
  by (simp add: value_hash_def toy_hash_def toy_word_def)

lemma toy_branch_nd_hash [simp]: "nd_hash toy_branch = 1000"
  by (simp add: toy_branch_def sibling_node_def toy_branch_value)

lemma toy_proof_nth:
  "0 < j \<Longrightarrow> j < 40 \<Longrightarrow> toy_proof ! j = word_bytes 0 @ word_bytes 0"
  "toy_proof ! 0 = word_bytes 0 @ word_bytes 79012" "toy_proof ! 40 = word_bytes 7" "toy_proof ! 41 = word_bytes 5"
  by (cases j; simp add: toy_proof_def nth_append nth_Cons')+

lemma toy_wf_proof: "wf_siblings toy_proof"
proof -
  have "length (toy_proof ! j) = 64" if "j < 40" for j
    using that toy_proof_nth(1) [of j] toy_proof_nth(2) by (cases "j = 0") simp_all
  moreover have "word_bytes w \<noteq> []" for w using word_bytes_ok by blast
  ultimately show ?thesis
    by (simp add: wf_siblings_def leaf_value_ok_def toy_proof_nth) (simp add: toy_proof_def)
qed

text \<open>The branches above the siblings of hash 1000 have hashes that grow by 2000.\<close>

lemma toy_branches_above:
  assumes "snd ` set ps \<subseteq> {toy_branch}" "unat h + 2000 * length ps < 100000"
    and "n \<in> set (proof_out toy_hash h ps)" "n \<noteq> toy_branch"
  shows "\<exists>i. 0 < i \<and> i \<le> length ps \<and> unat (nd_hash n) = unat h + 2000 * i"
  using assms
proof (induction ps arbitrary: h)
  case (Cons x ps)
  obtain d where x: "x = (d, toy_branch)" using Cons.prems(1) by (cases x) auto
  have ub: "unat (h + 2000) = unat h + 2000"
    using Cons.prems(2) by (subst unat_add_lem [THEN iffD1]) simp_all
  have hash: "nd_hash (branch_over toy_hash d h 1000) = h + 2000" by (simp add: nd_hash_branch_over)
  from Cons.prems(3,4) x consider "n = branch_over toy_hash d h 1000" | "n \<in> set (proof_out toy_hash (h + 2000) ps)"
    by (auto simp: hash)
  then show ?case
  proof cases
    case 1
    then show ?thesis by (intro exI [of _ 1]) (simp add: hash ub)
  next
    case 2
    then obtain i where "0 < i" "i \<le> length ps" "unat (nd_hash n) = unat (h + 2000) + 2000 * i"
      using Cons.IH [of "h + 2000"] Cons.prems(1,2,4) by (auto simp: ub)
    then show ?thesis by (intro exI [of _ "Suc i"]) (simp add: ub)
  qed
qed simp

lemma toy_branches_inj:
  assumes "snd ` set ps \<subseteq> {toy_branch}" "unat h + 2000 * length ps < 100000"
  shows "inj_on nd_hash (set (proof_out toy_hash h ps) - {toy_branch})"
  using assms
proof (induction ps arbitrary: h)
  case (Cons x ps)
  obtain d where x: "x = (d, toy_branch)" using Cons.prems(1) by (cases x) auto
  let ?b = "branch_over toy_hash d h 1000" and ?r = "set (proof_out toy_hash (h + 2000) ps) - {toy_branch}"
  have ub: "unat (h + 2000) = unat h + 2000"
    using Cons.prems(2) by (subst unat_add_lem [THEN iffD1]) simp_all
  have hash: "nd_hash ?b = h + 2000" by (simp add: nd_hash_branch_over)
  have ps: "snd ` set ps \<subseteq> {toy_branch}" "unat (h + 2000) + 2000 * length ps < 100000"
    using Cons.prems by (auto simp: ub)
  have "nd_hash n \<noteq> h + 2000" if "n \<in> ?r" for n
    using toy_branches_above [OF ps, of n] that by auto
  then have "nd_hash ?b \<notin> nd_hash ` ?r" unfolding hash by force
  then have "inj_on nd_hash (insert ?b ?r)"
    using Cons.IH [OF ps] by (auto simp: inj_on_insert)
  moreover have "set (proof_out toy_hash h (x # ps)) - {toy_branch} \<subseteq> insert ?b ?r"
    by (auto simp: x hash)
  ultimately show ?case by (rule inj_on_subset)
qed simp

lemma toy_empty_1: "toy_branch \<in> ran (empty_nodes toy_hash)"
proof -
  have h1: "empty_hash toy_hash 1 = 1000" by (simp add: toy_empty_hash)
  obtain n where n: "empty_nodes toy_hash 1000 = Some n"
    using empty_nodes_dom [of 1 toy_hash] by (auto simp: h1 [simplified])
  have "d = 1" if "d \<le> 40" "1000 = empty_hash toy_hash d" for d
  proof -
    have "(2 :: nat) ^ d = 2 ^ 1" using toy_unat_empty [OF that(1)] that(2) [symmetric] by simp
    then show ?thesis by (rule power_inject_exp [THEN iffD1, rotated]) simp
  qed
  moreover have "nd_hash (empty_world_root toy_hash) \<noteq> 1000" using toy_unat_root by auto
  moreover have "empty_node toy_hash 1 = toy_branch"
    by (simp add: empty_node_def toy_branch_def sibling_node_def toy_branch_value toy_empty_hash)
  ultimately show ?thesis using empty_nodes_cases [OF n] n by (force simp: ran_def)
qed

lemma toy_empty_ran: "n \<in> ran (empty_nodes toy_hash) \<Longrightarrow> unat (nd_hash n) mod 1000 = 0"
  using toy_empty_mod by (auto simp: ran_def dest: empty_nodes_hash)

lemma empty_nodes_inj: "inj_on nd_hash (ran (empty_nodes H))"
proof (rule inj_onI)
  fix m n assume "m \<in> ran (empty_nodes H)" "n \<in> ran (empty_nodes H)" and eq: "nd_hash m = nd_hash n"
  then obtain a b where ab: "empty_nodes H a = Some m" "empty_nodes H b = Some n" unfolding ran_def by blast
  have "a = b" by (rule box_equals [OF eq empty_nodes_hash [OF ab(1)] empty_nodes_hash [OF ab(2)]])
  then show "m = n" using ab by (simp only: option.inject)
qed

lemma inj_on_union: "inj_on f A \<Longrightarrow> inj_on f B \<Longrightarrow> f ` A \<inter> f ` B = {} \<Longrightarrow> inj_on f (A \<union> B)"
  by (subst inj_on_Un) blast

lemma toy_proof_free:
  "\<not> nodes_collide (insert (sibling_node toy_hash True (toy_proof ! 41))
     (proof_node_set toy_hash 6 toy_proof \<union> ran (empty_nodes toy_hash)))"
proof -
  let ?E = "ran (empty_nodes toy_hash)" and ?ps = "proof_siblings toy_hash (leaf_path 6) toy_proof 39"
  let ?b = "branch_over toy_hash (leaf_path 6 ! 40) 5 7" and ?P = "set (proof_out toy_hash 1012 ?ps) - {toy_branch}"
  let ?top = "sibling_node toy_hash False (toy_proof ! 0)" and ?l = "\<lambda>i. sibling_node toy_hash True (toy_proof ! i)"
  have hb: "nd_hash ?b = 1012" by (simp add: nd_hash_branch_over)
  have h: "nd_hash ?top = 80012" "nd_hash (?l 40) = 7" "nd_hash (?l 41) = 5"
    by (simp_all add: sibling_node_def toy_proof_nth toy_branch_value)
  have ps: "snd ` set ?ps \<subseteq> {toy_branch}" "length ?ps = 39"
    by (auto simp: proof_siblings_def toy_proof_nth toy_branch_def simp del: upt_Suc upt_rec_numeral)
  have P: "\<exists>i. 0 < i \<and> i \<le> 39 \<and> unat (nd_hash n) = 1012 + 2000 * i" if "n \<in> ?P" for n
    using toy_branches_above [OF ps(1), of 1012 n] ps(2) that by simp
  have "proof_siblings toy_hash (leaf_path 6) toy_proof 40 = (leaf_path 6 ! 40, ?l 40) # ?ps"
    using proof_siblings_Suc [of toy_hash "leaf_path 6" toy_proof 39] by simp
  then have all: "insert (?l 41) (proof_node_set toy_hash 6 toy_proof \<union> ?E) = {?l 41, ?top, ?l 40, ?b} \<union> ?P \<union> ?E"
    using toy_empty_1 hb h(2) toy_proof_nth(4) by (auto simp: proof_node_set_def simp del: upt_Suc upt_rec_numeral)
  have P_inj: "inj_on nd_hash ?P"
    by (rule toy_branches_inj) (use ps in simp_all)
  have A_P: "nd_hash ` {?l 41, ?top, ?l 40, ?b} \<inter> nd_hash ` ?P = {}"
    using P by (fastforce simp: h hb)
  have A_inj: "inj_on nd_hash {?l 41, ?top, ?l 40, ?b}" by (rule inj_onI) (auto simp: h hb)
  have E: "nd_hash ` ({?l 41, ?top, ?l 40, ?b} \<union> ?P) \<inter> nd_hash ` ?E = {}"
  proof -
    have "unat (nd_hash n) mod 1000 \<noteq> 0" if "n \<in> {?l 41, ?top, ?l 40, ?b} \<union> ?P" for n
    proof (cases "n \<in> {?l 41, ?top, ?l 40, ?b}")
      case False
      then have "n \<in> ?P" using that by blast
      then obtain i where "unat (nd_hash n) = 12 + 1000 * (1 + 2 * i)" using P by fastforce
      then show ?thesis by (simp only: mod_mult_self2) simp
    qed (auto simp: h hb)
    then show ?thesis using toy_empty_ran by fastforce
  qed
  have "inj_on nd_hash (insert (?l 41) (proof_node_set toy_hash 6 toy_proof \<union> ?E))"
    unfolding all by (rule inj_on_union [OF inj_on_union [OF A_inj P_inj A_P] empty_nodes_inj E])
  then show ?thesis unfolding nodes_collide_def inj_on_def by blast
qed

theorem added_leaf_is_missing_witness:
  "\<exists>s'. mem_add_proof toy_hash 9 6 7 (Some (word_bytes 3)) toy_proof mem_store_new = (Inr 80012, s') \<and>
    mem_view toy_hash s' 5 = None \<and>
    smt_get_node (prefix_db toy_hash 9) (smt_new 80012) s' (leaf_path 6) = Inl (Fail (NodeNotFound 41 5))"
proof -
  have "map (snd \<circ> apsnd nd_hash) (proof_siblings toy_hash (leaf_path 6) toy_proof 39) = replicate 39 1000"
    by (rule nth_equalityI)
      (simp_all add: proof_siblings_def sibling_node_def toy_proof_nth toy_branch_value rev_nth del: upt_Suc upt_rec_numeral)
  moreover have "length (proof_siblings toy_hash (leaf_path 6) toy_proof 39) = 39"
    by (simp add: proof_siblings_def del: upt_Suc upt_rec_numeral)
  ultimately have "recomputed_root toy_hash 6 toy_proof = 79012"
    using proof_siblings_Suc [of toy_hash "leaf_path 6" toy_proof 39]
    by (simp add: recomputed_root_def toy_proof_hash toy_proof_nth sum_list_replicate sibling_node_def o_def)
  then have "add_proof_nodes toy_hash 6 toy_proof = Inr (sibling_node toy_hash False (toy_proof ! 0),
      proof_out toy_hash 5 (proof_siblings toy_hash (leaf_path 6) toy_proof 40) @ [sibling_node toy_hash False (toy_proof ! 0)])"
    using toy.add_proof_nodes_ok [OF toy_wf_proof, of 6] by (simp add: recomputed_root_def toy_proof_nth)
  from mem_add_proof_accepted [OF this refl, of 9 7 "word_bytes 3" mem_store_new]
  obtain s' where s': "mem_add_proof toy_hash 9 6 7 (Some (word_bytes 3)) toy_proof mem_store_new = (Inr 80012, s')"
    by (auto simp: sibling_node_def toy_proof_nth toy_branch_value)
  have "word_bytes (7 :: sh256) \<noteq> word_bytes 5" 
    by (rule notI, drule arg_cong [where f = "value_hash toy_hash"]) simp
  moreover have "mem_view toy_hash mem_store_new 5 = None"
    using toy_empty_mod [of 5] by (cases "empty_nodes toy_hash 5") (auto simp: mem_view_def mem_store_new_def)
  ultimately show ?thesis
    using added_leaf_is_missing [OF toy_trie_hasher toy_wf_proof _ s', of 9] toy_proof_free s'
    by (simp add: toy_proof_nth)
qed

section \<open>A store built from traces\<close>

text \<open>C16: a store is built from any traces with complete proofs. Its index answers, for a root and
  a key, what the last trace of this key that starts at this root says, and panics on any other.
  Unless nodes collide, every leaf that a proof of a write trace is about can be reached from the
  root that the proof determines.\<close>

theorem store_from_traces:
  assumes "trie_hasher H" and "traces \<noteq> []" "\<forall>tr\<in>set traces. wf_trace tr"
    and "\<forall>tr\<in>set traces. \<exists>k. trie_hash H (trace_key tr) = Inr k"
  shows "\<exists>s. mem_store_from_traces H traces = Inr s \<and>
    (\<forall>root k. mem_get_nearest_keys u64_max_value s root k =
      (case find (\<lambda>tr. trace_top H tr = root \<and> trace_hkey H tr = k) (rev traces) of
         Some tr \<Rightarrow> Inr (trace_key_range tr) | None \<Rightarrow> Inl Panic)) \<and>
    (nodes_collide (set (concat (map (trace_stored H) traces)) \<union> ran (empty_nodes H)) \<or>
     (\<forall>tr\<in>set traces. \<forall>(pf, l)\<in>set (trace_proofs tr).
        walk (mem_view H s) (proof_root H (pf, l)) (leaf_bits (tp_leaf_index pf)) = Some (proof_leaf H l)))"
proof -
  obtain s where s: "mem_store_from_traces H traces = Inr s"
    "ms_nodes s = insert_nodes (concat (map (trace_stored H) traces)) Map.empty"
    "\<forall>r p k. level_map_get (ms_index s) r (p, k) =
      map_option trace_key_range (find (\<lambda>tr. trace_top H tr = r \<and> trace_hkey H tr = k \<and> p = u64_max_value) (rev traces))"
    using trie_hasher.from_traces_ok [OF assms] by blast
  let ?C = "nodes_collide (set (concat (map (trace_stored H) traces)) \<union> ran (empty_nodes H))"
  have "walk (mem_view H s) (proof_root H (pf, l)) (leaf_bits (tp_leaf_index pf)) = Some (proof_leaf H l)"
    if "\<not> ?C" "tr \<in> set traces" "(pf, l) \<in> set (trace_proofs tr)" for tr pf l
  proof -
    have "inj_on nd_hash (set (concat (map (trace_stored H) traces)) \<union> ran (empty_nodes H))"
      using that(1) collide_or_inj by blast
    from trie_hasher.from_traces_walk [OF assms(1) s(2) this that(2) _ that(3)] assms(3) that(2)
    show ?thesis by simp
  qed
  then have walks: "?C \<or> (\<forall>tr\<in>set traces. \<forall>(pf, l)\<in>set (trace_proofs tr).
      walk (mem_view H s) (proof_root H (pf, l)) (leaf_bits (tp_leaf_index pf)) = Some (proof_leaf H l))" by blast
  have "mem_get_nearest_keys u64_max_value s root k =
      (case find (\<lambda>tr. trace_top H tr = root \<and> trace_hkey H tr = k) (rev traces) of
         Some tr \<Rightarrow> Inr (trace_key_range tr) | None \<Rightarrow> Inl Panic)" for root k
    using s(3) by (simp add: nearest_keys_get split: option.split)
  with s(1) walks show ?thesis by blast
qed

definition toy_update_trace :: trace where
  "toy_update_trace = Trace_Update \<lparr>ut_location = [], ut_new_next_free_node = 3, ut_old_sub_root = 80005, ut_new_sub_root = 0,
     ut_proof = \<lparr>tp_leaf_index = 2, tp_siblings = replicate 40 0\<rparr>, ut_key = word_bytes 7, ut_old_value = word_bytes 3,
     ut_new_value = word_bytes 4, ut_prior_updated_leaf = toy_leaf 2\<rparr>"

theorem store_from_traces_witness:
  "\<exists>s. mem_store_from_traces toy_hash [toy_update_trace] = Inr s \<and>
     mem_get_nearest_keys u64_max_value s 81008 7 = Inr (trace_key_range toy_update_trace)"
proof -
  have key: "trie_hash toy_hash (trace_key toy_update_trace) = Inr 7" by (simp add: toy_update_trace_def)
  moreover have "wf_trace toy_update_trace" by (simp add: toy_update_trace_def wf_trace_def)
  moreover have "trace_top toy_hash toy_update_trace = 81008" by (simp add: trace_top_def toy_update_trace_def)
  moreover have "trace_hkey toy_hash toy_update_trace = 7" using key by (simp add: trace_hkey_def)
  ultimately show ?thesis
    using store_from_traces [OF toy_trie_hasher, of "[toy_update_trace]"] by auto
qed

section \<open>The initial trie\<close>

text \<open>C22: creating a trie on an empty store. Unless nodes collide or the static empty nodes do, it
  succeeds, the two first slots hold the head and the tail, every other slot is empty and the
  counter stands at 2.\<close>

theorem new_trie_has_head_and_tail:
  assumes "trie_hasher H"
  shows "\<not> empty_distinct H \<or>
    node_collision (mem_view H) (zk_set_head_and_tail H (log_db (prefix_db H p)))
      (zk_new (nd_hash (empty_world_root H))) mem_store_new \<or>
    (\<exists>t s. zk_empty H (prefix_db H p) mem_store_new = (Inr t, s) \<and>
      trie_rep (mem_view H s) (smt_root_hash t) 2
        (no_leaves(0 \<mapsto> Some (leaf_opening_to_bytes leaf_opening_head), 1 \<mapsto> Some (leaf_opening_to_bytes leaf_opening_tail))))"
proof -
  have "consistent (mem_view H mem_store_new)"
    by (rule consistent_mem_view) (simp add: mem_store_new_def consistent_def)
  then have free: "node_collision (mem_view H) (zk_set_head_and_tail H (log_db (prefix_db H p)))
        (zk_new (nd_hash (empty_world_root H))) mem_store_new \<or>
      trie_clash_free (mem_view H) (zk_set_head_and_tail H (log_db (prefix_db H p)))
        (zk_new (nd_hash (empty_world_root H))) mem_store_new"
    by (rule collision_or_free)
  show ?thesis
    using free trie_db.zk_empty_ok [OF trie_hasher.prefix_trie_db [OF assms, of p] _
      trie_hasher.mem_view_empty [OF assms, of mem_store_new]] by blast
qed

lemma toy_empty_distinct: "empty_distinct toy_hash"
proof -
  have "inj_on (empty_hash toy_hash) (set [0..<41])"
  proof (rule inj_onI)
    fix i j assume "i \<in> set [0..<41]" "j \<in> set [0..<41]" and eq: "empty_hash toy_hash i = empty_hash toy_hash j"
    then have "i \<le> 40" "j \<le> 40" by simp_all
    then have "(2 :: nat) ^ i - 1 = 2 ^ j - 1" using toy_unat_empty [of i] toy_unat_empty [of j] eq by simp
    then have "(2 :: nat) ^ i = 2 ^ j"
      using one_le_power [of "2 :: nat" i] one_le_power [of "2 :: nat" j] by linarith
    then show "i = j" by (rule power_inject_exp [THEN iffD1, rotated]) simp
  qed
  moreover have "nd_hash (empty_world_root toy_hash) \<notin> empty_hash toy_hash ` set [0..<41]"
  proof
    assume "nd_hash (empty_world_root toy_hash) \<in> empty_hash toy_hash ` set [0..<41]"
    then obtain d where d: "nd_hash (empty_world_root toy_hash) = empty_hash toy_hash d" "d \<in> set [0..<41]"
      by (rule imageE)
    then have that: "d \<le> 40" by simp
    with d(1) have "(2 :: nat) ^ 40 * 1000 = (2 ^ d - 1) * 1000"
      using toy_unat_empty [OF that] toy_unat_root by simp
    moreover have "(2 :: nat) ^ d \<le> 2 ^ 40" using that by (rule power_increasing) simp
    ultimately show False by simp
  qed
  ultimately show ?thesis
    by (simp add: empty_distinct_def distinct_map del: upt_rec_numeral set_upt)
qed

theorem new_trie_has_head_and_tail_witness:
  "node_collision (mem_view toy_hash) (zk_set_head_and_tail toy_hash (log_db (prefix_db toy_hash 5)))
      (zk_new (nd_hash (empty_world_root toy_hash))) mem_store_new \<or>
    (\<exists>t s. zk_empty toy_hash (prefix_db toy_hash 5) mem_store_new = (Inr t, s) \<and>
      trie_rep (mem_view toy_hash s) (smt_root_hash t) 2
        (no_leaves(0 \<mapsto> Some (leaf_opening_to_bytes leaf_opening_head), 1 \<mapsto> Some (leaf_opening_to_bytes leaf_opening_tail))))"
  using new_trie_has_head_and_tail [OF toy_trie_hasher, of 5] toy_empty_distinct by blast

end
