(* ===== verification/Trie_Dictionary.thy ===== *)
theory Trie_Dictionary
  imports Trie_Properties
begin

text \<open>
  The trie as a dictionary. Its leaves form a list in the order of their keys, from the head to the
  tail; the previous links of the leaves tell the list (the next links do not, since reading a leaf
  loses them). On a complete trie, \<open>put\<close> and \<open>remove\<close> of \<open>trie.rs\<close> refine the update of a
  finite map from key hashes to value hashes, provided that the index of the store names the
  neighbours of the key.
\<close>

section \<open>The list of leaves\<close>

type_synonym entries = "(u64 \<times> leaf_opening) list"

abbreviation entry_key :: "u64 \<times> leaf_opening \<Rightarrow> sh256" where
  "entry_key e \<equiv> lo_hkey (snd e)"

definition leaves_of :: "entries \<Rightarrow> u64 \<rightharpoonup> bytes" where
  "leaves_of xs = map_of (map (apsnd leaf_opening_to_bytes) xs)"

definition linked :: "(u64 \<rightharpoonup> bytes option) \<Rightarrow> entries \<Rightarrow> bool" where
  "linked L xs \<longleftrightarrow> distinct (map fst xs) \<and> sorted_wrt (<) (map entry_key xs) \<and>
     successively (\<lambda>(i, l) (j, m). lo_prev_leaf m = i) xs \<and>
     (\<forall>i. Option.bind (L i) id = leaves_of xs i)"

definition contents :: "entries \<Rightarrow> sh256 \<rightharpoonup> sh256" where
  "contents xs = map_of (map (\<lambda>(i, l). (lo_hkey l, lo_hval l)) xs)"

text \<open>The neighbours of a key, and its own leaf when there is one.\<close>

fun neighbours :: "sh256 \<Rightarrow> entries \<Rightarrow> (u64 \<times> u64 option \<times> u64) option" where
  "neighbours k ((i, l) # (j, m) # xs) =
     (if lo_hkey l < k \<and> k < lo_hkey m then Some (i, None, j)
      else if lo_hkey m = k then (case xs of (r, n) # _ \<Rightarrow> Some (i, Some j, r) | [] \<Rightarrow> None)
      else neighbours k ((j, m) # xs))"
| "neighbours k _ = None"

definition right_range :: "key_range \<Rightarrow> sh256 \<Rightarrow> entries \<Rightarrow> bool" where
  "right_range kr k xs \<longleftrightarrow>
     neighbours k xs = Some (kr_left_index kr, map_option fl_leaf_index (kr_center kr), kr_right_index kr)"

lemma neighbours_absent:
  assumes "neighbours k xs = Some (i, None, j)"
  obtains ys l m zs where "xs = ys @ (i, l) # (j, m) # zs" "lo_hkey l < k" "k < lo_hkey m"
  using assms
proof (induction k xs arbitrary: thesis rule: neighbours.induct)
  case (1 k i' l' j' m' xs)
  show ?case
  proof (cases "lo_hkey l' < k \<and> k < lo_hkey m'")
    case True
    then show ?thesis using 1(2) [of "[]"] 1(3) by simp
  next
    case False
    then have "lo_hkey m' \<noteq> k" "neighbours k ((j', m') # xs) = Some (i, None, j)"
      using 1(3) by (auto split: if_splits list.splits)
    then obtain ys l m zs where "(j', m') # xs = ys @ (i, l) # (j, m) # zs" "lo_hkey l < k" "k < lo_hkey m"
      using 1(1) [OF False] by metis
    then show ?thesis using 1(2) [of "(i', l') # ys"] by simp
  qed
qed simp_all

lemma neighbours_present:
  assumes "neighbours k xs = Some (i, Some c, j)"
  obtains ys l q m zs where "xs = ys @ (i, l) # (c, q) # (j, m) # zs" "lo_hkey q = k"
  using assms
proof (induction k xs arbitrary: thesis rule: neighbours.induct)
  case (1 k i' l' j' m' xs)
  show ?case
  proof (cases "lo_hkey m' = k \<and> \<not> (lo_hkey l' < k \<and> k < lo_hkey m')")
    case True
    then obtain r n rest where "xs = (r, n) # rest" "i = i'" "c = j'" "j = r"
      using 1(3) by (auto split: list.splits)
    then show ?thesis using 1(2) [of "[]"] True by simp
  next
    case False
    then have less: "\<not> (lo_hkey l' < k \<and> k < lo_hkey m')" "lo_hkey m' \<noteq> k" using 1(3) by auto
    then have "neighbours k ((j', m') # xs) = Some (i, Some c, j)" using 1(3) by (auto split: if_splits)
    then obtain ys l q m zs where "(j', m') # xs = ys @ (i, l) # (c, q) # (j, m) # zs" "lo_hkey q = k"
      using 1(1) [OF less] by metis
    then show ?thesis using 1(2) [of "(i', l') # ys"] by simp
  qed
qed simp_all

section \<open>Updates of the list\<close>

lemma leaves_of_append [simp]: "leaves_of (xs @ ys) = leaves_of ys ++ leaves_of xs"
  by (simp add: leaves_of_def)

lemma leaves_of_Cons [simp]: "leaves_of ((i, l) # xs) = (leaves_of xs)(i \<mapsto> leaf_opening_to_bytes l)"
  by (simp add: leaves_of_def)

lemma leaves_of_None: "leaves_of xs i = None \<longleftrightarrow> i \<notin> fst ` set xs"
  by (simp add: leaves_of_def map_of_eq_None_iff image_image)

lemma linked_at: "linked L xs \<Longrightarrow> (i, l) \<in> set xs \<Longrightarrow> L i = Some (Some (leaf_opening_to_bytes l))"
proof -
  assume l: "linked L xs" "(i, l) \<in> set xs"
  then have "leaves_of xs i = Some (leaf_opening_to_bytes l)"
    unfolding leaves_of_def by (intro map_of_is_SomeI) (force simp: linked_def o_def)+
  then have "Option.bind (L i) id = Some (leaf_opening_to_bytes l)" using l(1) by (simp add: linked_def)
  then show ?thesis by (simp add: bind_eq_Some_conv)
qed

text \<open>What the operations do to the list, with the links as the program writes them.\<close>

lemma linked_put:
  assumes "linked L (ys @ (i, l) # (j, m) # zs)" "lo_hkey l < k" "k < lo_hkey m" "n \<notin> fst ` set (ys @ (i, l) # (j, m) # zs)"
    and "lo_hkey l' = lo_hkey l" "lo_prev_leaf l' = lo_prev_leaf l" "lo_hkey q = k" "lo_prev_leaf q = i"
    and "lo_hkey m' = lo_hkey m" "lo_prev_leaf m' = n"
  shows "linked (L(i \<mapsto> Some (leaf_opening_to_bytes l'), n \<mapsto> Some (leaf_opening_to_bytes q), j \<mapsto> Some (leaf_opening_to_bytes m')))
    (ys @ (i, l') # (n, q) # (j, m') # zs)"
proof -
  let ?xs = "ys @ (i, l) # (j, m) # zs" and ?new = "ys @ (i, l') # (n, q) # (j, m') # zs"
  note lk = assms(1) [unfolded linked_def]
  have d: "distinct (map fst ?xs)" using lk by blast
  have "\<forall>x\<in>set ys. entry_key x < k" "\<forall>x\<in>set zs. k < entry_key x"
    using lk assms(2,3) by (auto simp: sorted_wrt_append)
  then have "sorted_wrt (<) (map entry_key ?new)"
    using lk assms(2,3,5,7,9) by (auto simp: sorted_wrt_append)
  moreover have "successively (\<lambda>(i, l) (j, m). lo_prev_leaf m = i) ?new"
    using lk assms(6,8,10) by (auto simp: successively_append_iff successively_Cons split: if_splits)
  moreover have "leaves_of ?new = (leaves_of ?xs)(i \<mapsto> leaf_opening_to_bytes l', n \<mapsto> leaf_opening_to_bytes q, j \<mapsto> leaf_opening_to_bytes m')"
  proof
    fix x
    have "leaves_of ys i = None" "leaves_of ys j = None" "leaves_of ys n = None" "i \<noteq> j" "i \<noteq> n" "j \<noteq> n"
      using d assms(4) by (auto simp: leaves_of_None)
    then show "leaves_of ?new x =
        ((leaves_of ?xs)(i \<mapsto> leaf_opening_to_bytes l', n \<mapsto> leaf_opening_to_bytes q, j \<mapsto> leaf_opening_to_bytes m')) x"
      by (auto simp: map_add_def split: option.split)
  qed
  ultimately show ?thesis
    using lk assms(4) by (auto simp: linked_def)
qed

lemma linked_change:
  assumes "linked L (ys @ (i, l) # zs)" "lo_hkey l' = lo_hkey l" "lo_prev_leaf l' = lo_prev_leaf l"
  shows "linked (L(i \<mapsto> Some (leaf_opening_to_bytes l'))) (ys @ (i, l') # zs)"
proof -
  have "leaves_of ys i = None" using assms(1) by (auto simp: linked_def leaves_of_None)
  then have "leaves_of (ys @ (i, l') # zs) = (leaves_of (ys @ (i, l) # zs))(i \<mapsto> leaf_opening_to_bytes l')"
    by (auto simp: fun_eq_iff map_add_def split: option.split)
  then show ?thesis
    using assms by (auto simp: linked_def sorted_wrt_append successively_append_iff successively_Cons split: if_splits)
qed

lemma linked_remove:
  assumes "linked L (ys @ (i, l) # (c, q) # (j, m) # zs)"
    and "lo_hkey l' = lo_hkey l" "lo_prev_leaf l' = lo_prev_leaf l" "lo_hkey m' = lo_hkey m" "lo_prev_leaf m' = i"
  shows "linked (L(i \<mapsto> Some (leaf_opening_to_bytes l'), c \<mapsto> None, j \<mapsto> Some (leaf_opening_to_bytes m')))
    (ys @ (i, l') # (j, m') # zs)"
proof -
  let ?xs = "ys @ (i, l) # (c, q) # (j, m) # zs" and ?new = "ys @ (i, l') # (j, m') # zs"
  note lk = assms(1) [unfolded linked_def]
  have d: "distinct (map fst ?xs)" using lk by blast
  have "sorted_wrt (<) (map entry_key ?new)" using lk assms(2,4) by (auto simp: sorted_wrt_append)
  moreover have "successively (\<lambda>(i, l) (j, m). lo_prev_leaf m = i) ?new"
    using lk assms(3,5) by (auto simp: successively_append_iff successively_Cons split: if_splits)
  moreover have "leaves_of ?new = ((leaves_of ?xs)(i \<mapsto> leaf_opening_to_bytes l', j \<mapsto> leaf_opening_to_bytes m'))(c := None)"
  proof
    fix x
    have "leaves_of ys i = None" "leaves_of ys j = None" "leaves_of ys c = None" "leaves_of zs c = None" "i \<noteq> j" "i \<noteq> c" "j \<noteq> c"
      using d by (auto simp: leaves_of_None)
    then show "leaves_of ?new x =
        (((leaves_of ?xs)(i \<mapsto> leaf_opening_to_bytes l', j \<mapsto> leaf_opening_to_bytes m'))(c := None)) x"
      by (auto simp: map_add_def split: option.split)
  qed
  moreover have "i \<noteq> c" "j \<noteq> c" "distinct (map fst ?new)" using d by auto
  ultimately show ?thesis using lk by (auto simp: linked_def)
qed

section \<open>The contents\<close>

lemma contents_append [simp]: "contents (xs @ ys) = contents ys ++ contents xs"
  by (simp add: contents_def)

lemma contents_Cons [simp]: "contents ((i, l) # xs) = (contents xs)(lo_hkey l \<mapsto> lo_hval l)"
  by (simp add: contents_def)

lemma contents_None: "contents xs k = None \<longleftrightarrow> k \<notin> entry_key ` set xs"
  by (force simp: contents_def map_of_eq_None_iff)

lemma contents_put:
  assumes "sorted_wrt (<) (map entry_key (ys @ (i, l) # (j, m) # zs))" "lo_hkey l < lo_hkey q" "lo_hkey q < lo_hkey m"
    and "lo_hkey l' = lo_hkey l" "lo_hval l' = lo_hval l" "lo_hkey m' = lo_hkey m" "lo_hval m' = lo_hval m"
  shows "contents (ys @ (i, l') # (n, q) # (j, m') # zs) = (contents (ys @ (i, l) # (j, m) # zs))(lo_hkey q \<mapsto> lo_hval q)"
proof
  fix x
  have "contents ys (lo_hkey q) = None" using assms(1,2) by (force simp: contents_None sorted_wrt_append)
  then show "contents (ys @ (i, l') # (n, q) # (j, m') # zs) x =
      ((contents (ys @ (i, l) # (j, m) # zs))(lo_hkey q \<mapsto> lo_hval q)) x"
    using assms(2-) by (auto simp: map_add_def split: option.split)
qed

lemma contents_change:
  assumes "sorted_wrt (<) (map entry_key (ys @ (i, l) # zs))" "lo_hkey l' = lo_hkey l"
  shows "contents (ys @ (i, l') # zs) = (contents (ys @ (i, l) # zs))(lo_hkey l \<mapsto> lo_hval l')"
proof
  fix x
  have "contents ys (lo_hkey l) = None" using assms(1) by (force simp: contents_None sorted_wrt_append)
  then show "contents (ys @ (i, l') # zs) x = ((contents (ys @ (i, l) # zs))(lo_hkey l \<mapsto> lo_hval l')) x"
    using assms(2) by (auto simp: map_add_def split: option.split)
qed

lemma contents_remove:
  assumes "sorted_wrt (<) (map entry_key (ys @ (i, l) # (c, q) # (j, m) # zs))"
    and "lo_hkey l' = lo_hkey l" "lo_hval l' = lo_hval l" "lo_hkey m' = lo_hkey m" "lo_hval m' = lo_hval m"
  shows "contents (ys @ (i, l') # (j, m') # zs) = (contents (ys @ (i, l) # (c, q) # (j, m) # zs))(lo_hkey q := None)"
proof
  fix x
  have "contents ys (lo_hkey q) = None" "contents zs (lo_hkey q) = None" "lo_hkey l \<noteq> lo_hkey q" "lo_hkey m \<noteq> lo_hkey q"
    using assms(1) by (force simp: contents_None sorted_wrt_append)+
  then show "contents (ys @ (i, l') # (j, m') # zs) x =
      ((contents (ys @ (i, l) # (c, q) # (j, m) # zs))(lo_hkey q := None)) x"
    using assms(2-) by (auto simp: map_add_def split: option.split)
qed

section \<open>The trie as a dictionary\<close>

text \<open>A complete trie: every slot is known, the leaves are linked, and the slots from the counter on are free.\<close>

definition dictionary :: "(sh256 \<rightharpoonup> node) \<Rightarrow> zk_trie \<Rightarrow> u64 \<Rightarrow> entries \<Rightarrow> bool" where
  "dictionary V t nf xs \<longleftrightarrow> (\<exists>L. trie_rep V (smt_root_hash t) nf L \<and> dom L = {i. unat i < 2 ^ 40} \<and> linked L xs \<and>
     (\<forall>i. nf \<le> i \<and> unat i < 2 ^ 40 \<longrightarrow> L i = Some None))"

lemma dictionaryE:
  assumes "dictionary V t nf xs"
  obtains L where "trie_rep V (smt_root_hash t) nf L" "dom L = {i. unat i < 2 ^ 40}" "linked L xs"
    "\<And>i. nf \<le> i \<Longrightarrow> unat i < 2 ^ 40 \<Longrightarrow> L i = Some None"
  using assms unfolding dictionary_def by blast

lemma next_slot: "unat (nf :: u64) < 2 ^ 40 \<Longrightarrow> nf + 1 \<le> i \<Longrightarrow> nf \<le> i \<and> i \<noteq> nf"
proof -
  assume "unat nf < 2 ^ 40" "nf + 1 \<le> i"
  moreover from this(1) have "unat (nf + 1) = unat nf + 1"
    by (simp add: unat_word_ariths(1))
  ultimately show ?thesis by (auto simp: word_le_nat_alt)
qed

datatype dict_op = PutOp bytes bytes | RemoveOp bytes

fun run_op :: "hasher \<Rightarrow> 's database \<Rightarrow> dict_op \<Rightarrow> (zk_trie \<times> 's, zk_error, unit) comp" where
  "run_op H D (PutOp key val) = zk_put H D key val"
| "run_op H D (RemoveOp key) = zk_remove H D key"

fun op_key :: "dict_op \<Rightarrow> bytes" where
  "op_key (PutOp key val) = key"
| "op_key (RemoveOp key) = key"

fun map_op :: "hasher \<Rightarrow> dict_op \<Rightarrow> sh256 \<Rightarrow> (sh256 \<rightharpoonup> sh256) \<Rightarrow> (sh256 \<rightharpoonup> sh256)" where
  "map_op H (PutOp key val) k m = m(k := Some (projr (trie_hash H val)))"
| "map_op H (RemoveOp key) k m = m(k := None)"

fun op_allowed :: "hasher \<Rightarrow> u64 \<Rightarrow> dict_op \<Rightarrow> bool" where
  "op_allowed H nf (PutOp key val) \<longleftrightarrow> unat nf < 2 ^ 40 \<and> \<not> isl (trie_hash H val)"
| "op_allowed H nf (RemoveOp key) \<longleftrightarrow> True"

context trie_db begin

lemma dictionary_put_absent:
  assumes free: "trie_clash_free view (zk_put H (log_db D) key val) t s" and dict: "dictionary (view s) t nf xs"
    and keys: "trie_hash H key = Inr k" "trie_hash H val = Inr hv"
      "db_get_nearest_keys D s (smt_root_hash t) k = Inr kr" "kr_center kr = None"
    and range: "neighbours k xs = Some (kr_left_index kr, None, kr_right_index kr)" and nf: "unat nf < 2 ^ 40"
  shows "\<exists>t' s' xs'. zk_put H D key val (t, s) = (Inr (), (t', s')) \<and> consistent (view s') \<and> view s \<subseteq>\<^sub>m view s' \<and>
    dictionary (view s') t' (nf + 1) xs' \<and>
    contents xs' = (contents xs)(k \<mapsto> hv)"
proof -
  obtain L where L: "trie_rep (view s) (smt_root_hash t) nf L" "dom L = {i. unat i < 2 ^ 40}" "linked L xs"
    "\<And>i. nf \<le> i \<Longrightarrow> unat i < 2 ^ 40 \<Longrightarrow> L i = Some None" using dict by (rule dictionaryE) blast
  obtain ys l m zs where xs: "xs = ys @ (kr_left_index kr, l) # (kr_right_index kr, m) # zs" "lo_hkey l < k" "k < lo_hkey m"
    using range by (rule neighbours_absent)
  let ?i = "kr_left_index kr" and ?j = "kr_right_index kr"
  let ?l = "l\<lparr>lo_next_leaf := nf\<rparr>" and ?q = "leaf_opening_new ?i ?j k hv" and ?m = "m\<lparr>lo_next_leaf := lo_prev_leaf m, lo_prev_leaf := nf\<rparr>"
  have at: "L ?i = Some (Some (leaf_opening_to_bytes l))" "L ?j = Some (Some (leaf_opening_to_bytes m))" "L nf = Some None"
    using linked_at [OF L(3)] L(4) nf by (simp_all add: xs)
  have fresh: "nf \<notin> fst ` set xs"
  proof
    assume "nf \<in> fst ` set xs"
    then obtain e where "(nf, e) \<in> set xs" by force
    with linked_at [OF L(3) this] at(3) show False by simp
  qed
  have ne: "?i \<noteq> nf" "?j \<noteq> nf" "?i \<noteq> ?j" using fresh L(3) by (auto simp: xs linked_def)
  obtain t' s' where run: "zk_put H D key val (t, s) = (Inr (), (t', s'))" "consistent (view s')" "view s \<subseteq>\<^sub>m view s'"
    "trie_rep (view s') (smt_root_hash t') (nf + 1)
      (L(?i \<mapsto> Some (leaf_opening_to_bytes ?l), nf \<mapsto> Some (leaf_opening_to_bytes ?q), ?j \<mapsto> Some (leaf_opening_to_bytes ?m)))"
    using zk_put_absent_ok [OF free L(1) keys at ne] by blast
  let ?new = "ys @ (?i, ?l) # (nf, ?q) # (?j, ?m) # zs"
  have "linked (L(?i \<mapsto> Some (leaf_opening_to_bytes ?l), nf \<mapsto> Some (leaf_opening_to_bytes ?q), ?j \<mapsto> Some (leaf_opening_to_bytes ?m))) ?new"
    by (rule linked_put [where l = l and m = m and k = k]) (use L(3) xs fresh in \<open>simp_all add: leaf_opening_new_def\<close>)
  moreover have "contents ?new = (contents xs)(k \<mapsto> hv)"
    using contents_put [of ys ?i l ?j m zs ?q ?l ?m nf] L(3) xs by (simp add: leaf_opening_new_def linked_def)
  moreover have "\<forall>i. nf + 1 \<le> i \<and> unat i < 2 ^ 40 \<longrightarrow>
      (L(?i \<mapsto> Some (leaf_opening_to_bytes ?l), nf \<mapsto> Some (leaf_opening_to_bytes ?q), ?j \<mapsto> Some (leaf_opening_to_bytes ?m))) i = Some None"
  proof (intro allI impI)
    fix i assume i: "nf + 1 \<le> i \<and> unat i < 2 ^ 40"
    then have "nf \<le> i" "i \<noteq> nf" using next_slot [OF nf] by blast+
    moreover then have "L i = Some None" using L(4) i by blast
    moreover then have "i \<noteq> ?i" "i \<noteq> ?j" using at by auto
    ultimately show "(L(?i \<mapsto> Some (leaf_opening_to_bytes ?l), nf \<mapsto> Some (leaf_opening_to_bytes ?q), ?j \<mapsto> Some (leaf_opening_to_bytes ?m))) i = Some None"
      by simp
  qed
  moreover have "dom (L(?i \<mapsto> Some (leaf_opening_to_bytes ?l), nf \<mapsto> Some (leaf_opening_to_bytes ?q), ?j \<mapsto> Some (leaf_opening_to_bytes ?m))) =
      {i. unat i < 2 ^ 40}"
    using L(2) at nf by (auto simp: dom_def)
  ultimately have "dictionary (view s') t' (nf + 1) ?new" using run(4) unfolding dictionary_def by blast
  with run(1-3) \<open>contents ?new = (contents xs)(k \<mapsto> hv)\<close> show ?thesis by blast
qed

lemma dictionary_put_present:
  assumes free: "trie_clash_free view (zk_put H (log_db D) key val) t s" and dict: "dictionary (view s) t nf xs"
    and keys: "trie_hash H key = Inr k" "trie_hash H val = Inr hv"
      "db_get_nearest_keys D s (smt_root_hash t) k = Inr kr" "kr_center kr = Some fl"
    and range: "neighbours k xs = Some (kr_left_index kr, Some (fl_leaf_index fl), kr_right_index kr)"
  shows "\<exists>t' s' xs'. zk_put H D key val (t, s) = (Inr (), (t', s')) \<and> consistent (view s') \<and> view s \<subseteq>\<^sub>m view s' \<and>
    dictionary (view s') t' nf xs' \<and>
    contents xs' = (contents xs)(k \<mapsto> hv)"
proof -
  obtain L where L: "trie_rep (view s) (smt_root_hash t) nf L" "dom L = {i. unat i < 2 ^ 40}" "linked L xs"
    "\<And>i. nf \<le> i \<Longrightarrow> unat i < 2 ^ 40 \<Longrightarrow> L i = Some None" using dict by (rule dictionaryE) blast
  obtain ys l q m zs where xs: "xs = ys @ (kr_left_index kr, l) # (fl_leaf_index fl, q) # (kr_right_index kr, m) # zs" "lo_hkey q = k"
    using range by (rule neighbours_present)
  let ?c = "fl_leaf_index fl" and ?q = "q\<lparr>lo_next_leaf := lo_prev_leaf q, lo_hval := hv\<rparr>"
  have at: "L ?c = Some (Some (leaf_opening_to_bytes q))" using linked_at [OF L(3)] by (simp add: xs)
  obtain t' s' where run: "zk_put H D key val (t, s) = (Inr (), (t', s'))" "consistent (view s')" "view s \<subseteq>\<^sub>m view s'"
    "trie_rep (view s') (smt_root_hash t') nf (L(?c \<mapsto> Some (leaf_opening_to_bytes ?q)))"
    using zk_put_present_ok [OF free L(1) keys at] by blast
  let ?ys = "ys @ [(kr_left_index kr, l)]" and ?zs = "(kr_right_index kr, m) # zs"
  have "linked L (?ys @ (?c, q) # ?zs)" using L(3) xs by simp
  then have "linked (L(?c \<mapsto> Some (leaf_opening_to_bytes ?q))) (?ys @ (?c, ?q) # ?zs)" by (rule linked_change) simp_all
  moreover have "contents (?ys @ (?c, ?q) # ?zs) = (contents xs)(k \<mapsto> hv)"
    using contents_change [of ?ys ?c q ?zs ?q] L(3) xs by (simp add: linked_def)
  moreover have "\<forall>i. nf \<le> i \<and> unat i < 2 ^ 40 \<longrightarrow> (L(?c \<mapsto> Some (leaf_opening_to_bytes ?q))) i = Some None"
    using L(4) at by (metis fun_upd_other option.distinct(1) option.inject)
  moreover have "dom (L(?c \<mapsto> Some (leaf_opening_to_bytes ?q))) = {i. unat i < 2 ^ 40}"
    using L(2) at by (auto simp: dom_def)
  ultimately show ?thesis using run unfolding dictionary_def by blast
qed

lemma dictionary_remove_present:
  assumes free: "trie_clash_free view (zk_remove H (log_db D) key) t s" and dict: "dictionary (view s) t nf xs"
    and empty: "view s 0 = Some (empty_node H 0)"
    and keys: "trie_hash H key = Inr k"
      "db_get_nearest_keys D s (smt_root_hash t) k = Inr kr" "kr_center kr = Some fl"
    and range: "neighbours k xs = Some (kr_left_index kr, Some (fl_leaf_index fl), kr_right_index kr)"
  shows "\<exists>t' s' xs'. zk_remove H D key (t, s) = (Inr (), (t', s')) \<and> consistent (view s') \<and> view s \<subseteq>\<^sub>m view s' \<and>
    dictionary (view s') t' nf xs' \<and>
    contents xs' = (contents xs)(k := None)"
proof -
  obtain L where L: "trie_rep (view s) (smt_root_hash t) nf L" "dom L = {i. unat i < 2 ^ 40}" "linked L xs"
    "\<And>i. nf \<le> i \<Longrightarrow> unat i < 2 ^ 40 \<Longrightarrow> L i = Some None" using dict by (rule dictionaryE) blast
  obtain ys l q m zs where xs: "xs = ys @ (kr_left_index kr, l) # (fl_leaf_index fl, q) # (kr_right_index kr, m) # zs" "lo_hkey q = k"
    using range by (rule neighbours_present)
  let ?i = "kr_left_index kr" and ?c = "fl_leaf_index fl" and ?j = "kr_right_index kr"
  let ?l = "l\<lparr>lo_next_leaf := ?j\<rparr>" and ?m = "m\<lparr>lo_next_leaf := lo_prev_leaf m, lo_prev_leaf := ?i\<rparr>"
  have at: "L ?i = Some (Some (leaf_opening_to_bytes l))" "L ?c = Some (Some (leaf_opening_to_bytes q))"
    "L ?j = Some (Some (leaf_opening_to_bytes m))" using linked_at [OF L(3)] by (simp_all add: xs)
  have ne: "?i \<noteq> ?c" "?j \<noteq> ?c" "?i \<noteq> ?j" using L(3) by (auto simp: xs linked_def)
  let ?L = "L(?i \<mapsto> Some (leaf_opening_to_bytes ?l), ?c \<mapsto> None, ?j \<mapsto> Some (leaf_opening_to_bytes ?m))"
  obtain t' s' where run: "zk_remove H D key (t, s) = (Inr (), (t', s'))" "consistent (view s')" "view s \<subseteq>\<^sub>m view s'"
    "trie_rep (view s') (smt_root_hash t') nf ?L"
    using zk_remove_ok [OF free L(1) empty keys at ne] by blast
  have "linked ?L (ys @ (?i, ?l) # (?j, ?m) # zs)"
    by (rule linked_remove [where l = l and q = q and m = m]) (use L(3) xs in simp_all)
  moreover have "contents (ys @ (?i, ?l) # (?j, ?m) # zs) = (contents xs)(k := None)"
    using contents_remove [of ys ?i l ?c q ?j m zs ?l ?m] L(3) xs by (simp add: linked_def)
  moreover have "\<forall>i. nf \<le> i \<and> unat i < 2 ^ 40 \<longrightarrow> ?L i = Some None"
  proof (intro allI impI)
    fix i assume "nf \<le> i \<and> unat i < 2 ^ 40"
    then have "L i = Some None" using L(4) by blast
    then show "?L i = Some None" using at by auto
  qed
  moreover have "dom ?L = {i. unat i < 2 ^ 40}" using L(2) at by (auto simp: dom_def)
  ultimately show ?thesis using run unfolding dictionary_def by blast
qed

end


section \<open>Refinement\<close>

definition serves :: "hasher \<Rightarrow> mem_store \<Rightarrow> zk_trie \<Rightarrow> u64 \<Rightarrow> entries \<Rightarrow> bool" where
  "serves H s t nf xs \<longleftrightarrow> consistent (mem_view H s) \<and> mem_view H s 0 = Some (empty_node H 0) \<and> dictionary (mem_view H s) t nf xs"

lemma serves_step:
  "serves H s t nf xs \<Longrightarrow> consistent (mem_view H s') \<Longrightarrow> mem_view H s \<subseteq>\<^sub>m mem_view H s' \<Longrightarrow>
   dictionary (mem_view H s') t' nf' xs' \<Longrightarrow> serves H s' t' nf' xs'"
  by (force simp: serves_def map_le_def dom_def)

lemma absent_key:
  assumes "dictionary V t nf xs" "neighbours k xs = Some (i, None, j)"
  shows "contents xs k = None"
proof -
  obtain ys l m zs where xs: "xs = ys @ (i, l) # (j, m) # zs" "lo_hkey l < k" "k < lo_hkey m"
    using assms(2) by (rule neighbours_absent)
  have "sorted_wrt (<) (map entry_key xs)" using assms(1) by (auto simp: dictionary_def linked_def)
  then show ?thesis using xs(2,3) by (force simp: contents_None xs(1) sorted_wrt_append)
qed

text \<open>The two operations, without collisions.\<close>

lemma serves_put:
  assumes "trie_hasher H" "serves H s t nf xs"
    and keys: "trie_hash H key = Inr k" "trie_hash H val = Inr v" and nf: "unat nf < 2 ^ 40"
    and near: "mem_get_nearest_keys p s (smt_root_hash t) k = Inr kr" and range: "right_range kr k xs"
    and free: "trie_clash_free (mem_view H) (zk_put H (log_db (prefix_db H p)) key val) t s"
  shows "\<exists>t' s' nf' xs'. zk_put H (prefix_db H p) key val (t, s) = (Inr (), (t', s')) \<and> serves H s' t' nf' xs' \<and>
    contents xs' = (contents xs)(k \<mapsto> v)"
proof -
  note db = trie_hasher.prefix_trie_db [OF assms(1), of p]
  have near: "db_get_nearest_keys (prefix_db H p) s (smt_root_hash t) k = Inr kr" using near by (simp add: prefix_db_def)
  note inv = assms(2) [unfolded serves_def]
  show ?thesis
  proof (cases "kr_center kr")
    case None
    then have "neighbours k xs = Some (kr_left_index kr, None, kr_right_index kr)" using range by (simp add: right_range_def)
    from trie_db.dictionary_put_absent [OF db free _ keys near None this nf] inv
    show ?thesis using serves_step [OF assms(2)] by blast
  next
    case (Some fl)
    then have "neighbours k xs = Some (kr_left_index kr, Some (fl_leaf_index fl), kr_right_index kr)"
      using range by (simp add: right_range_def)
    from trie_db.dictionary_put_present [OF db free _ keys near Some this] inv
    show ?thesis using serves_step [OF assms(2)] by blast
  qed
qed

lemma serves_remove:
  assumes "trie_hasher H" "serves H s t nf xs" and key: "trie_hash H key = Inr k"
    and near: "mem_get_nearest_keys p s (smt_root_hash t) k = Inr kr" and range: "right_range kr k xs"
    and free: "trie_clash_free (mem_view H) (zk_remove H (log_db (prefix_db H p)) key) t s"
  shows "\<exists>t' s' nf' xs'. zk_remove H (prefix_db H p) key (t, s) = (Inr (), (t', s')) \<and> serves H s' t' nf' xs' \<and>
    contents xs' = (contents xs)(k := None)"
proof -
  note db = trie_hasher.prefix_trie_db [OF assms(1), of p]
  have near: "db_get_nearest_keys (prefix_db H p) s (smt_root_hash t) k = Inr kr" using near by (simp add: prefix_db_def)
  note inv = assms(2) [unfolded serves_def]
  show ?thesis
  proof (cases "kr_center kr")
    case None
    then have "contents xs k = None" using range inv by (intro absent_key) (auto simp: right_range_def)
    then have "contents xs = (contents xs)(k := None)" by auto
    moreover have "zk_remove H (prefix_db H p) key (t, s) = (Inr (), (t, s))"
      using key near None by (simp add: zk_remove_def zk_nearest_keys_def zk_top_root_hash_def)
    ultimately show ?thesis using assms(2) by metis
  next
    case (Some fl)
    then have "neighbours k xs = Some (kr_left_index kr, Some (fl_leaf_index fl), kr_right_index kr)"
      using range by (simp add: right_range_def)
    from trie_db.dictionary_remove_present [OF db free _ _ key near Some this] inv
    show ?thesis using serves_step [OF assms(2)] by blast
  qed
qed

text \<open>C5: the trie is a dictionary from key hashes to value hashes. On a complete trie whose leaves are
  linked in the order of their keys, with an index that names the neighbours of the key, \<open>put\<close> and
  \<open>remove\<close> return, leave such a trie again, and its contents are those of a finite map after the
  same operation, unless two different nodes have the same hash.\<close>

theorem trie_is_dictionary:
  assumes "trie_hasher H" "serves H s t nf xs"
    and "trie_hash H (op_key op) = Inr k" "op_allowed H nf op"
    and "mem_get_nearest_keys p s (smt_root_hash t) k = Inr kr" "right_range kr k xs"
  shows "node_collision (mem_view H) (run_op H (log_db (prefix_db H p)) op) t s \<or>
    (\<exists>t' s' nf' xs'. run_op H (prefix_db H p) op (t, s) = (Inr (), (t', s')) \<and> serves H s' t' nf' xs' \<and>
      contents xs' = map_op H op k (contents xs))"
proof (cases "trie_clash_free (mem_view H) (run_op H (log_db (prefix_db H p)) op) t s")
  case True
  have "\<exists>t' s' nf' xs'. run_op H (prefix_db H p) op (t, s) = (Inr (), (t', s')) \<and> serves H s' t' nf' xs' \<and>
      contents xs' = map_op H op k (contents xs)"
  proof (cases op)
    case (PutOp key val)
    then have "trie_hash H key = Inr k" "trie_hash H val = Inr (projr (trie_hash H val))" "unat nf < 2 ^ 40"
      using assms(3,4) by (auto simp: isl_def)
    from serves_put [OF assms(1,2) this assms(5,6)] True show ?thesis by (simp add: PutOp)
  next
    case (RemoveOp key)
    then have "trie_hash H key = Inr k" using assms(3) by simp
    from serves_remove [OF assms(1,2) this assms(5,6)] True show ?thesis by (simp add: RemoveOp)
  qed
  then show ?thesis by blast
next
  case False
  then show ?thesis
    using collision_or_free [of "mem_view H", of s "run_op H (log_db (prefix_db H p)) op" t] assms(2) by (auto simp: serves_def)
qed

section \<open>A new trie\<close>

lemma new_trie_serves:
  assumes "trie_hasher H" "empty_distinct H"
    and "trie_clash_free (mem_view H) (zk_set_head_and_tail H (log_db (prefix_db H p))) (zk_new (nd_hash (empty_world_root H))) mem_store_new"
  shows "\<exists>t s. zk_empty H (prefix_db H p) mem_store_new = (Inr t, s) \<and>
    serves H s t 2 [(0, leaf_opening_head), (1, leaf_opening_tail)]"
proof -
  let ?L = "no_leaves(0 \<mapsto> Some (leaf_opening_to_bytes leaf_opening_head), 1 \<mapsto> Some (leaf_opening_to_bytes leaf_opening_tail))"
  obtain t s where run: "zk_empty H (prefix_db H p) mem_store_new = (Inr t, s)" "consistent (mem_view H s)"
    "mem_view H mem_store_new \<subseteq>\<^sub>m mem_view H s" "trie_rep (mem_view H s) (smt_root_hash t) 2 ?L"
    using trie_db.zk_empty_ok [OF trie_hasher.prefix_trie_db [OF assms(1)] assms(2) trie_hasher.mem_view_empty [OF assms(1)] assms(3)]
    by blast
  have "mem_view H mem_store_new 0 = Some (empty_node H 0)"
    using empty_nodes_at [OF assms(2), of 0] by (simp add: mem_view_def map_add_def empty_hash.simps)
  then have empty: "mem_view H s 0 = Some (empty_node H 0)" using run(3) by (force simp: map_le_def dom_def)
  have two: "(2 :: u64) \<le> i \<Longrightarrow> i \<noteq> 0 \<and> i \<noteq> 1" for i by (auto simp: word_le_nat_alt)
  have "linked ?L [(0, leaf_opening_head), (1, leaf_opening_tail)]"
    by (auto simp: linked_def leaf_opening_head_def leaf_opening_tail_def leaves_of_def no_leaves_def word_less_nat_alt)
  moreover have "dom ?L = {i. unat i < 2 ^ 40}" by (auto simp: no_leaves_def dom_def split: if_splits)
  moreover have "\<forall>i. 2 \<le> i \<and> unat i < 2 ^ 40 \<longrightarrow> ?L i = Some None" using two by (auto simp: no_leaves_def)
  ultimately have "dictionary (mem_view H s) t 2 [(0, leaf_opening_head), (1, leaf_opening_tail)]"
    using run(4) unfolding dictionary_def by blast
  then show ?thesis using run(1,2) empty by (auto simp: serves_def)
qed

lemma mem_view_index [simp]: "mem_view H (s\<lparr>ms_index := m\<rparr>) = mem_view H s"
  by (simp add: mem_view_def)

theorem trie_is_dictionary_witness:
  "node_collision (mem_view toy_hash) (zk_set_head_and_tail toy_hash (log_db (prefix_db toy_hash 5)))
     (zk_new (nd_hash (empty_world_root toy_hash))) mem_store_new \<or>
   (\<exists>t s. zk_empty toy_hash (prefix_db toy_hash 5) mem_store_new = (Inr t, s) \<and>
     (let s1 = s\<lparr>ms_index := [smt_root_hash t \<mapsto> [(5, 7) \<mapsto> \<lparr>kr_left_index = 0, kr_center = None, kr_right_index = 1\<rparr>]]\<rparr> in
      node_collision (mem_view toy_hash) (zk_put toy_hash (log_db (prefix_db toy_hash 5)) (word_bytes 7) (word_bytes 8)) t s1 \<or>
      (\<exists>t' s' nf' xs'. zk_put toy_hash (prefix_db toy_hash 5) (word_bytes 7) (word_bytes 8) (t, s1) = (Inr (), (t', s')) \<and>
        serves toy_hash s' t' nf' xs' \<and>
        contents xs' = (contents [(0, leaf_opening_head), (1, leaf_opening_tail)])(7 \<mapsto> 8))))"
proof -
  let ?c = "zk_set_head_and_tail toy_hash (log_db (prefix_db toy_hash 5))" and ?t0 = "zk_new (nd_hash (empty_world_root toy_hash))"
  let ?xs = "[(0, leaf_opening_head), (1, leaf_opening_tail)]"
  let ?kr = "\<lparr>kr_left_index = 0, kr_center = None, kr_right_index = 1\<rparr> :: key_range"
  have "consistent (mem_view toy_hash mem_store_new)"
    by (rule consistent_mem_view) (simp add: mem_store_new_def consistent_def)
  then have free: "node_collision (mem_view toy_hash) ?c ?t0 mem_store_new \<or> trie_clash_free (mem_view toy_hash) ?c ?t0 mem_store_new"
    by (rule collision_or_free)
  show ?thesis
  proof (cases "node_collision (mem_view toy_hash) ?c ?t0 mem_store_new")
    case False
    then obtain t s where new: "zk_empty toy_hash (prefix_db toy_hash 5) mem_store_new = (Inr t, s)" "serves toy_hash s t 2 ?xs"
      using free new_trie_serves [OF toy_trie_hasher toy_empty_distinct] by blast
    let ?s1 = "s\<lparr>ms_index := [smt_root_hash t \<mapsto> [(5, 7) \<mapsto> ?kr]]\<rparr>"
    have s1: "serves toy_hash ?s1 t 2 ?xs" using new(2) by (simp add: serves_def)
    have near: "mem_get_nearest_keys 5 ?s1 (smt_root_hash t) 7 = Inr ?kr" by (simp add: mem_get_nearest_keys_def)
    have range: "right_range ?kr 7 ?xs"
      by (simp add: right_range_def leaf_opening_head_def leaf_opening_tail_def word_less_nat_alt)
    have key: "trie_hash toy_hash (op_key (PutOp (word_bytes 7) (word_bytes 8))) = Inr 7" by simp
    show ?thesis
      using trie_is_dictionary [OF toy_trie_hasher s1 key _ near range] new(1) by (simp add: Let_def)
  qed simp
qed

end
