(* ===== verification/Trie_Typing.thy ===== *)
theory Trie_Typing
  imports Trie_Dictionary
begin

text \<open>
  A complete trie as a type: a top node, forty levels of branches, and in every slot an empty leaf or
  a leaf that can be parsed. The operations of \<open>trie.rs\<close> keep it, and on such a trie they have one
  error, a neighbour that the index names and that is not there. No law of the list of leaves is
  assumed, so the index may be wrong.
\<close>

section \<open>Complete tries\<close>

definition all_slots :: "(u64 \<rightharpoonup> bytes option) \<Rightarrow> bool" where
  "all_slots L \<longleftrightarrow> dom L = {i. unat i < 2 ^ 40} \<and> (\<forall>i v. L i = Some (Some v) \<longrightarrow> (\<exists>l. v = leaf_opening_to_bytes l))"

definition complete :: "hasher \<Rightarrow> (sh256 \<rightharpoonup> node) \<Rightarrow> sh256 \<Rightarrow> u64 \<Rightarrow> bool" where
  "complete H V root nf \<longleftrightarrow> consistent V \<and> V 0 = Some (empty_node H 0) \<and> (\<exists>L. trie_rep V root nf L \<and> all_slots L)"

lemma all_slots_put: "all_slots L \<Longrightarrow> unat i < 2 ^ 40 \<Longrightarrow> all_slots (L(i \<mapsto> Some (leaf_opening_to_bytes l)))"
  by (auto simp: all_slots_def)

lemma all_slots_remove: "all_slots L \<Longrightarrow> unat i < 2 ^ 40 \<Longrightarrow> all_slots (L(i \<mapsto> None))"
  by (auto simp: all_slots_def)

lemma all_slots_at:
  assumes "all_slots L" "unat i < 2 ^ 40"
  obtains "L i = Some None" | l where "L i = Some (Some (leaf_opening_to_bytes l))"
proof -
  have "i \<in> dom L" using assms by (simp add: all_slots_def)
  then obtain c where c: "L i = Some c" by blast
  show thesis
  proof (cases c)
    case None
    then show thesis using c that(1) by simp
  next
    case (Some v)
    then obtain l where "v = leaf_opening_to_bytes l" using assms(1) c unfolding all_slots_def by blast
    then show thesis using c Some that(2) by simp
  qed
qed

text \<open>Between the writes of an operation: the nodes come from a set without clashes.\<close>

definition slots_known :: "('s \<Rightarrow> sh256 \<rightharpoonup> node) \<Rightarrow> node set \<Rightarrow> hasher \<Rightarrow> u64 \<Rightarrow> zk_trie \<Rightarrow> 's \<Rightarrow> bool" where
  "slots_known view U H nf t s \<longleftrightarrow> (\<exists>L. presents view U [0 \<mapsto> empty_node H 0] (nf, L) t s \<and> all_slots L)"

section \<open>Sound operations\<close>

fun outcome_ok :: "('a \<Rightarrow> bool) \<Rightarrow> bool \<Rightarrow> (zk_error, 'a) result \<Rightarrow> bool" where
  "outcome_ok Q R (Inr x) \<longleftrightarrow> Q x"
| "outcome_ok Q R (Inl Panic) \<longleftrightarrow> False"
| "outcome_ok Q R (Inl (Fail e)) \<longleftrightarrow> (\<exists>path. e = ZKTrieKeyNotFound path) \<and> R"

lemma outcome_ok_iff:
  "outcome_ok Q R r \<longleftrightarrow> (\<exists>x. r = Inr x \<and> Q x) \<or> (\<exists>path. r = Inl (Fail (ZKTrieKeyNotFound path)) \<and> R)"
proof (cases r)
  case (Inl e)
  then show ?thesis by (cases e) auto
qed simp

definition sound ::
  "node set \<Rightarrow> ('t \<Rightarrow> 's \<Rightarrow> bool) \<Rightarrow> ('t \<Rightarrow> 's \<Rightarrow> bool) \<Rightarrow> ('t \<times> 's \<times> node list, zk_error, 'a) comp \<Rightarrow>
   ('a \<Rightarrow> 't \<Rightarrow> 's \<Rightarrow> bool) \<Rightarrow> bool" where
  "sound U R P cl Q \<longleftrightarrow> (\<forall>t s w r t' s' w'. P t s \<longrightarrow> cl (t, (s, w)) = (r, (t', (s', w'))) \<longrightarrow> set w' \<subseteq> U \<longrightarrow>
     outcome_ok (\<lambda>x. Q x t' s') (R t' s') r)"

lemma soundI:
  assumes "\<And>t s w r t' s' w'. P t s \<Longrightarrow> cl (t, (s, w)) = (r, (t', (s', w'))) \<Longrightarrow> set w' \<subseteq> U \<Longrightarrow>
    outcome_ok (\<lambda>x. Q x t' s') (R t' s') r"
  shows "sound U R P cl Q"
  unfolding sound_def using assms by blast

lemma soundD:
  "sound U R P cl Q \<Longrightarrow> P t s \<Longrightarrow> cl (t, (s, w)) = (r, (t', (s', w'))) \<Longrightarrow> set w' \<subseteq> U \<Longrightarrow>
   outcome_ok (\<lambda>x. Q x t' s') (R t' s') r"
  unfolding sound_def by blast

lemma sound_bind:
  assumes c: "sound U R P c Q" and f: "\<And>x. sound U R (Q x) (f x) Q'" and g: "\<And>x. grows (f x)"
  shows "sound U R P (bindc c f) Q'"
proof (rule soundI)
  fix t s w r t' s' w'
  assume p: "P t s" "bindc c f (t, (s, w)) = (r, (t', (s', w')))" "set w' \<subseteq> U"
  obtain q t1 s1 w1 where q: "c (t, (s, w)) = (q, (t1, (s1, w1)))" by (metis prod.exhaust)
  show "outcome_ok (\<lambda>x. Q' x t' s') (R t' s') r"
  proof (cases q)
    case (Inl e)
    then have "r = Inl e" "t' = t1" "s' = s1" "w' = w1" using p(2) q by (simp_all add: bindc_def)
    then show ?thesis using soundD [OF c p(1) q] p(3) Inl by (cases e) auto
  next
    case (Inr x)
    then have run: "f x (t1, (s1, w1)) = (r, (t', (s', w')))" using p(2) q by (simp add: bindc_def)
    then have "set w1 \<subseteq> U" using growsD [OF g] p(3) by blast
    then have "Q x t1 s1" using soundD [OF c p(1) q] Inr by simp
    then show ?thesis using soundD [OF f _ run p(3)] by blast
  qed
qed

lemma sound_seq:
  "sound U R P c (\<lambda>x. Q) \<Longrightarrow> (\<And>x. sound U R Q (f x) Q') \<Longrightarrow> (\<And>x. grows (f x)) \<Longrightarrow> sound U R P (bindc c f) Q'"
  by (rule sound_bind)

lemma sound_lift:
  assumes "r = Inr x" "sound U R P (f x) Q"
  shows "sound U R P (bindc (lift_result r) f) Q"
proof -
  have "bindc (lift_result r) f = f x" by (simp add: assms(1) fun_eq_iff bindc_def)
  then show ?thesis using assms(2) by simp
qed

lemma sound_return: "sound U R P (returnc x) (\<lambda>x. P)"
  by (auto intro!: soundI)

lemma sound_read:
  "(\<And>t s w. P t s \<Longrightarrow> outcome_ok (\<lambda>x. Q x t s) (R t s) (f (t, (s, w)))) \<Longrightarrow> sound U R P (readc f) Q"
  by (auto intro!: soundI)

lemma sound_triple:
  assumes "\<And>t s. P t s \<Longrightarrow> \<exists>A x B. A t s \<and> triple U A cl x B \<and> (\<forall>t s. B t s \<longrightarrow> Q x t s)"
  shows "sound U R P cl Q"
proof (rule soundI)
  fix t s w r t' s' w'
  assume p: "P t s" "cl (t, (s, w)) = (r, (t', (s', w')))" "set w' \<subseteq> U"
  then obtain A x B where "A t s" "triple U A cl x B" "\<forall>t s. B t s \<longrightarrow> Q x t s" using assms by blast
  with tripleD [OF this(2,1) p(2,3)] show "outcome_ok (\<lambda>x. Q x t' s') (R t' s') r" by simp
qed

lemma slots_knownE:
  assumes "slots_known view U H nf t s"
  obtains L where "presents view U [0 \<mapsto> empty_node H 0] (nf, L) t s" "all_slots L"
  using assms unfolding slots_known_def by blast

context trie_db begin

abbreviation slots :: "node set \<Rightarrow> u64 \<Rightarrow> zk_trie \<Rightarrow> 's \<Rightarrow> bool" where
  "slots U nf \<equiv> slots_known view U H nf"

lemma sound_runs:
  assumes "\<And>L. all_slots L \<Longrightarrow> \<exists>L'. runs view U [0 \<mapsto> empty_node H 0] c (nf, L) x (nf', L') \<and> all_slots L'"
  shows "sound U R (slots U nf) c (\<lambda>_. slots U nf')"
proof (rule sound_triple)
  fix t s assume "slots U nf t s"
  then obtain L where L: "presents view U [0 \<mapsto> empty_node H 0] (nf, L) t s" "all_slots L" by (rule slots_knownE)
  obtain L' where L': "runs view U [0 \<mapsto> empty_node H 0] c (nf, L) x (nf', L')" "all_slots L'" using assms [OF L(2)] by blast
  have "\<forall>t s. presents view U [0 \<mapsto> empty_node H 0] (nf', L') t s \<longrightarrow> slots U nf' t s"
    using L'(2) unfolding slots_known_def by blast
  then show "\<exists>A x B. A t s \<and> triple U A c x B \<and> (\<forall>t s. B t s \<longrightarrow> slots U nf' t s)" using L(1) L'(1) by blast
qed

lemma sound_put:
  assumes "inj_on nd_hash U" "unat i < 2 ^ 40"
  shows "sound U R (slots U nf) (smt_put H (log_db D) (leaf_path i) (leaf_opening_to_bytes l)) (\<lambda>_. slots U nf)"
proof (rule sound_runs)
  fix L assume L: "all_slots L"
  obtain c where "L i = Some c" using all_slots_at [OF L assms(2)] by metis
  moreover have "leaf_opening_to_bytes l \<noteq> []" "32 dvd length (leaf_opening_to_bytes l)"
    using length_leaf_opening_to_bytes [of l] by fastforce+
  ultimately have "runs view U [0 \<mapsto> empty_node H 0] (smt_put H (log_db D) (leaf_path i) (leaf_opening_to_bytes l)) (nf, L) ()
      (nf, L(i \<mapsto> Some (leaf_opening_to_bytes l)))"
    using runs_put [OF assms(1), of "(nf, L)" i] by simp
  then show "\<exists>L'. runs view U [0 \<mapsto> empty_node H 0] (smt_put H (log_db D) (leaf_path i) (leaf_opening_to_bytes l)) (nf, L) ()
      (nf, L') \<and> all_slots L'" using all_slots_put [OF L assms(2)] by blast
qed

lemma sound_delete:
  assumes "inj_on nd_hash U" "unat i < 2 ^ 40"
  shows "sound U R (slots U nf) (smt_remove H (log_db D) (leaf_path i)) (\<lambda>_. slots U nf)"
proof (rule sound_runs)
  fix L assume L: "all_slots L"
  obtain c where "L i = Some c" using all_slots_at [OF L assms(2)] by metis
  then have "runs view U [0 \<mapsto> empty_node H 0] (smt_remove H (log_db D) (leaf_path i)) (nf, L) () (nf, L(i \<mapsto> None))"
    using runs_remove [OF assms(1), of "[0 \<mapsto> empty_node H 0]" "(nf, L)" i] by simp
  then show "\<exists>L'. runs view U [0 \<mapsto> empty_node H 0] (smt_remove H (log_db D) (leaf_path i)) (nf, L) () (nf, L') \<and> all_slots L'"
    using all_slots_remove [OF L assms(2)] by blast
qed

lemma sound_index:
  "sound U R (slots U nf) (modifyc (apsnd (db_update_index (log_db D) k v))) (\<lambda>_. slots U nf)"
  "sound U R (slots U nf) (modifyc (apsnd (db_remove_index (log_db D) k))) (\<lambda>_. slots U nf)"
  by (rule sound_runs, use runs_index in blast)+

lemma sound_increment:
  assumes "inj_on nd_hash U"
  shows "sound U R (slots U nf) (zk_increment_next_free H (log_db D)) (\<lambda>_. slots U (nf + 1))"
proof (rule sound_runs)
  fix L assume "all_slots L"
  then show "\<exists>L'. runs view U [0 \<mapsto> empty_node H 0] (zk_increment_next_free H (log_db D)) (nf, L) (nf + 1) (nf + 1, L') \<and> all_slots L'"
    using runs_increment [OF assms, of "[0 \<mapsto> empty_node H 0]" "(nf, L)"] by auto
qed

lemma sound_next_free: "sound U R (slots U nf) (readc (\<lambda>(t, s). smt_next_free_node (log_db D) t s)) (\<lambda>x t s. x = nf \<and> slots U nf t s)"
proof (rule sound_read)
  fix t s w assume "slots U nf t s"
  moreover from this obtain L where "presents view U [0 \<mapsto> empty_node H 0] (nf, L) t s" by (rule slots_knownE)
  ultimately show "outcome_ok (\<lambda>x. x = nf \<and> slots U nf t s) (R t s)
      ((\<lambda>(t, s). smt_next_free_node (log_db D) t s) (t, (s, w)))"
    using presents_next_free by fastforce
qed

lemma sound_sub_root: "sound U R (slots U nf) (readc (\<lambda>(t, s). zk_sub_root_hash (log_db D) t s)) (\<lambda>_. slots U nf)"
proof (rule sound_read)
  fix t s w assume p: "slots U nf t s"
  then obtain L where "presents view U [0 \<mapsto> empty_node H 0] (nf, L) t s" by (rule slots_knownE)
  then obtain h where "smt_sub_root_hash D t s = Inr h" using presents_sub_root by blast
  then show "outcome_ok (\<lambda>x. slots U nf t s) (R t s)
      ((\<lambda>(t, s). zk_sub_root_hash (log_db D) t s) (t, (s, w)))"
    using p by (simp add: zk_sub_root_hash_def)
qed

text \<open>A leaf is read, or the error is that there is none.\<close>

lemma sound_parse:
  assumes "unat i < 2 ^ 40"
  shows "sound U (slots U nf) (slots U nf) (zk_parse_leaf_at (log_db D) (leaf_path i)) (\<lambda>_. slots U nf)"
  unfolding zk_parse_leaf_at_def
proof (rule sound_read)
  fix t s w assume p: "slots U nf t s"
  then obtain L where L: "presents view U [0 \<mapsto> empty_node H 0] (nf, L) t s" "all_slots L" by (rule slots_knownE)
  from L(2) assms show "outcome_ok (\<lambda>x. slots U nf t s) (slots U nf t s)
      ((\<lambda>(t, s). zk_parse_node (log_db D) leaf_opening_parse (leaf_path i) t s) (t, (s, w)))"
  proof (cases rule: all_slots_at)
    case 1
    then show ?thesis using runs_parse_leaf_absent [OF L(1)] p by simp
  next
    case (2 l)
    then show ?thesis using presents_parse_leaf [OF L(1)] p by simp
  qed
qed

lemma sound_between_sub_roots:
  assumes "sound U (slots U nf) (slots U nf) c (\<lambda>_. slots U nf')" "grows c"
  shows "sound U (slots U nf) (slots U nf) (between_sub_roots (log_db D) c) (\<lambda>_. slots U nf')"
  unfolding between_sub_roots_def
  by (rule sound_bind [OF sound_sub_root], rule sound_bind [OF assms(1)], rule sound_bind [OF sound_sub_root], rule sound_return)
    (intro growing assms(2))+

text \<open>The operations, whatever the index says, with all indices below \<open>2 ^ 40\<close>.\<close>

lemma sound_put_absent:
  assumes inj: "inj_on nd_hash U" and nf: "unat nf < 2 ^ 40"
    and kr: "unat (kr_left_index kr) < 2 ^ 40" "unat (kr_right_index kr) < 2 ^ 40"
    and hv: "trie_hash H val = Inr hval"
  shows "sound U (slots U nf) (slots U nf) (zk_put_absent H (log_db D) hkey kr val) (\<lambda>_. slots U (nf + 1))"
proof -
  note step = sound_bind [where Q = "\<lambda>_. slots U nf"]
  have next_free: "sound U (slots U nf) (slots U nf) (bindc (readc (\<lambda>(t, s). smt_next_free_node (log_db D) t s)) f) Q"
    if "sound U (slots U nf) (slots U nf) (f nf) Q" "\<And>x. grows (f x)" for f :: "u64 \<Rightarrow> (zk_trie \<times> 's \<times> node list, zk_error, unit) comp" and Q
  proof (rule sound_bind [OF sound_next_free _ that(2)])
    fix x show "sound U (slots U nf) (\<lambda>t s. x = nf \<and> slots U nf t s) (f x) Q"
      using that(1) by (cases "x = nf") (simp_all add: sound_def)
  qed
  show ?thesis
    unfolding zk_put_absent_def key_range_left_path_def key_range_right_path_def Let_def
    by (rule sound_lift [OF get_leaf_path_eq [OF kr(1)]], rule sound_lift [OF get_leaf_path_eq [OF kr(2)]], rule next_free,
        rule step [OF sound_parse [OF kr(1)]], rule step [OF sound_put [OF inj kr(1)]],
        rule sound_lift [OF get_leaf_path_eq [OF nf]], rule sound_lift [OF hv], rule step [OF sound_index(1)],
        rule step [OF sound_put [OF inj nf]], rule step [OF sound_parse [OF kr(2)]],
        rule step [OF sound_put [OF inj kr(2)]], rule sound_bind [OF sound_increment [OF inj]], rule sound_return)
      (intro growing)+
qed

lemma sound_put_present:
  assumes inj: "inj_on nd_hash U" and fl: "unat (fl_leaf_index fl) < 2 ^ 40" and hv: "trie_hash H val = Inr hval"
  shows "sound U (slots U nf) (slots U nf) (zk_put_present H (log_db D) hkey fl val) (\<lambda>_. slots U nf)"
  unfolding zk_put_present_def flattened_leaf_path_def Let_def
  by (rule sound_lift [OF get_leaf_path_eq [OF fl]], rule sound_lift [OF hv], rule sound_bind [OF sound_index(1)],
      rule sound_bind [OF sound_parse [OF fl]], rule sound_put [OF inj fl])
    (intro growing)+

lemma sound_remove_found:
  assumes inj: "inj_on nd_hash U" and fl: "unat (fl_leaf_index fl) < 2 ^ 40"
    and kr: "unat (kr_left_index kr) < 2 ^ 40" "unat (kr_right_index kr) < 2 ^ 40"
  shows "sound U (slots U nf) (slots U nf) (zk_remove_found H (log_db D) hkey kr fl) (\<lambda>_. slots U nf)"
proof -
  note step = sound_bind [where Q = "\<lambda>_. slots U nf"]
  show ?thesis
    unfolding zk_remove_found_def key_range_left_path_def key_range_right_path_def Let_def
    by (rule sound_lift [OF get_leaf_path_eq [OF kr(1)]], rule sound_lift [OF get_leaf_path_eq [OF kr(2)]],
        rule step [OF sound_parse [OF kr(1)]], rule step [OF sound_put [OF inj kr(1)]],
        rule sound_lift [OF get_leaf_path_eq [OF fl]], rule step [OF sound_parse [OF fl]],
        rule step [OF sound_index(2)], rule step [OF sound_delete [OF inj fl]],
        rule step [OF sound_parse [OF kr(2)]], rule sound_put [OF inj kr(2)])
      (intro growing)+
qed

lemma complete_slots:
  assumes "trie_clash_free view cl t s" "complete H (view s) (smt_root_hash t) nf"
  shows "slots (ran (view s) \<union> set (trie_written cl t s)) nf t s"
  using assms by (auto simp: slots_known_def complete_def presents_def stored_in_def map_le_def)

lemma slots_complete: "slots U nf t s \<Longrightarrow> complete H (view s) (smt_root_hash t) nf"
  by (auto simp: slots_known_def complete_def presents_def stored_in_def map_le_def)

text \<open>A plain run, from its logged run.\<close>

lemma sound_plain:
  assumes tr: "tracks_trie cl c" and eq: "cl (t, (s, [])) = dl (t, (s, []))"
    and pre: "trie_clash_free view cl t s" "complete H (view s) (smt_root_hash t) nf"
    and sound: "\<And>U. inj_on nd_hash U \<Longrightarrow> sound U (slots U nf) (slots U nf) dl (\<lambda>_. slots U nf')"
  shows "\<exists>r t' s'. c (t, s) = (r, (t', s')) \<and>
    outcome_ok (\<lambda>_. complete H (view s') (smt_root_hash t') nf') (complete H (view s') (smt_root_hash t') nf) r"
proof -
  let ?U = "ran (view s) \<union> set (trie_written cl t s)"
  obtain r t' s' w where r: "dl (t, (s, [])) = (r, (t', (s', w)))" by (metis prod.exhaust)
  then have c: "c (t, s) = (r, (t', s'))" using tracks_trieD [OF tr eq [unfolded r]] by blast
  have w: "set w \<subseteq> ?U" by (auto simp: trie_written_def eq r)
  have "inj_on nd_hash ?U" using pre(1) by (simp add: trie_clash_free_def)
  note out = soundD [OF sound [OF this] complete_slots [OF pre] r w]
  have "outcome_ok (\<lambda>_. complete H (view s') (smt_root_hash t') nf') (complete H (view s') (smt_root_hash t') nf) r"
  proof (cases r)
    case (Inl e)
    then show ?thesis using out slots_complete by (cases e) auto
  next
    case (Inr x)
    then show ?thesis using out slots_complete by auto
  qed
  then show ?thesis using c by blast
qed

end

section \<open>The operations are typed\<close>

fun indices_in_range :: "key_range \<Rightarrow> bool" where
  "indices_in_range kr \<longleftrightarrow> unat (kr_left_index kr) < 2 ^ 40 \<and> unat (kr_right_index kr) < 2 ^ 40 \<and>
     (case kr_center kr of Some fl \<Rightarrow> unat (fl_leaf_index fl) < 2 ^ 40 | None \<Rightarrow> True)"

fun next_count :: "dict_op \<Rightarrow> key_range \<Rightarrow> u64 \<Rightarrow> u64" where
  "next_count (PutOp key val) kr nf = (if kr_center kr = None then nf + 1 else nf)"
| "next_count (RemoveOp key) kr nf = nf"

text \<open>The two operations, without collisions.\<close>

lemma typed_put:
  assumes "trie_hasher H" "complete H (mem_view H s) (smt_root_hash t) nf"
    and key: "trie_hash H key = Inr k" and val: "trie_hash H val = Inr v" and nf: "unat nf < 2 ^ 40"
    and near: "mem_get_nearest_keys p s (smt_root_hash t) k = Inr kr" and range: "indices_in_range kr"
    and free: "trie_clash_free (mem_view H) (zk_put H (log_db (prefix_db H p)) key val) t s"
  shows "\<exists>r t' s'. zk_put H (prefix_db H p) key val (t, s) = (r, (t', s')) \<and>
    outcome_ok (\<lambda>_. complete H (mem_view H s') (smt_root_hash t') (if kr_center kr = None then nf + 1 else nf))
      (complete H (mem_view H s') (smt_root_hash t') nf) r"
proof -
  note db = trie_hasher.prefix_trie_db [OF assms(1), of p]
  have near: "db_get_nearest_keys (prefix_db H p) s (smt_root_hash t) k = Inr kr" using near by (simp add: prefix_db_def)
  note range = range [unfolded indices_in_range.simps]
  show ?thesis
  proof (cases "kr_center kr")
    case None
    note eq = trie_db.zk_put_absent_case [OF db key near None, of val "[]"]
    show ?thesis
      using trie_db.sound_plain [OF db tracks_zk_put eq free assms(2)
          trie_db.sound_between_sub_roots [OF db trie_db.sound_put_absent [OF db]]] range nf val
      by (simp add: None tracks_trie_grows [OF tracks_zk_put_absent])
  next
    case (Some fl)
    note eq = trie_db.zk_put_present_case [OF db key near Some, of val "[]"]
    show ?thesis
      using trie_db.sound_plain [OF db tracks_zk_put eq free assms(2)
          trie_db.sound_between_sub_roots [OF db trie_db.sound_put_present [OF db]]] range val
      by (simp add: Some tracks_trie_grows [OF tracks_zk_put_present])
  qed
qed

lemma typed_remove:
  assumes "trie_hasher H" "complete H (mem_view H s) (smt_root_hash t) nf" and key: "trie_hash H key = Inr k"
    and near: "mem_get_nearest_keys p s (smt_root_hash t) k = Inr kr" and range: "indices_in_range kr"
    and free: "trie_clash_free (mem_view H) (zk_remove H (log_db (prefix_db H p)) key) t s"
  shows "\<exists>r t' s'. zk_remove H (prefix_db H p) key (t, s) = (r, (t', s')) \<and>
    outcome_ok (\<lambda>_. complete H (mem_view H s') (smt_root_hash t') nf) (complete H (mem_view H s') (smt_root_hash t') nf) r"
proof -
  note db = trie_hasher.prefix_trie_db [OF assms(1), of p]
  have near: "db_get_nearest_keys (prefix_db H p) s (smt_root_hash t) k = Inr kr" using near by (simp add: prefix_db_def)
  note range = range [unfolded indices_in_range.simps]
  show ?thesis
  proof (cases "kr_center kr")
    case None
    then have "zk_remove H (prefix_db H p) key (t, s) = (Inr (), (t, s))"
      using key near by (simp add: zk_remove_def zk_nearest_keys_def zk_top_root_hash_def)
    then show ?thesis using assms(2) by simp
  next
    case (Some fl)
    note eq = trie_db.zk_remove_found_case [OF db key near Some, of "[]"]
    show ?thesis
      using trie_db.sound_plain [OF db tracks_zk_remove eq free assms(2) trie_db.sound_remove_found [OF db]] range
      by (simp add: Some)
  qed
qed

text \<open>C6: a complete trie is a type that \<open>put\<close> and \<open>remove\<close> keep. On a complete trie (forty levels of
  branches, in every slot an empty leaf or a leaf that parses) and with any neighbours from the
  index that are leaf numbers, even wrong ones, an operation never panics. Either it succeeds, and
  the counter has moved exactly when a new leaf was added, or it returns that some neighbour is not in the
  trie, with the counter as before; in both cases the trie is complete afterwards, although some of its leaves may have been
  written. Or two different nodes have the same hash.\<close>

theorem trie_operations_typed:
  assumes "trie_hasher H" "complete H (mem_view H s) (smt_root_hash t) nf"
    and "trie_hash H (op_key op) = Inr k" "op_allowed H nf op"
    and "mem_get_nearest_keys p s (smt_root_hash t) k = Inr kr" "indices_in_range kr"
  shows "node_collision (mem_view H) (run_op H (log_db (prefix_db H p)) op) t s \<or>
    (\<exists>r t' s'. run_op H (prefix_db H p) op (t, s) = (r, (t', s')) \<and>
      (r = Inr () \<and> complete H (mem_view H s') (smt_root_hash t') (next_count op kr nf) \<or>
       (\<exists>path. r = Inl (Fail (ZKTrieKeyNotFound path))) \<and> complete H (mem_view H s') (smt_root_hash t') nf))"
proof (cases "trie_clash_free (mem_view H) (run_op H (log_db (prefix_db H p)) op) t s")
  case True
  let ?D = "prefix_db H p"
  have "\<exists>r t' s'. run_op H ?D op (t, s) = (r, (t', s')) \<and>
    outcome_ok (\<lambda>_. complete H (mem_view H s') (smt_root_hash t') (next_count op kr nf))
      (complete H (mem_view H s') (smt_root_hash t') nf) r"
  proof (cases op)
    case (PutOp key val)
    then have "trie_hash H key = Inr k" "trie_hash H val = Inr (projr (trie_hash H val))" "unat nf < 2 ^ 40"
      using assms(3,4) by (auto simp: isl_def)
    from typed_put [OF assms(1,2) this assms(5,6)] True show ?thesis by (simp add: PutOp)
  next
    case (RemoveOp key)
    then have "trie_hash H key = Inr k" using assms(3) by simp
    from typed_remove [OF assms(1,2) this assms(5,6)] True show ?thesis by (simp add: RemoveOp)
  qed
  then obtain r t' s' where run: "run_op H ?D op (t, s) = (r, (t', s'))"
    "outcome_ok (\<lambda>_. complete H (mem_view H s') (smt_root_hash t') (next_count op kr nf))
      (complete H (mem_view H s') (smt_root_hash t') nf) r" by blast
  then show ?thesis unfolding outcome_ok_iff by auto
next
  case False
  then show ?thesis
    using collision_or_free [of "mem_view H", of s "run_op H (log_db (prefix_db H p)) op" t] assms(2) by (auto simp: complete_def)
qed

text \<open>A dictionary is a complete trie; so is a new trie.\<close>

lemma serves_complete:
  assumes "serves H s t nf xs"
  shows "complete H (mem_view H s) (smt_root_hash t) nf"
proof -
  from assms obtain L where L: "trie_rep (mem_view H s) (smt_root_hash t) nf L" "dom L = {i. unat i < 2 ^ 40}" "linked L xs"
    unfolding serves_def by (auto elim: dictionaryE)
  have "\<exists>l. v = leaf_opening_to_bytes l" if "L i = Some (Some v)" for i v
  proof -
    have "leaves_of xs i = Option.bind (L i) id" using L(3) by (simp add: linked_def)
    then have "leaves_of xs i = Some v" using that by simp
    then show ?thesis unfolding leaves_of_def by (force dest!: map_of_SomeD)
  qed
  then have "all_slots L" using L(2) unfolding all_slots_def by blast
  then show ?thesis using assms L(1) unfolding complete_def serves_def by blast
qed

theorem trie_operations_typed_witness:
  "node_collision (mem_view toy_hash) (zk_set_head_and_tail toy_hash (log_db (prefix_db toy_hash 5)))
     (zk_new (nd_hash (empty_world_root toy_hash))) mem_store_new \<or>
   (\<exists>t s. zk_empty toy_hash (prefix_db toy_hash 5) mem_store_new = (Inr t, s) \<and>
     (let s1 = s\<lparr>ms_index := [smt_root_hash t \<mapsto> [(5, 7) \<mapsto> \<lparr>kr_left_index = 0, kr_center = None, kr_right_index = 9\<rparr>]]\<rparr> in
      node_collision (mem_view toy_hash) (zk_put toy_hash (log_db (prefix_db toy_hash 5)) (word_bytes 7) (word_bytes 8)) t s1 \<or>
      (\<exists>r t' s'. zk_put toy_hash (prefix_db toy_hash 5) (word_bytes 7) (word_bytes 8) (t, s1) = (r, (t', s')) \<and>
        (r = Inr () \<and> complete toy_hash (mem_view toy_hash s') (smt_root_hash t') 3 \<or>
         (\<exists>path. r = Inl (Fail (ZKTrieKeyNotFound path))) \<and> complete toy_hash (mem_view toy_hash s') (smt_root_hash t') 2))))"
proof -
  let ?c = "zk_set_head_and_tail toy_hash (log_db (prefix_db toy_hash 5))" and ?t0 = "zk_new (nd_hash (empty_world_root toy_hash))"
  let ?xs = "[(0, leaf_opening_head), (1, leaf_opening_tail)]"
  let ?kr = "\<lparr>kr_left_index = 0, kr_center = None, kr_right_index = 9\<rparr> :: key_range"
  have "consistent (mem_view toy_hash mem_store_new)"
    by (rule consistent_mem_view) (simp add: mem_store_new_def consistent_def)
  then have free: "node_collision (mem_view toy_hash) ?c ?t0 mem_store_new \<or> trie_clash_free (mem_view toy_hash) ?c ?t0 mem_store_new"
    by (rule collision_or_free)
  show ?thesis
  proof (cases "node_collision (mem_view toy_hash) ?c ?t0 mem_store_new")
    case False
    then obtain t s where new: "zk_empty toy_hash (prefix_db toy_hash 5) mem_store_new = (Inr t, s)" "serves toy_hash s t 2 ?xs"
      using free new_trie_serves [OF toy_trie_hasher toy_empty_distinct] by blast
    let ?s1 = "s\<lparr>ms_index := [smt_root_hash t \<mapsto> [(5, 7) \<mapsto> ?kr]]\<rparr>"
    have s1: "complete toy_hash (mem_view toy_hash ?s1) (smt_root_hash t) 2"
      using serves_complete [of toy_hash ?s1 t 2 ?xs] new(2) by (simp add: serves_def)
    have near: "mem_get_nearest_keys 5 ?s1 (smt_root_hash t) 7 = Inr ?kr" by (simp add: mem_get_nearest_keys_def)
    have key: "trie_hash toy_hash (op_key (PutOp (word_bytes 7) (word_bytes 8))) = Inr 7" by simp
    show ?thesis
      using trie_operations_typed [OF toy_trie_hasher s1 key _ near] new(1) by (simp add: Let_def)
  qed simp
qed

end
