(* ===== verification/Linea_Account.thy ===== *)
theory Linea_Account
  imports Zk_Node
begin

text \<open>
  Accounts and storage values: \<open>ZkStateAccount\<close> and \<open>StorageValue\<close> of
  \<open>src/common/linea/src/engine.rs\<close> with their encodings. RLP and keccak are libraries: their
  functions are arguments.
\<close>

section \<open>Accounts\<close>

record zk_state_account =
  za_nonce :: u64
  za_balance :: su256
  za_root :: sh256
  za_mimc_code_hash :: sh256
  za_keccak_code_hash :: sh256
  za_code_size :: su256

definition zk_account_default :: "hasher \<Rightarrow> keccak \<Rightarrow> ('e, zk_state_account) result" where
  "zk_account_default H K =
     bind_result (empty_mimc_code_hash H) (\<lambda>mimc_code_hash.
       Inr \<lparr>za_nonce = 0, za_balance = 0, za_root = 0, za_mimc_code_hash = mimc_code_hash,
            za_keccak_code_hash = empty_keccak_code_hash K, za_code_size = 0\<rparr>)"

definition zk_account_is_exist :: "hasher \<Rightarrow> keccak \<Rightarrow> zk_state_account \<Rightarrow> ('e, bool) result" where
  "zk_account_is_exist H K a = bind_result (zk_account_default H K) (\<lambda>d. Inr (a = d))"

text \<open>\<open>set_nonce\<close> also has the dirty flag as \<open>&mut\<close>.\<close>

definition zk_account_set_nonce :: "u64 \<Rightarrow> zk_state_account \<times> bool \<Rightarrow> zk_state_account \<times> bool" where
  "zk_account_set_nonce val = (\<lambda>(a, dirty). if za_nonce a \<noteq> val then (a\<lparr>za_nonce := val\<rparr>, True) else (a, dirty))"

definition zk_account_to_bytes :: "hasher \<Rightarrow> keccak \<Rightarrow> zk_state_account \<Rightarrow> ('e, bytes) result" where
  "zk_account_to_bytes H K a =
     bind_result (zk_account_default H K) (\<lambda>d.
       if a = d then Inr []
       else Inr (word_bytes (ucast (za_nonce a)) @ word_bytes (za_balance a) @ word_bytes (za_root a) @
                 word_bytes (za_mimc_code_hash a) @ word_bytes (za_keccak_code_hash a) @ word_bytes (za_code_size a)))"

text \<open>\<open>&buf[off..off + 32]\<close> read as a big-endian number or as a hash.\<close>

definition word_at :: "bytes \<Rightarrow> nat \<Rightarrow> ('e, 256 word) result" where
  "word_at buf off = bind_result (slice_range buf off (off + 32)) (\<lambda>bs. Inr (word_of_bytes bs))"

definition zk_account_from_bytes :: "hasher \<Rightarrow> keccak \<Rightarrow> bytes \<Rightarrow> ('e, zk_state_account) result" where
  "zk_account_from_bytes H K buf =
     (if length buf = 0 then zk_account_default H K
      else bind_result (word_at buf 0) (\<lambda>nonce.
           bind_result (word_at buf 32) (\<lambda>balance.
           bind_result (word_at buf 64) (\<lambda>root.
           bind_result (word_at buf 96) (\<lambda>mimc_code_hash.
           bind_result (word_at buf 128) (\<lambda>keccak_code_hash.
           bind_result (word_at buf 160) (\<lambda>code_size.
           bind_result (as_u64 nonce) (\<lambda>nonce.
             Inr \<lparr>za_nonce = nonce, za_balance = balance, za_root = root, za_mimc_code_hash = mimc_code_hash,
                  za_keccak_code_hash = keccak_code_hash, za_code_size = code_size\<rparr>))))))))"

text \<open>The trait \<open>CacheValueEnc\<close> of \<open>cache.rs\<close> as a record of its methods and \<open>Default\<close>.\<close>

record 'v value_enc =
  ve_encode :: "'v \<Rightarrow> (string, bytes) result"
  ve_decode :: "bytes \<Rightarrow> (string, 'v) result"
  ve_default :: "(string, 'v) result"

definition zk_account_enc :: "hasher \<Rightarrow> keccak \<Rightarrow> zk_state_account value_enc" where
  "zk_account_enc H K = \<lparr>
     ve_encode = zk_account_to_bytes H K,
     ve_decode = zk_account_from_bytes H K,
     ve_default = zk_account_default H K\<rparr>"

section \<open>Storage values\<close>

text \<open>
  The RLP library as far as it is used: \<open>append\<close> of a byte string to an empty stream, and
  \<open>as_raw\<close> of the item that a buffer holds. A stream with nothing appended is empty.
\<close>

record rlp_lib =
  rl_append_string :: "bytes \<Rightarrow> bytes"
  rl_as_raw :: "bytes \<Rightarrow> bytes"

definition storage_value_rlp_append :: "rlp_lib \<Rightarrow> sh256 \<Rightarrow> bytes" where
  "storage_value_rlp_append R v =
     (if list_all (\<lambda>n. n = 0) (word_bytes v) then []
      else rl_append_string R (dropWhile (\<lambda>n. n = 0) (word_bytes v)))"

definition storage_value_rlp_decode :: "rlp_lib \<Rightarrow> bytes \<Rightarrow> (string, sh256) result" where
  "storage_value_rlp_decode R rlp =
     (if rlp = [] then Inr 0
      else let data = rl_as_raw R rlp in
        if length data \<le> 32 then Inr (word_of_bytes (replicate (32 - length data) 0 @ data))
        else Inl Panic)"

definition storage_value_enc :: "rlp_lib \<Rightarrow> sh256 value_enc" where
  "storage_value_enc R = \<lparr>
     ve_encode = (\<lambda>v. Inr (storage_value_rlp_append R v)),
     ve_decode = storage_value_rlp_decode R,
     ve_default = Inr 0\<rparr>"

section \<open>Accounts and their encoding\<close>

lemma word_at_append:
  "length pre = off \<Longrightarrow> word_at (pre @ word_bytes w @ post) off = Inr w"
  by (simp add: word_at_def slice_range_def)

lemma word_at_ok: "off + 32 \<le> length buf \<Longrightarrow> word_at buf off = Inr (word_of_bytes (take 32 (drop off buf)))"
  by (simp add: word_at_def drop_take)

lemma length_zk_account_to_bytes:
  "zk_account_to_bytes H K a = Inr bs \<Longrightarrow> bs = [] \<or> length bs = 192"
  by (auto simp: zk_account_to_bytes_def bind_result_ok_iff split: if_splits)

lemma zk_account_from_to_bytes:
  assumes "zk_account_default H K = (Inr d :: ('e, zk_state_account) result)"
  shows "bind_result (zk_account_to_bytes H K a) (zk_account_from_bytes H K) = (Inr a :: ('e, zk_state_account) result)"
proof (cases "a = d")
  case True
  then show ?thesis using assms by (simp add: zk_account_to_bytes_def zk_account_from_bytes_def)
next
  case False
  let ?n = "word_bytes (ucast (za_nonce a))" and ?b = "word_bytes (za_balance a)" and ?r = "word_bytes (za_root a)"
    and ?m = "word_bytes (za_mimc_code_hash a)" and ?k = "word_bytes (za_keccak_code_hash a)"
    and ?c = "word_bytes (za_code_size a)"
  let ?bs = "?n @ ?b @ ?r @ ?m @ ?k @ ?c"
  have "word_at ?bs 0 = (Inr (ucast (za_nonce a)) :: ('e, 256 word) result)"
    "word_at ?bs 32 = (Inr (za_balance a) :: ('e, 256 word) result)"
    "word_at ?bs 64 = (Inr (za_root a) :: ('e, 256 word) result)"
    "word_at ?bs 96 = (Inr (za_mimc_code_hash a) :: ('e, 256 word) result)"
    "word_at ?bs 128 = (Inr (za_keccak_code_hash a) :: ('e, 256 word) result)"
    "word_at ?bs 160 = (Inr (za_code_size a) :: ('e, 256 word) result)"
    using word_at_append [of "[]" 0 "ucast (za_nonce a)" "?b @ ?r @ ?m @ ?k @ ?c"]
      word_at_append [of "?n" 32 "za_balance a" "?r @ ?m @ ?k @ ?c"]
      word_at_append [of "?n @ ?b" 64 "za_root a" "?m @ ?k @ ?c"]
      word_at_append [of "?n @ ?b @ ?r" 96 "za_mimc_code_hash a" "?k @ ?c"]
      word_at_append [of "?n @ ?b @ ?r @ ?m" 128 "za_keccak_code_hash a" "?c"]
      word_at_append [of "?n @ ?b @ ?r @ ?m @ ?k" 160 "za_code_size a" "[]"]
    by simp_all
  moreover have "length ?bs \<noteq> 0" by simp
  moreover have "as_u64 (ucast (za_nonce a)) = (Inr (za_nonce a) :: ('e, u64) result)" by simp
  ultimately show ?thesis
    using False assms by (simp add: zk_account_to_bytes_def zk_account_from_bytes_def del: length_append)
qed

lemma zk_account_from_bytes_short:
  assumes "buf \<noteq> []" "length buf < 192"
  shows "zk_account_from_bytes H K buf = Inl Panic"
  using assms by (simp add: zk_account_from_bytes_def word_at_def slice_range_def)

text \<open>The existence test is true of the default account and of no other.\<close>

lemma zk_account_is_exist_iff:
  assumes "zk_account_default H K = (Inr d :: ('e, zk_state_account) result)"
  shows "zk_account_is_exist H K a = (Inr (a = d) :: ('e, bool) result)"
  using assms by (simp add: zk_account_is_exist_def)

context trie_hasher begin

lemma zk_account_default_ok:
  "zk_account_default H K = Inr \<lparr>za_nonce = 0, za_balance = 0, za_root = 0,
     za_mimc_code_hash = value_hash H (word_bytes 0), za_keccak_code_hash = K [], za_code_size = 0\<rparr>"
proof -
  have "word_bytes 0 \<noteq> []" using length_word_bytes [of 0] by fastforce
  then show ?thesis
    by (simp add: zk_account_default_def empty_mimc_code_hash_def trie_hash_ok empty_keccak_code_hash_def)
qed

end

section \<open>Storage values do not survive their own encoding\<close>

text \<open>
  Any 32-byte buffer decodes to the word it spells, which is what the proofs of the state manager
  hold; the encoder adds an RLP header that the decoder does not strip.
\<close>

lemma storage_value_decode_raw:
  assumes "rl_as_raw R bs = bs" "length bs = 32"
  shows "storage_value_rlp_decode R bs = Inr (word_of_bytes bs)"
  using assms by (auto simp: storage_value_rlp_decode_def)

lemma storage_value_encode_full:
  assumes "rl_as_raw R (b # word_bytes v) = b # word_bytes v" "rl_append_string R (word_bytes v) = b # word_bytes v"
    and "hd (word_bytes v) \<noteq> 0"
  shows "storage_value_rlp_decode R (storage_value_rlp_append R v) = Inl Panic"
proof -
  obtain x xs where x: "word_bytes v = x # xs" "x \<noteq> 0"
    using assms(3) length_word_bytes [of v] by (cases "word_bytes v") auto
  have "length (word_bytes v) = 32" by simp
  then show ?thesis
    using assms(1,2) x by (simp add: storage_value_rlp_append_def storage_value_rlp_decode_def del: length_word_bytes)
qed

section \<open>What the encodings guarantee\<close>

text \<open>C26: decoding the encoding of an account gives the account back, for every account, the default
  one included, which is encoded as no bytes.\<close>

theorem account_roundtrip:
  "bind_result (zk_account_to_bytes (mimc_sum mont_ff M) K a) (zk_account_from_bytes (mimc_sum mont_ff M) K) = Inr a"
  by (rule zk_account_from_to_bytes) (rule mimc.zk_account_default_ok)

text \<open>Decoding bytes as an account, for all bytes. None give the default account; fewer than 192
  panic; otherwise the six words are the fields, what follows is ignored, and a nonce beyond 64
  bits panics.\<close>

theorem account_decoding:
  "zk_account_from_bytes (mimc_sum mont_ff M) K buf =
     (let w = (\<lambda>i. word_of_bytes (take 32 (drop (32 * i) buf))) in
      if buf = [] then Inr \<lparr>za_nonce = 0, za_balance = 0, za_root = 0,
        za_mimc_code_hash = value_hash (mimc_sum mont_ff M) (word_bytes 0), za_keccak_code_hash = K [], za_code_size = 0\<rparr>
      else if length buf < 192 \<or> 2 ^ 64 \<le> unat (w 0) then Inl Panic
      else Inr \<lparr>za_nonce = ucast (w 0), za_balance = w 1, za_root = w 2, za_mimc_code_hash = w 3,
        za_keccak_code_hash = w 4, za_code_size = w 5\<rparr>)"
proof (cases "buf = []")
  case True
  then show ?thesis by (simp add: zk_account_from_bytes_def mimc.zk_account_default_ok Let_def)
next
  case False
  show ?thesis
  proof (cases "length buf < 192")
    case True
    then show ?thesis using False by (simp add: zk_account_from_bytes_short Let_def)
  next
    case long: False
    then show ?thesis using False by (simp add: zk_account_from_bytes_def word_at_ok Let_def as_u64_def not_le)
  qed
qed

text \<open>\<open>is_exist\<close> holds of the default account and of no other.\<close>

theorem account_exists_iff_default:
  "zk_account_is_exist (mimc_sum mont_ff M) K a =
     Inr (a = \<lparr>za_nonce = 0, za_balance = 0, za_root = 0,
       za_mimc_code_hash = value_hash (mimc_sum mont_ff M) (word_bytes 0), za_keccak_code_hash = K [], za_code_size = 0\<rparr>)"
  by (rule zk_account_is_exist_iff) (rule mimc.zk_account_default_ok)

text \<open>C28: a storage value without leading zero bytes cannot be decoded from its own encoding. The
  encoder writes the 32 bytes as an RLP string, which has a header byte in front, and the decoder
  takes the item with its header: 33 bytes, for which it panics.\<close>

theorem storage_value_not_decodable:
  assumes "rl_append_string R (word_bytes v) = 160 # word_bytes v"
    and "rl_as_raw R (160 # word_bytes v) = 160 # word_bytes v"
    and "hd (word_bytes v) \<noteq> 0"
  shows "bind_result (ve_encode (storage_value_enc R) v) (ve_decode (storage_value_enc R)) = Inl Panic"
  using storage_value_encode_full [OF assms(2,1,3)] by (simp add: storage_value_enc_def)

definition rlp_short_strings :: rlp_lib where
  "rlp_short_strings = \<lparr>
     rl_append_string = (\<lambda>bs. if length bs = 1 \<and> hd bs < 128 then bs else (128 + of_nat (length bs)) # bs),
     rl_as_raw = (\<lambda>bs. bs)\<rparr>"

theorem storage_value_not_decodable_witness:
  "bind_result (ve_encode (storage_value_enc rlp_short_strings) (word_of_bytes (replicate 32 1))) (ve_decode (storage_value_enc rlp_short_strings)) = Inl Panic"
proof (rule storage_value_not_decodable)
  have "word_bytes (word_of_bytes (replicate 32 1)) = replicate 32 1" by (rule word_bytes_word_of_bytes) simp
  then show "hd (word_bytes (word_of_bytes (replicate 32 1))) \<noteq> 0" by (simp add: hd_replicate)
qed (simp_all add: rlp_short_strings_def)

end
