(* ===== verification/Linea_Trie.thy ===== *)
theory Linea_Trie
  imports Zk_Trie Linea_Account "HOL-Library.List_Lexorder"
begin

text \<open>
  The trait \<open>Trie\<close> and its implementation by the zk trie: \<open>src/common/linea/src/trie.rs\<close>. A
  generic function over \<open>T: Trie\<close> takes the record of the trait's methods.
\<close>

section \<open>The trait\<close>

datatype trie_update = TrieUpdate_Missing sh256 | TrieUpdate_Success

text \<open>
  \<open>get\<close> and \<open>try_get\<close> have the store as \<open>&mut\<close>, \<open>update\<close> the trie and the store; \<open>update\<close> and
  \<open>try_get\<close> have no error in their type but may panic.
\<close>

record ('t, 'd) trie_trait =
  tt_root_hash :: "'t \<Rightarrow> sh256"
  tt_try_get :: "'t \<Rightarrow> bytes \<Rightarrow> ('d, string, bytes option) comp"
  tt_get :: "'t \<Rightarrow> bytes \<Rightarrow> ('d, string, bytes) comp"
  tt_update :: "(bytes \<times> bytes) list \<Rightarrow> ('t \<times> 'd, string, trie_update list) comp"
  tt_new_root :: "'t \<Rightarrow> sh256 \<Rightarrow> 't"

section \<open>The implementation\<close>

text \<open>\<open>c.unwrap()\<close> on the outcome of a stateful operation.\<close>

definition unwrapc :: "('s, 'd, 'a) comp \<Rightarrow> ('s, 'e, 'a) comp" where
  "unwrapc c s = (case c s of (r, s') \<Rightarrow> (unwrap r, s'))"

text \<open>\<open>debug\<close> formats an error as a string.\<close>

definition linea_trie_get ::
  "hasher \<Rightarrow> (zk_error \<Rightarrow> string) \<Rightarrow> 's database \<Rightarrow> zk_trie \<Rightarrow> bytes \<Rightarrow> ('s, string, bytes) comp" where
  "linea_trie_get H debug D t key =
     readc (\<lambda>db. bind_result (map_err debug (zk_read H D key t db)) (\<lambda>val.
       Inr (case val of Some v \<Rightarrow> v | None \<Rightarrow> [])))"

definition linea_trie_new :: "sh256 \<Rightarrow> zk_trie" where
  "linea_trie_new root = zk_new root"

definition linea_trie_new_root :: "zk_trie \<Rightarrow> sh256 \<Rightarrow> zk_trie" where
  "linea_trie_new_root t new_root = zk_new new_root"

definition linea_trie_root_hash :: "zk_trie \<Rightarrow> sh256" where
  "linea_trie_root_hash t = zk_top_root_hash t"

definition linea_trie_try_get :: "zk_trie \<Rightarrow> bytes \<Rightarrow> ('s, string, bytes option) comp" where
  "linea_trie_try_get t key = lift_result (Inl Panic)"

text \<open>The stable sort by descending key.\<close>

definition sort_updates :: "(bytes \<times> bytes) list \<Rightarrow> (bytes \<times> bytes) list" where
  "sort_updates updates = rev (sort_key fst (rev updates))"

text \<open>
  The loop of \<open>update\<close>. A value of 192 bytes is decoded as an account, for a log line; the
  decoding may panic.
\<close>

fun linea_trie_update_loop ::
  "hasher \<Rightarrow> keccak \<Rightarrow> 's database \<Rightarrow> (bytes \<times> bytes) list \<Rightarrow> trie_update list \<Rightarrow>
   (zk_trie \<times> 's, string, trie_update list) comp" where
  "linea_trie_update_loop H K D [] result = returnc result"
| "linea_trie_update_loop H K D ((item, data) # updates) result =
     bindc (if length data = 192
            then bindc (lift_result (zk_account_from_bytes H K data)) (\<lambda>acc. returnc ())
            else returnc ()) (\<lambda>_.
     bindc (if length data = 0 then unwrapc (zk_remove H D item) else unwrapc (zk_put H D item data)) (\<lambda>_.
       linea_trie_update_loop H K D updates (result @ [TrieUpdate_Success])))"

definition linea_trie_update ::
  "hasher \<Rightarrow> keccak \<Rightarrow> 's database \<Rightarrow> (bytes \<times> bytes) list \<Rightarrow> (zk_trie \<times> 's, string, trie_update list) comp" where
  "linea_trie_update H K D updates = linea_trie_update_loop H K D (sort_updates updates) []"

definition linea_trie ::
  "hasher \<Rightarrow> keccak \<Rightarrow> (zk_error \<Rightarrow> string) \<Rightarrow> 's database \<Rightarrow> (zk_trie, 's) trie_trait" where
  "linea_trie H K debug D = \<lparr>
     tt_root_hash = linea_trie_root_hash,
     tt_try_get = linea_trie_try_get,
     tt_get = linea_trie_get H debug D,
     tt_update = linea_trie_update H K D,
     tt_new_root = linea_trie_new_root\<rparr>"

section \<open>The contract a cache relies on\<close>

text \<open>
  Reading leaves the store alone, a new root is the root, and an update that returns reports
  success of every entry.
\<close>

locale cached_trie =
  fixes T :: "('t, 'd) trie_trait"
  assumes get_pure: "snd (tt_get T t k d) = d"
    and new_root: "tt_root_hash T (tt_new_root T t r) = r"
    and update_success: "tt_update T us s = (Inr rs, s') \<Longrightarrow> rs = replicate (length us) TrieUpdate_Success"

lemma linea_trie_update_loop_success:
  "linea_trie_update_loop H K D us rs s = (Inr rs', s') \<Longrightarrow> rs' = rs @ replicate (length us) TrieUpdate_Success"
proof (induction us arbitrary: rs s)
  case (Cons u us)
  obtain item data where u: "u = (item, data)" by (cases u)
  from Cons.prems show ?case
    unfolding u linea_trie_update_loop.simps bindc_ok_iff
    by (auto dest: Cons.IH)
qed simp

lemma length_sort_updates [simp]: "length (sort_updates us) = length us"
  by (simp add: sort_updates_def)

lemma mset_sort_updates [simp]: "set (sort_updates us) = set us"
  by (simp add: sort_updates_def)

text \<open>The updates are applied in descending order of their keys.\<close>

lemma sorted_sort_updates: "sorted (rev (map fst (sort_updates us)))"
  by (simp add: sort_updates_def rev_map)

interpretation linea_cached: cached_trie "linea_trie H K debug D" for H K debug D
proof
  show "snd (tt_get (linea_trie H K debug D) t k d) = d" for t k d
    by (simp add: linea_trie_def linea_trie_get_def)
  show "tt_root_hash (linea_trie H K debug D) (tt_new_root (linea_trie H K debug D) t r) = r" for t r
    by (simp add: linea_trie_def linea_trie_root_hash_def linea_trie_new_root_def zk_top_root_hash_def
        zk_new_def smt_new_def)
  show "rs = replicate (length us) TrieUpdate_Success"
    if "tt_update (linea_trie H K debug D) us s = (Inr rs, s')" for us s rs s'
    using that by (auto simp: linea_trie_def linea_trie_update_def dest: linea_trie_update_loop_success)
qed

text \<open>An update that fails has panicked: the trie's errors are unwrapped.\<close>

lemma linea_trie_update_loop_panics:
  "linea_trie_update_loop H K D us rs s = (Inl e, s') \<Longrightarrow> e = Panic"
proof (induction us arbitrary: rs s)
  case (Cons u us)
  obtain item data where u: "u = (item, data)" by (cases u)
  have dec: "zk_account_from_bytes H K bs = (Inl e :: (string, zk_state_account) result) \<Longrightarrow> e = Panic" for bs e
    by (auto simp: zk_account_from_bytes_def zk_account_default_def empty_mimc_code_hash_def word_at_def
        slice_range_def as_u64_def bind_result_def split: sum.splits if_splits elim: unwrap.elims)
  have unw: "unwrapc c s = (Inl e, s'') \<Longrightarrow> e = Panic" for c :: "('b, 'd, 'c) comp" and s e s''
    by (auto simp: unwrapc_def split: prod.splits elim: unwrap.elims)
  from Cons.prems show ?case
    unfolding u linea_trie_update_loop.simps
    by (auto simp: bindc_def split: prod.splits sum.splits if_splits dest: Cons.IH dec unw)
qed simp

section \<open>What an update guarantees\<close>

text \<open>An update works through a permutation of the entries in descending order of their keys,
  entries with the same key in the order given; it either reports success of every entry or
  panics, an error of the trie never reaches the caller.\<close>

theorem trie_update_outcome:
  "linea_trie_update H K D us = linea_trie_update_loop H K D (sort_updates us) [] \<and>
   sorted (rev (map fst (sort_updates us))) \<and>
   (\<forall>k. filter (\<lambda>u. fst u = k) (sort_updates us) = filter (\<lambda>u. fst u = k) us) \<and>
   fst (linea_trie_update H K D us s) \<in> {Inr (replicate (length us) TrieUpdate_Success), Inl Panic}"
proof -
  have "filter (\<lambda>u. fst u = k) (sort_updates us) = filter (\<lambda>u. fst u = k) us" for k
    using sort_key_stable [of fst k "rev us"] by (simp add: sort_updates_def rev_filter [symmetric])
  moreover obtain r s' where r: "linea_trie_update_loop H K D (sort_updates us) [] s = (r, s')" by (metis prod.exhaust)
  moreover have "r \<in> {Inr (replicate (length us) TrieUpdate_Success), Inl Panic}"
    using r linea_trie_update_loop_success [of H K D "sort_updates us" "[]" s]
      linea_trie_update_loop_panics [of H K D "sort_updates us" "[]" s] by (cases r) auto
  ultimately show ?thesis
    using sorted_sort_updates [of us] by (simp add: linea_trie_update_def)
qed

end
