(* ===== verification/Trie_Cache.thy ===== *)
theory Trie_Cache
  imports Linea_Trie
begin

text \<open>
  The write-back cache over a trie: \<open>src/common/linea/src/cache.rs\<close>. The struct is generic in
  the trie, the key and the value; the functions take the record of the trie's methods, the
  value's encoding and the bytes of a key. The state of an operation is the cache and the store.
\<close>

section \<open>State\<close>

text \<open>\<open>dirty\<close> is a \<open>BTreeMap<K, ()>\<close>, that is a set, listed in ascending order.\<close>

record ('t, 'k, 'v) trie_cache =
  tc_raw :: 't
  tc_cache :: "'k \<rightharpoonup> 'v"
  tc_dirty :: "'k set"

definition trie_cache_new :: "'t \<Rightarrow> ('t, 'k, 'v) trie_cache" where
  "trie_cache_new raw = \<lparr>tc_raw = raw, tc_cache = Map.empty, tc_dirty = {}\<rparr>"

text \<open>\<open>From<T>\<close> for a cache.\<close>

definition trie_cache_from :: "'t \<Rightarrow> ('t, 'k, 'v) trie_cache" where
  "trie_cache_from raw = \<lparr>tc_raw = raw, tc_cache = Map.empty, tc_dirty = {}\<rparr>"

lemma trie_cache_from_new: "trie_cache_from = trie_cache_new"
  by (simp add: fun_eq_iff trie_cache_from_def trie_cache_new_def)

definition trie_cache_root_hash :: "('t, 'd) trie_trait \<Rightarrow> ('t, 'k, 'v) trie_cache \<Rightarrow> sh256" where
  "trie_cache_root_hash T c = tt_root_hash T (tc_raw c)"

definition trie_cache_mark_dirty :: "'k \<Rightarrow> ('t, 'k, 'v) trie_cache \<Rightarrow> ('t, 'k, 'v) trie_cache" where
  "trie_cache_mark_dirty k c = c\<lparr>tc_dirty := insert k (tc_dirty c)\<rparr>"

definition trie_cache_is_dirty :: "'k \<Rightarrow> ('t, 'k, 'v) trie_cache \<Rightarrow> bool" where
  "trie_cache_is_dirty k c \<longleftrightarrow> k \<in> tc_dirty c"

definition trie_cache_revert ::
  "('t, 'd) trie_trait \<Rightarrow> sh256 \<Rightarrow> ('t, 'k, 'v) trie_cache \<Rightarrow> bool \<times> ('t, 'k, 'v) trie_cache" where
  "trie_cache_revert T root c =
     (if tt_root_hash T (tc_raw c) = root \<and> tc_dirty c = {} then (False, c)
      else (True, c\<lparr>tc_cache := Map.empty, tc_dirty := {}, tc_raw := tt_new_root T (tc_raw c) root\<rparr>))"

section \<open>Operations\<close>

text \<open>
  The closure gets the trie, the cached value, the dirty flag (initially false) and the store as
  \<open>&mut\<close>; it may panic.
\<close>

type_synonym ('t, 'v, 'd, 'o) ctx_fun = "('t \<times> 'v \<times> bool \<times> 'd, string, 'o) comp"

definition trie_cache_ctx_new :: "'t \<Rightarrow> 'v \<Rightarrow> bool \<Rightarrow> 'd \<Rightarrow> 't \<times> 'v \<times> bool \<times> 'd" where [simp]:
  "trie_cache_ctx_new raw val dirty db = (raw, val, dirty, db)"

definition run_ctx ::
  "'k \<Rightarrow> 'v \<Rightarrow> ('t, 'v, 'd, 'o) ctx_fun \<Rightarrow> (('t, 'k, 'v) trie_cache \<times> 'd, string, 'o) comp" where
  "run_ctx k v f = (\<lambda>(c, db).
     case f (trie_cache_ctx_new (tc_raw c) v False db) of (r, (raw, v', dirty, db')) \<Rightarrow>
       let c' = c\<lparr>tc_raw := raw, tc_cache := (tc_cache c)(k \<mapsto> v')\<rparr> in
       (case r of
          Inl e \<Rightarrow> (Inl e, (c', db'))
        | Inr out \<Rightarrow> (Inr out, (if dirty then c'\<lparr>tc_dirty := insert k (tc_dirty c')\<rparr> else c', db'))))"

definition decode_value :: "'v value_enc \<Rightarrow> bytes \<Rightarrow> (string, 'v) result" where
  "decode_value E data = (if length data = 0 then ve_default E else ve_decode E data)"

definition trie_cache_with_key ::
  "('t, 'd) trie_trait \<Rightarrow> 'v value_enc \<Rightarrow> ('k \<Rightarrow> bytes) \<Rightarrow> 'k \<Rightarrow> ('t, 'v, 'd, 'o) ctx_fun \<Rightarrow>
   (('t, 'k, 'v) trie_cache \<times> 'd, string, 'o) comp" where
  "trie_cache_with_key T E as_ref k f = (\<lambda>(c, db).
     case tc_cache c k of
       Some v \<Rightarrow> run_ctx k v f (c, db)
     | None \<Rightarrow>
        (case tt_get T (tc_raw c) (as_ref k) db of
           (Inl e, db') \<Rightarrow> (Inl e, (c, db'))
         | (Inr data, db') \<Rightarrow>
             (case decode_value E data of
                Inl e \<Rightarrow> (Inl e, (c, db'))
              | Inr v \<Rightarrow> run_ctx k v f (c\<lparr>tc_cache := (tc_cache c)(k \<mapsto> v)\<rparr>, db'))))"

definition trie_cache_get_cloned ::
  "('t, 'd) trie_trait \<Rightarrow> 'v value_enc \<Rightarrow> ('k \<Rightarrow> bytes) \<Rightarrow> 'k \<Rightarrow> (('t, 'k, 'v) trie_cache \<times> 'd, string, 'v) comp" where
  "trie_cache_get_cloned T E as_ref k =
     trie_cache_with_key T E as_ref k (\<lambda>(raw, val, dirty, db). (Inr val, (raw, val, dirty, db)))"

definition trie_cache_try_with_key ::
  "('t, 'd) trie_trait \<Rightarrow> 'v value_enc \<Rightarrow> ('k \<Rightarrow> bytes) \<Rightarrow> 'k \<Rightarrow> ('t, 'v, 'd, 'o) ctx_fun \<Rightarrow>
   (('t, 'k, 'v) trie_cache \<times> 'd, string, 'o option) comp" where
  "trie_cache_try_with_key T E as_ref k f = (\<lambda>(c, db).
     case tc_cache c k of
       Some v \<Rightarrow> bindc (run_ctx k v f) (\<lambda>out. returnc (Some out)) (c, db)
     | None \<Rightarrow>
        (case tt_try_get T (tc_raw c) (as_ref k) db of
           (Inl e, db') \<Rightarrow> (Inl e, (c, db'))
         | (Inr None, db') \<Rightarrow> (Inr None, (c, db'))
         | (Inr (Some data), db') \<Rightarrow>
             (case decode_value E data of
                Inl e \<Rightarrow> (Inl e, (c, db'))
              | Inr v \<Rightarrow> bindc (run_ctx k v f) (\<lambda>out. returnc (Some out))
                  (c\<lparr>tc_cache := (tc_cache c)(k \<mapsto> v)\<rparr>, db'))))"

text \<open>The value \<open>set\<close> of the context: a target changes only when the new value differs.\<close>

definition ctx_set :: "'n \<Rightarrow> 'n \<times> bool \<Rightarrow> 'n \<times> bool" where
  "ctx_set val = (\<lambda>(target, dirty). if target \<noteq> val then (val, True) else (target, dirty))"

definition encode_cached :: "'v value_enc \<Rightarrow> ('k \<rightharpoonup> 'v) \<Rightarrow> 'k \<Rightarrow> (string, bytes) result" where
  "encode_cached E cache k = (case cache k of None \<Rightarrow> Inr [] | Some v \<Rightarrow> ve_encode E v)"

definition flush_updates ::
  "'v value_enc \<Rightarrow> ('k \<Rightarrow> bytes) \<Rightarrow> ('k \<rightharpoonup> 'v) \<Rightarrow> 'k list \<Rightarrow> (string, (bytes \<times> bytes) list) result" where
  "flush_updates E as_ref cache keys =
     map_result (\<lambda>k. bind_result (encode_cached E cache k) (\<lambda>data. Inr (as_ref k, data))) keys"

fun flush_results :: "(trie_update \<times> 'k) list \<Rightarrow> sh256 list \<Rightarrow> 'k set \<Rightarrow> sh256 list \<times> 'k set" where
  "flush_results [] missing dirty = (missing, dirty)"
| "flush_results ((TrieUpdate_Missing n, k) # rs) missing dirty =
     flush_results rs (missing @ [n]) (dirty - {k})"
| "flush_results ((TrieUpdate_Success, k) # rs) missing dirty =
     flush_results rs missing (dirty - {k})"

definition trie_cache_flush ::
  "('t, 'd) trie_trait \<Rightarrow> 'v value_enc \<Rightarrow> ('k \<Rightarrow> bytes) \<Rightarrow>
   (('t, 'k :: linorder, 'v) trie_cache \<times> 'd, sh256 list, unit) comp" where
  "trie_cache_flush T E as_ref = (\<lambda>(c, db).
     let keys = sorted_list_of_set (tc_dirty c) in
     case flush_updates E as_ref (tc_cache c) keys of
       Inl _ \<Rightarrow> (Inl Panic, (c, db))
     | Inr updates \<Rightarrow>
        (case tt_update T updates (tc_raw c, db) of
           (Inl _, (raw, db')) \<Rightarrow> (Inl Panic, (c\<lparr>tc_raw := raw\<rparr>, db'))
         | (Inr results, (raw, db')) \<Rightarrow>
             if length results \<noteq> length keys then (Inl Panic, (c\<lparr>tc_raw := raw\<rparr>, db'))
             else (case flush_results (zip results keys) [] (tc_dirty c) of (missing, dirty) \<Rightarrow>
               (if missing \<noteq> [] then Inl (Fail missing) else Inr (), (c\<lparr>tc_raw := raw, tc_dirty := dirty\<rparr>, db')))))"

section \<open>Reading through the cache\<close>

text \<open>
  The value a key has now: the cached one, or what the trie holds. A closure sees it, and only
  the key's own entry can change.
\<close>

definition current_value ::
  "('t, 'd) trie_trait \<Rightarrow> 'v value_enc \<Rightarrow> ('k \<Rightarrow> bytes) \<Rightarrow> ('t, 'k, 'v) trie_cache \<Rightarrow> 'd \<Rightarrow> 'k \<Rightarrow> (string, 'v) result" where
  "current_value T E as_ref c db k =
     (case tc_cache c k of
        Some v \<Rightarrow> Inr v
      | None \<Rightarrow> bind_result (fst (tt_get T (tc_raw c) (as_ref k) db)) (decode_value E))"

context cached_trie begin

lemma with_key_current:
  "trie_cache_with_key T E as_ref k f (c, db) =
     (case current_value T E as_ref c db k of
        Inl e \<Rightarrow> (Inl e, (c, db))
      | Inr v \<Rightarrow> run_ctx k v f (c, db))"
proof (cases "tc_cache c k")
  case None
  obtain r where g: "tt_get T (tc_raw c) (as_ref k) db = (r, db)"
    using get_pure [of "tc_raw c" "as_ref k" db] by (metis prod.collapse)
  have same: "run_ctx k v f (c\<lparr>tc_cache := (tc_cache c)(k \<mapsto> v)\<rparr>, db) = run_ctx k v f (c, db)" for v
    by (simp add: run_ctx_def split: prod.split sum.split)
  show ?thesis
    using None g same
    by (cases r) (auto simp: trie_cache_with_key_def current_value_def split: sum.split)
qed (simp add: trie_cache_with_key_def current_value_def)

lemma get_cloned_current:
  "trie_cache_get_cloned T E as_ref k (c, db) =
     (case current_value T E as_ref c db k of
        Inl e \<Rightarrow> (Inl e, (c, db))
      | Inr v \<Rightarrow> (Inr v, (c\<lparr>tc_cache := (tc_cache c)(k \<mapsto> v)\<rparr>, db)))"
  by (simp add: trie_cache_get_cloned_def with_key_current run_ctx_def split: sum.split)

text \<open>A second read returns the cached value and changes nothing.\<close>

lemma get_cloned_stable:
  assumes "trie_cache_get_cloned T E as_ref k (c, db) = (Inr v, (c', db'))"
  shows "db' = db" "trie_cache_get_cloned T E as_ref k (c', db') = (Inr v, (c', db'))"
    "tc_dirty c' = tc_dirty c" "tc_cache c' = (tc_cache c)(k \<mapsto> v)"
proof -
  have c': "c' = c\<lparr>tc_cache := (tc_cache c)(k \<mapsto> v)\<rparr>" "db' = db"
    using assms unfolding get_cloned_current by (auto split: sum.splits)
  then have "current_value T E as_ref c' db' k = Inr v" by (simp add: current_value_def)
  then show "trie_cache_get_cloned T E as_ref k (c', db') = (Inr v, (c', db'))"
    by (simp add: get_cloned_current c')
  show "db' = db" "tc_dirty c' = tc_dirty c" "tc_cache c' = (tc_cache c)(k \<mapsto> v)" by (simp_all add: c')
qed

lemma with_key_other:
  assumes "trie_cache_with_key T E as_ref k f (c, db) = (r, (c', db'))" "j \<noteq> k"
  shows "tc_cache c' j = tc_cache c j" "j \<in> tc_dirty c' \<longleftrightarrow> j \<in> tc_dirty c"
  using assms
  by (auto simp: with_key_current run_ctx_def Let_def split: sum.splits prod.splits if_splits)

lemma revert_root:
  assumes "trie_cache_revert T root c = (b, c')"
  shows "trie_cache_root_hash T c' = root" "tc_dirty c' = {}"
    "b = (tt_root_hash T (tc_raw c) \<noteq> root \<or> tc_dirty c \<noteq> {})"
    "b \<longrightarrow> tc_cache c' = Map.empty" "\<not> b \<longrightarrow> c' = c"
  using assms by (auto simp: trie_cache_revert_def trie_cache_root_hash_def new_root split: if_splits)

end

section \<open>Flushing\<close>

lemma flush_results_success:
  "flush_results (zip (replicate (length keys) TrieUpdate_Success) keys) missing dirty = (missing, dirty - set keys)"
proof (induction keys arbitrary: dirty)
  case (Cons k keys)
  have "dirty - {k} - set keys = dirty - set (k # keys)" by auto
  then show ?case using Cons [of "dirty - {k}"] by simp
qed simp

lemma flush_updates_ok:
  assumes "flush_updates E as_ref cache keys = Inr us"
  shows "length us = length keys" "\<forall>i<length keys. fst (us ! i) = as_ref (keys ! i) \<and>
    encode_cached E cache (keys ! i) = Inr (snd (us ! i))"
  using assms unfolding flush_updates_def
proof (induction keys arbitrary: us)
  case (Cons k keys)
  { case 1 then show ?case using Cons by (auto simp: bind_result_ok_iff) }
  { case 2
    then obtain d us' where us: "us = (as_ref k, d) # us'" "encode_cached E cache k = Inr d"
      "map_result (\<lambda>k. bind_result (encode_cached E cache k) (\<lambda>data. Inr (as_ref k, data))) keys = Inr us'"
      by (auto simp: bind_result_ok_iff)
    then show ?case using Cons.IH(2) [OF us(3)] by (auto simp: nth_Cons split: nat.split) }
qed simp_all

context cached_trie begin

text \<open>
  A flush sends every dirty key with its encoded value to the trie, leaves the cache and empties
  the dirty set; with such a trie it never reports missing nodes: it succeeds or panics.
\<close>

lemma flush_ok:
  assumes "trie_cache_flush T E as_ref (c, db) = (Inr (), (c', db'))" "finite (tc_dirty c)"
  shows "\<exists>us rs. flush_updates E as_ref (tc_cache c) (sorted_list_of_set (tc_dirty c)) = Inr us \<and>
    tt_update T us (tc_raw c, db) = (Inr rs, (tc_raw c', db')) \<and>
    tc_cache c' = tc_cache c \<and> tc_dirty c' = {}"
proof -
  let ?keys = "sorted_list_of_set (tc_dirty c)"
  from assms(1) obtain us where us: "flush_updates E as_ref (tc_cache c) ?keys = Inr us"
    by (auto simp: trie_cache_flush_def Let_def split: sum.splits)
  obtain r raw d where r: "tt_update T us (tc_raw c, db) = (r, (raw, d))" by (metis prod.exhaust)
  with assms(1) us obtain rs where rs: "r = Inr rs" by (cases r) (auto simp: trie_cache_flush_def Let_def)
  have "rs = replicate (length ?keys) TrieUpdate_Success"
    using update_success r rs flush_updates_ok(1) [OF us] by metis
  then have res: "flush_results (zip rs ?keys) [] (tc_dirty c) = ([], {})"
    using flush_results_success [of ?keys "[]" "tc_dirty c"] assms(2) by simp
  have "c' = c\<lparr>tc_raw := raw, tc_dirty := {}\<rparr>" "db' = d"
    using assms(1) us r rs res by (auto simp: trie_cache_flush_def Let_def split: if_splits)
  then show ?thesis using us r rs by simp
qed

lemma flush_never_missing:
  assumes "trie_cache_flush T E as_ref (c, db) = (Inl e, (c', db'))"
  shows "e = Panic"
proof -
  let ?keys = "sorted_list_of_set (tc_dirty c)"
  show ?thesis
  proof (cases "flush_updates E as_ref (tc_cache c) ?keys")
    case (Inl x)
    then show ?thesis using assms by (simp add: trie_cache_flush_def)
  next
    case us: (Inr us)
    obtain r raw d where r: "tt_update T us (tc_raw c, db) = (r, (raw, d))" by (metis prod.exhaust)
    show ?thesis
    proof (cases r)
      case (Inl x)
      then show ?thesis using assms us r by (simp add: trie_cache_flush_def)
    next
      case (Inr rs)
      then have "rs = replicate (length ?keys) TrieUpdate_Success"
        using update_success r flush_updates_ok(1) [OF us] by metis
      then have "fst (flush_results (zip rs ?keys) [] (tc_dirty c)) = []"
        using flush_results_success [of ?keys "[]" "tc_dirty c"] by simp
      then show ?thesis
        using assms us r Inr by (auto simp: trie_cache_flush_def Let_def split: if_splits prod.splits)
    qed
  qed
qed

end

section \<open>What the cache guarantees on the zk trie\<close>

text \<open>a read through the cache gives the current value of the key, which is the cached one or else
  what the trie holds, decoded; it marks nothing dirty, leaves the store alone and changes the
  current value of no key, the one read included.\<close>

theorem cache_reads_current:
  "case trie_cache_get_cloned (linea_trie H K debug D) E as_ref k (c, db) of (r, (c', db')) \<Rightarrow>
     r = current_value (linea_trie H K debug D) E as_ref c db k \<and> db' = db \<and> tc_dirty c' = tc_dirty c \<and> tc_raw c' = tc_raw c \<and>
     (\<forall>j. current_value (linea_trie H K debug D) E as_ref c' db' j = current_value (linea_trie H K debug D) E as_ref c db j)"
proof -
  let ?T = "linea_trie H K debug D"
  have "current_value ?T E as_ref (c\<lparr>tc_cache := (tc_cache c)(k \<mapsto> v)\<rparr>) db j = current_value ?T E as_ref c db j"
    if "current_value ?T E as_ref c db k = Inr v" for v j
    using that by (cases "j = k") (simp_all add: current_value_def cong: option.case_cong)
  then show ?thesis by (simp add: linea_cached.get_cloned_current split: sum.split)
qed

text \<open>The closure of a write: a new value from the old one, and the mark.\<close>

definition write_value :: "('v \<Rightarrow> 'v) \<Rightarrow> ('t, 'v, 'd, unit) ctx_fun" where
  "write_value g = (\<lambda>(raw, v, dirty, db). (Inr (), (raw, g v, True, db)))"

text \<open>A write through the cache is seen by every later read: the current value of the key is the
  one written, that of every other key is as before, the key is dirty, and neither the trie nor
  the store has changed.\<close>

theorem cache_write_is_read:
  assumes "current_value (linea_trie H K debug D) E as_ref c db k = Inr v"
  shows "\<exists>c'. trie_cache_with_key (linea_trie H K debug D) E as_ref k (write_value g) (c, db) = (Inr (), (c', db)) \<and>
    (\<forall>j. current_value (linea_trie H K debug D) E as_ref c' db j =
       (if j = k then Inr (g v) else current_value (linea_trie H K debug D) E as_ref c db j)) \<and>
    tc_dirty c' = insert k (tc_dirty c) \<and> tc_raw c' = tc_raw c"
  using assms
  by (simp add: linea_cached.with_key_current run_ctx_def write_value_def Let_def)
    (simp add: current_value_def cong: option.case_cong)

text \<open>A store without nodes and leaves, for the witnesses.\<close>

definition silent_db :: "unit database" where
  "silent_db = \<lparr>db_get_node = (\<lambda>_ _. Inr None), db_update_node = (\<lambda>_ n. returnc n),
     db_get_nearest_keys = (\<lambda>_ _ _. Inr \<lparr>kr_left_index = 0, kr_center = None, kr_right_index = 1\<rparr>),
     db_update_index = (\<lambda>_ _. id), db_remove_index = (\<lambda>_. id), db_get_code = (\<lambda>_ s. (None, s))\<rparr>"

theorem cache_write_is_read_witness:
  "\<exists>c'. trie_cache_with_key (linea_trie (mimc_sum mont_ff (\<lambda>_. 7)) (\<lambda>_. 7) (\<lambda>_. []) silent_db)
        (zk_account_enc (mimc_sum mont_ff (\<lambda>_. 7)) (\<lambda>_. 7)) (\<lambda>_. []) (5 :: nat) (write_value (za_nonce_update (\<lambda>n. n + 1)))
      (\<lparr>tc_raw = zk_new 0, tc_cache = [5 \<mapsto> \<lparr>za_nonce = 3, za_balance = 40, za_root = 0, za_mimc_code_hash = 1,
         za_keccak_code_hash = 2, za_code_size = 0\<rparr>], tc_dirty = {}\<rparr>, ()) = (Inr (), (c', ())) \<and>
    current_value (linea_trie (mimc_sum mont_ff (\<lambda>_. 7)) (\<lambda>_. 7) (\<lambda>_. []) silent_db)
        (zk_account_enc (mimc_sum mont_ff (\<lambda>_. 7)) (\<lambda>_. 7)) (\<lambda>_. []) c' () 5 =
      Inr \<lparr>za_nonce = 4, za_balance = 40, za_root = 0, za_mimc_code_hash = 1, za_keccak_code_hash = 2, za_code_size = 0\<rparr> \<and>
    tc_dirty c' = {5}"
proof -
  let ?a = "\<lparr>za_nonce = 3, za_balance = 40, za_root = 0, za_mimc_code_hash = 1, za_keccak_code_hash = 2, za_code_size = 0\<rparr>"
  have "current_value (linea_trie (mimc_sum mont_ff (\<lambda>_. 7)) (\<lambda>_. 7) (\<lambda>_. []) silent_db)
        (zk_account_enc (mimc_sum mont_ff (\<lambda>_. 7)) (\<lambda>_. 7)) (\<lambda>_. [])
      \<lparr>tc_raw = zk_new 0, tc_cache = [5 \<mapsto> ?a], tc_dirty = {}\<rparr> () (5 :: nat) = Inr ?a"
    by (simp add: current_value_def)
  from cache_write_is_read [OF this, of "za_nonce_update (\<lambda>n. n + 1)"] show ?thesis by auto
qed

text \<open>C29: a flush of finitely many dirty keys either panics or succeeds, it never reports missing
  nodes. When it succeeds it has encoded every dirty key, in ascending order, and handed the
  pairs to the trie's update; the cached values stay and nothing is dirty any more.\<close>

theorem cache_flush_writes_dirty:
  assumes "finite (tc_dirty c)"
  shows "case trie_cache_flush (linea_trie H K debug D) E as_ref (c, db) of
      (Inl e, _) \<Rightarrow> e = Panic
    | (Inr _, (c', db')) \<Rightarrow>
        \<exists>us rs. length us = card (tc_dirty c) \<and>
          (\<forall>i<length us. fst (us ! i) = as_ref (sorted_list_of_set (tc_dirty c) ! i) \<and>
             encode_cached E (tc_cache c) (sorted_list_of_set (tc_dirty c) ! i) = Inr (snd (us ! i))) \<and>
          linea_trie_update H K D us (tc_raw c, db) = (Inr rs, (tc_raw c', db')) \<and>
          tc_cache c' = tc_cache c \<and> tc_dirty c' = {}"
proof -
  obtain r c' db' where f: "trie_cache_flush (linea_trie H K debug D) E as_ref (c, db) = (r, (c', db'))"
    by (metis prod.exhaust)
  have update: "tt_update (linea_trie H K debug D) = linea_trie_update H K D" by (simp add: linea_trie_def)
  show ?thesis
  proof (cases r)
    case (Inl e)
    then show ?thesis using f linea_cached.flush_never_missing by fastforce
  next
    case (Inr u)
    obtain us rs where us: "flush_updates E as_ref (tc_cache c) (sorted_list_of_set (tc_dirty c)) = Inr us"
      "linea_trie_update H K D us (tc_raw c, db) = (Inr rs, (tc_raw c', db'))" "tc_cache c' = tc_cache c" "tc_dirty c' = {}"
      using linea_cached.flush_ok [OF _ assms, of H K debug D E as_ref db c' db'] f Inr unfolding update by auto
    have "length us = card (tc_dirty c)" using flush_updates_ok(1) [OF us(1)] by simp
    then show ?thesis
      using f Inr us flush_updates_ok [OF us(1)] by (auto intro!: exI [of _ us])
  qed
qed

text \<open>The witness flushes an account that is still the default. It is encoded as no bytes, which
  removes its key; the store knows no leaf for the key, so nothing is written.\<close>

theorem cache_flush_writes_dirty_witness:
  "\<exists>c'. trie_cache_flush (linea_trie (mimc_sum mont_ff (\<lambda>_. 7)) (\<lambda>_. 7) (\<lambda>_. []) silent_db) (zk_account_enc (mimc_sum mont_ff (\<lambda>_. 7)) (\<lambda>_. 7)) (\<lambda>_ :: nat. replicate 32 1)
      (\<lparr>tc_raw = zk_new 0, tc_cache = [5 \<mapsto> projr (zk_account_default (mimc_sum mont_ff (\<lambda>_. 7)) (\<lambda>_. 7) :: (string, zk_state_account) result)],
        tc_dirty = {5}\<rparr>, ()) = (Inr (), (c', ())) \<and> tc_dirty c' = {}"
proof -
  let ?H = "mimc_sum mont_ff (\<lambda>_. 7)"
  obtain d where d: "zk_account_default ?H (\<lambda>_. 7) = (Inr d :: (string, zk_state_account) result)"
    using mimc.zk_account_default_ok by blast
  let ?c = "\<lparr>tc_raw = zk_new 0, tc_cache = [(5 :: nat) \<mapsto> d], tc_dirty = {5}\<rparr>"
  let ?T = "linea_trie ?H (\<lambda>_. 7) (\<lambda>_. []) silent_db" and ?E = "zk_account_enc ?H (\<lambda>_. 7)"
  have us: "flush_updates ?E (\<lambda>_. replicate 32 1) (tc_cache ?c) [5] = Inr [(replicate 32 1, [])]"
    using d by (simp add: flush_updates_def encode_cached_def zk_account_enc_def zk_account_to_bytes_def)
  have key: "trie_hash ?H (replicate 32 1) = Inr (value_hash ?H (replicate 32 1))"
    by (rule mimc.trie_hash_ok) (simp_all add: length_greater_0_conv [symmetric] del: length_greater_0_conv replicate_empty)
  have up: "tt_update ?T [(replicate 32 1, [])] (zk_new 0, ()) = (Inr [TrieUpdate_Success], (zk_new 0, ()))"
    using key by (simp add: linea_trie_def linea_trie_update_def sort_updates_def unwrapc_def zk_remove_def bindc_def
        lift_result_def zk_nearest_keys_def readc_def silent_db_def returnc_def)
  have "\<exists>r c'. trie_cache_flush ?T ?E (\<lambda>_. replicate 32 1) (?c, ()) = (Inr r, (c', ()))"
    using us up by (simp add: trie_cache_flush_def)
  then show ?thesis unfolding d sum.sel
    using cache_flush_writes_dirty [where c = ?c and H = ?H and K = "\<lambda>_. 7" and debug = "\<lambda>_. []" and D = silent_db and E = ?E
      and as_ref = "\<lambda>_. replicate 32 1" and db = "()"] by auto
qed

end
