(* ===== verification/Zk_State.thy ===== *)
theory Zk_State
  imports Trie_Cache Mem_Store
begin

text \<open>
  The state database over the zk trie: \<open>src/common/linea/src/zktrie_state.rs\<close>. Accounts are
  cached over the account trie, the slots of an account over a trie of its own whose root is
  the account's. The methods of the trait \<open>StateDB\<close> that the code leaves \<open>unreachable!()\<close> are
  modelled as panics.
\<close>

section \<open>State\<close>

text \<open>The libraries and the store that the generic code is instantiated with.\<close>

record 's zk_env =
  ze_hasher :: hasher
  ze_keccak :: keccak
  ze_debug :: "zk_error \<Rightarrow> string"
  ze_rlp :: rlp_lib
  ze_add_assign :: "su256 \<Rightarrow> su256 \<Rightarrow> (string, su256) result"
  ze_sub_assign :: "su256 \<Rightarrow> su256 \<Rightarrow> (string, su256) result"
  ze_db :: "'s database"

datatype statedb_error = WithKey string | CodeNotFound sh256

type_synonym acc_cache = "(zk_trie, sh160, zk_state_account) trie_cache"
type_synonym storage_cache = "(zk_trie, sh256, sh256) trie_cache"

record 's zk_trie_state =
  zs_db :: 's
  zs_acc_cache :: acc_cache
  zs_storages :: "sh160 \<rightharpoonup> storage_cache"

definition account_key :: "hasher \<Rightarrow> bytes \<Rightarrow> ('e, sh256) result" where
  "account_key H acc = zk_hash H acc"

definition sh160_bytes :: "sh160 \<Rightarrow> bytes" where
  "sh160_bytes a = be_bytes 20 (unat a)"

definition new_from_trace :: "hasher \<Rightarrow> 's \<Rightarrow> trace \<Rightarrow> ('e, 's zk_trie_state) result" where
  "new_from_trace H db t =
     (case trace_old_state t of (next_free_node, sub_root) \<Rightarrow>
      bind_result (node_top_node H next_free_node sub_root) (\<lambda>root.
        Inr \<lparr>zs_db = db, zs_acc_cache = trie_cache_new (zk_new (nd_hash root)), zs_storages = Map.empty\<rparr>))"

abbreviation env_trie :: "'s zk_env \<Rightarrow> (zk_trie, 's) trie_trait" where
  "env_trie E \<equiv> linea_trie (ze_hasher E) (ze_keccak E) (ze_debug E) (ze_db E)"

abbreviation env_account :: "'s zk_env \<Rightarrow> zk_state_account value_enc" where
  "env_account E \<equiv> zk_account_enc (ze_hasher E) (ze_keccak E)"

section \<open>Access to accounts and slots\<close>

definition with_acc ::
  "'s zk_env \<Rightarrow> sh160 \<Rightarrow> (zk_trie, zk_state_account, 's, 'o) ctx_fun \<Rightarrow> ('s zk_trie_state, statedb_error, 'o) comp" where
  "with_acc E address f s =
     (case trie_cache_with_key (env_trie E) (env_account E) sh160_bytes address f (zs_acc_cache s, zs_db s) of
        (r, (c, db)) \<Rightarrow> (map_err WithKey r, s\<lparr>zs_acc_cache := c, zs_db := db\<rparr>))"

definition read_acc :: "(zk_state_account \<Rightarrow> 'o) \<Rightarrow> (zk_trie, zk_state_account, 's, 'o) ctx_fun" where
  "read_acc g = (\<lambda>(raw, val, dirty, db). (Inr (g val), (raw, val, dirty, db)))"

definition with_storage ::
  "'s zk_env \<Rightarrow> sh160 \<Rightarrow> sh256 \<Rightarrow> (zk_trie, sh256, 's, 'o) ctx_fun \<Rightarrow> ('s zk_trie_state, statedb_error, 'o) comp" where
  "with_storage E address pos f =
     bindc (with_acc E address (read_acc za_root)) (\<lambda>root.
     bindc (modifyc (\<lambda>s. case zs_storages s address of
         Some _ \<Rightarrow> s
       | None \<Rightarrow> s\<lparr>zs_storages := (zs_storages s)(address \<mapsto>
           trie_cache_new (tt_new_root (env_trie E) (tc_raw (zs_acc_cache s)) root))\<rparr>)) (\<lambda>_.
     bindc (\<lambda>s. let storage = the (zs_storages s address);
                  storage = (if trie_cache_root_hash (env_trie E) storage \<noteq> root
                             then snd (trie_cache_revert (env_trie E) root storage) else storage) in
        case trie_cache_with_key (env_trie E) (storage_value_enc (ze_rlp E)) word_bytes pos f (storage, zs_db s) of
          (r, (storage, db)) \<Rightarrow>
            (map_err WithKey r, s\<lparr>zs_storages := (zs_storages s)(address \<mapsto> storage), zs_db := db\<rparr>)) (\<lambda>out.
     bindc (\<lambda>s. if trie_cache_is_dirty pos (the (zs_storages s address))
                then with_acc E address (\<lambda>(raw, val, dirty, db). (Inr (), (raw, val, True, db))) s
                else (Inr (), s)) (\<lambda>_.
       returnc out))))"

section \<open>The state database\<close>

definition add_balance :: "'s zk_env \<Rightarrow> sh160 \<Rightarrow> su256 \<Rightarrow> ('s zk_trie_state, statedb_error, unit) comp" where
  "add_balance E address val =
     with_acc E address (\<lambda>(raw, acc, dirty, db).
       case ze_add_assign E (za_balance acc) val of
         Inl e \<Rightarrow> (Inl e, (raw, acc, True, db))
       | Inr b \<Rightarrow> (Inr (), (raw, acc\<lparr>za_balance := b\<rparr>, True, db)))"

definition sub_balance :: "'s zk_env \<Rightarrow> sh160 \<Rightarrow> su256 \<Rightarrow> ('s zk_trie_state, statedb_error, unit) comp" where
  "sub_balance E address val =
     with_acc E address (\<lambda>(raw, acc, dirty, db).
       case ze_sub_assign E (za_balance acc) val of
         Inl e \<Rightarrow> (Inl e, (raw, acc, True, db))
       | Inr b \<Rightarrow> (Inr (), (raw, acc\<lparr>za_balance := b\<rparr>, True, db)))"

definition exist :: "'s zk_env \<Rightarrow> sh160 \<Rightarrow> ('s zk_trie_state, statedb_error, bool) comp" where
  "exist E address =
     with_acc E address (\<lambda>(raw, acc, dirty, db).
       (zk_account_is_exist (ze_hasher E) (ze_keccak E) acc, (raw, acc, dirty, db)))"

text \<open>Missing nodes are only logged; the caches of the slots are not flushed.\<close>

definition flush :: "'s zk_env \<Rightarrow> ('s zk_trie_state, statedb_error, sh256) comp" where
  "flush E s =
     (case trie_cache_flush (env_trie E) (env_account E) sh160_bytes (zs_acc_cache s, zs_db s) of
        (r, (c, db)) \<Rightarrow>
          let s' = s\<lparr>zs_acc_cache := c, zs_db := db\<rparr> in
          (case r of
             Inl Panic \<Rightarrow> (Inl Panic, s')
           | _ \<Rightarrow> (Inr (trie_cache_root_hash (env_trie E) c), s')))"

definition get_account_basic :: "'s zk_env \<Rightarrow> sh160 \<Rightarrow> ('s zk_trie_state, statedb_error, su256 \<times> u64) comp" where
  "get_account_basic E address = with_acc E address (read_acc (\<lambda>a. (za_balance a, za_nonce a)))"

definition get_balance :: "'s zk_env \<Rightarrow> sh160 \<Rightarrow> ('s zk_trie_state, statedb_error, su256) comp" where
  "get_balance E address = with_acc E address (read_acc za_balance)"

definition get_code :: "'s zk_env \<Rightarrow> sh160 \<Rightarrow> ('s zk_trie_state, statedb_error, bytes) comp" where
  "get_code E address =
     bindc (with_acc E address (read_acc (\<lambda>a. (za_keccak_code_hash a, za_code_size a)))) (\<lambda>(code_hash, code_size).
       if code_size = 0 then returnc []
       else (\<lambda>s. case db_get_code (ze_db E) code_hash (zs_db s) of
          (Some code, db) \<Rightarrow> (Inr code, s\<lparr>zs_db := db\<rparr>)
        | (None, db) \<Rightarrow> (Inl (Fail (CodeNotFound code_hash)), s\<lparr>zs_db := db\<rparr>)))"

definition get_nonce :: "'s zk_env \<Rightarrow> sh160 \<Rightarrow> ('s zk_trie_state, statedb_error, u64) comp" where
  "get_nonce E address = with_acc E address (read_acc za_nonce)"

definition get_state :: "'s zk_env \<Rightarrow> sh160 \<Rightarrow> sh256 \<Rightarrow> ('s zk_trie_state, statedb_error, sh256) comp" where
  "get_state E address pos =
     with_storage E address pos (\<lambda>(raw, val, dirty, db). (Inr val, (raw, val, dirty, db)))"

definition set_nonce :: "'s zk_env \<Rightarrow> sh160 \<Rightarrow> su256 \<Rightarrow> ('s zk_trie_state, statedb_error, unit) comp" where
  "set_nonce E address val =
     with_acc E address (\<lambda>(raw, acc, dirty, db).
       case as_u64 val of
         Inl e \<Rightarrow> (Inl e, (raw, acc, dirty, db))
       | Inr n \<Rightarrow> (case zk_account_set_nonce n (acc, dirty) of (acc', dirty') \<Rightarrow> (Inr (), (raw, acc', dirty', db))))"

text \<open>The methods left \<open>unreachable!()\<close>; a fetched result, a missing state and an account are the library's.\<close>

definition apply_states :: "'r list \<Rightarrow> ('s zk_trie_state, statedb_error, unit) comp" where
  "apply_states fetched = lift_result (Inl Panic)"

definition check_missing_state :: "sh160 \<Rightarrow> sh256 list \<Rightarrow> ('s zk_trie_state, statedb_error, 'm) comp" where
  "check_missing_state address storages = lift_result (Inl Panic)"

definition fork :: "('s zk_trie_state, statedb_error, 's zk_trie_state) comp" where
  "fork = lift_result (Inl Panic)"

definition revert :: "sh256 \<Rightarrow> ('s zk_trie_state, statedb_error, unit) comp" where
  "revert root = lift_result (Inl Panic)"

definition set_balance :: "sh160 \<Rightarrow> su256 \<Rightarrow> ('s zk_trie_state, statedb_error, unit) comp" where
  "set_balance address val = lift_result (Inl Panic)"

definition set_code :: "sh160 \<Rightarrow> bytes \<Rightarrow> ('s zk_trie_state, statedb_error, unit) comp" where
  "set_code address code = lift_result (Inl Panic)"

definition set_state :: "sh160 \<Rightarrow> sh256 \<Rightarrow> sh256 \<Rightarrow> ('s zk_trie_state, statedb_error, unit) comp" where
  "set_state address idx value = lift_result (Inl Panic)"

definition state_root :: "('s zk_trie_state, statedb_error, sh256) comp" where
  "state_root = lift_result (Inl Panic)"

definition suicide :: "sh160 \<Rightarrow> ('s zk_trie_state, statedb_error, unit) comp" where
  "suicide address = lift_result (Inl Panic)"

definition try_get_acc :: "sh160 \<Rightarrow> ('s zk_trie_state, statedb_error, 'a option) comp" where
  "try_get_acc address = lift_result (Inl Panic)"

definition try_get_nonce :: "sh160 \<Rightarrow> ('s zk_trie_state, statedb_error, u64 option) comp" where
  "try_get_nonce address = lift_result (Inl Panic)"

lemmas unreachable_methods =
  apply_states_def check_missing_state_def fork_def revert_def set_balance_def set_code_def set_state_def
  state_root_def suicide_def try_get_acc_def try_get_nonce_def

section \<open>What the operations do to the accounts\<close>

text \<open>The account an address has now, through the cache.\<close>

definition account :: "'s zk_env \<Rightarrow> 's zk_trie_state \<Rightarrow> sh160 \<Rightarrow> (string, zk_state_account) result" where
  "account E s = current_value (env_trie E) (env_account E) sh160_bytes (zs_acc_cache s) (zs_db s)"

lemma with_acc_account:
  "with_acc E address f s =
     (case account E s address of
        Inl e \<Rightarrow> (map_err WithKey (Inl e), s)
      | Inr v \<Rightarrow> (case run_ctx address v f (zs_acc_cache s, zs_db s) of
          (r, (c, db)) \<Rightarrow> (map_err WithKey r, s\<lparr>zs_acc_cache := c, zs_db := db\<rparr>)))"
  by (simp add: with_acc_def account_def linea_cached.with_key_current split: sum.split)

text \<open>An access that leaves trie and store alone: the outcome, and the account afterwards.\<close>

lemma with_acc_pure:
  assumes "account E s a = Inr v" "f (tc_raw (zs_acc_cache s), v, False, zs_db s) =
      (Inr out, (tc_raw (zs_acc_cache s), v', dirty, zs_db s))"
  shows "\<exists>s'. with_acc E a f s = (Inr out, s') \<and> account E s' a = Inr v' \<and>
    (\<forall>b. b \<noteq> a \<longrightarrow> account E s' b = account E s b) \<and> zs_storages s' = zs_storages s \<and> zs_db s' = zs_db s \<and>
    tc_raw (zs_acc_cache s') = tc_raw (zs_acc_cache s) \<and>
    tc_dirty (zs_acc_cache s') = (if dirty then insert a (tc_dirty (zs_acc_cache s)) else tc_dirty (zs_acc_cache s))"
  using assms
  by (simp add: with_acc_account run_ctx_def Let_def) (simp add: account_def current_value_def cong: option.case_cong)

lemma get_balance_account:
  assumes "account E s a = Inr v"
  shows "fst (get_balance E a s) = Inr (za_balance v)" "fst (get_nonce E a s) = Inr (za_nonce v)"
    "fst (get_account_basic E a s) = Inr (za_balance v, za_nonce v)"
  using assms
  by (simp_all add: get_balance_def get_nonce_def get_account_basic_def with_acc_account run_ctx_def read_acc_def)

lemma add_balance_account:
  assumes "account E s a = Inr v" "ze_add_assign E (za_balance v) x = Inr b"
  shows "\<exists>s'. add_balance E a x s = (Inr (), s') \<and> account E s' a = Inr (v\<lparr>za_balance := b\<rparr>) \<and>
    (\<forall>c. c \<noteq> a \<longrightarrow> account E s' c = account E s c) \<and> a \<in> tc_dirty (zs_acc_cache s')"
proof -
  note pure = with_acc_pure [OF assms(1), of "\<lambda>(raw, acc, dirty, db).
       case ze_add_assign E (za_balance acc) x of
         Inl e \<Rightarrow> (Inl e, (raw, acc, True, db))
       | Inr b \<Rightarrow> (Inr (), (raw, acc\<lparr>za_balance := b\<rparr>, True, db))" "()" "v\<lparr>za_balance := b\<rparr>" True]
  show ?thesis using pure assms(2) by (auto simp: add_balance_def)
qed

lemma sub_balance_account:
  assumes "account E s a = Inr v" "ze_sub_assign E (za_balance v) x = Inr b"
  shows "\<exists>s'. sub_balance E a x s = (Inr (), s') \<and> account E s' a = Inr (v\<lparr>za_balance := b\<rparr>) \<and>
    (\<forall>c. c \<noteq> a \<longrightarrow> account E s' c = account E s c) \<and> a \<in> tc_dirty (zs_acc_cache s')"
proof -
  note pure = with_acc_pure [OF assms(1), of "\<lambda>(raw, acc, dirty, db).
       case ze_sub_assign E (za_balance acc) x of
         Inl e \<Rightarrow> (Inl e, (raw, acc, True, db))
       | Inr b \<Rightarrow> (Inr (), (raw, acc\<lparr>za_balance := b\<rparr>, True, db))" "()" "v\<lparr>za_balance := b\<rparr>" True]
  show ?thesis using pure assms(2) by (auto simp: sub_balance_def)
qed

lemma set_nonce_account:
  assumes "account E s a = Inr v"
  shows "\<exists>s'. set_nonce E a (ucast (n :: u64)) s = (Inr (), s') \<and> account E s' a = Inr (v\<lparr>za_nonce := n\<rparr>) \<and>
    (\<forall>c. c \<noteq> a \<longrightarrow> account E s' c = account E s c) \<and>
    tc_dirty (zs_acc_cache s') =
      (if za_nonce v \<noteq> n then insert a (tc_dirty (zs_acc_cache s)) else tc_dirty (zs_acc_cache s))"
proof -
  note pure = with_acc_pure [OF assms, of "\<lambda>(raw, acc, dirty, db).
       case as_u64 (ucast n) of
         Inl e \<Rightarrow> (Inl e, (raw, acc, dirty, db))
       | Inr n \<Rightarrow> (case zk_account_set_nonce n (acc, dirty) of (acc', dirty') \<Rightarrow> (Inr (), (raw, acc', dirty', db)))"
    "()" "v\<lparr>za_nonce := n\<rparr>" "za_nonce v \<noteq> n"]
  show ?thesis using pure by (cases "za_nonce v = n") (auto simp: set_nonce_def zk_account_set_nonce_def)
qed

text \<open>\<open>exist\<close> is true of the accounts that are equal to the default account.\<close>

lemma exist_account:
  assumes "account E s a = Inr v"
    and "zk_account_default (ze_hasher E) (ze_keccak E) = (Inr d :: (string, zk_state_account) result)"
  shows "fst (exist E a s) = Inr (v = d)"
  using assms by (simp add: exist_def with_acc_account run_ctx_def zk_account_is_exist_iff)

text \<open>A flush leaves the slots: whatever their caches hold, they stay dirty and unwritten.\<close>

lemma flush_storages: "zs_storages (snd (flush E s)) = zs_storages s"
  by (simp add: flush_def Let_def split: prod.split sum.split failure.split)

lemma flush_account_root:
  assumes "flush E s = (Inr root, s')" "finite (tc_dirty (zs_acc_cache s))"
  shows "root = smt_root_hash (tc_raw (zs_acc_cache s'))" "tc_cache (zs_acc_cache s') = tc_cache (zs_acc_cache s)"
    "tc_dirty (zs_acc_cache s') = {}"
proof -
  obtain r c db where f: "trie_cache_flush (env_trie E) (env_account E) sh160_bytes (zs_acc_cache s, zs_db s) = (r, (c, db))"
    by (metis prod.exhaust)
  have r: "r = Inr ()"
  proof (cases r)
    case (Inl e)
    then have "e = Panic" using f by (blast dest: linea_cached.flush_never_missing)
    then show ?thesis using assms(1) f Inl by (simp add: flush_def)
  qed simp
  have s': "s' = s\<lparr>zs_acc_cache := c, zs_db := db\<rparr>" "root = trie_cache_root_hash (env_trie E) c"
    using assms(1) f r by (auto simp: flush_def)
  have "tc_cache c = tc_cache (zs_acc_cache s)" "tc_dirty c = {}"
    using linea_cached.flush_ok [OF f [unfolded r] assms(2)] by auto
  then show "root = smt_root_hash (tc_raw (zs_acc_cache s'))" "tc_cache (zs_acc_cache s') = tc_cache (zs_acc_cache s)"
    "tc_dirty (zs_acc_cache s') = {}"
    using s' by (simp_all add: trie_cache_root_hash_def linea_trie_def linea_trie_root_hash_def zk_top_root_hash_def)
qed

section \<open>What the state database guarantees\<close>

text \<open>Adding to and subtracting from a balance. With an account that can be read, and a sum or a
  difference that the number library gives, the operation succeeds, the account of the address has
  the new balance and its other fields as before, no other account changes, the address is
  dirty, and no slot cache, trie or store changes.\<close>

theorem balance_change_is_local:
  assumes "account E s a = Inr v" and "op E (za_balance v) x = Inr b"
    and "(op, call) \<in> {(ze_add_assign, add_balance), (ze_sub_assign, sub_balance)}"
  shows "\<exists>s'. call E a x s = (Inr (), s') \<and>
    (\<forall>c. account E s' c = (if c = a then Inr (v\<lparr>za_balance := b\<rparr>) else account E s c)) \<and>
    tc_dirty (zs_acc_cache s') = insert a (tc_dirty (zs_acc_cache s)) \<and>
    zs_storages s' = zs_storages s \<and> tc_raw (zs_acc_cache s') = tc_raw (zs_acc_cache s) \<and> zs_db s' = zs_db s"
proof -
  note pure = with_acc_pure [OF assms(1), of "\<lambda>(raw, acc, dirty, db).
       case op E (za_balance acc) x of
         Inl e \<Rightarrow> (Inl e, (raw, acc, True, db))
       | Inr b \<Rightarrow> (Inr (), (raw, acc\<lparr>za_balance := b\<rparr>, True, db))" "()" "v\<lparr>za_balance := b\<rparr>" True]
  have "call E a x = with_acc E a (\<lambda>(raw, acc, dirty, db).
       case op E (za_balance acc) x of
         Inl e \<Rightarrow> (Inl e, (raw, acc, True, db))
       | Inr b \<Rightarrow> (Inr (), (raw, acc\<lparr>za_balance := b\<rparr>, True, db)))"
    using assms(3) by (auto simp: add_balance_def sub_balance_def)
  then show ?thesis using pure assms(2) by auto
qed

text \<open>The witness has one cached account, a store without nodes and numbers that panic on overflow.\<close>

definition small_env :: "unit zk_env" where
  "small_env = \<lparr>ze_hasher = mimc_sum mont_ff (\<lambda>_. 7), ze_keccak = (\<lambda>_. 7), ze_debug = (\<lambda>_. []), ze_rlp = rlp_short_strings,
     ze_add_assign = (\<lambda>a b. if unat a + unat b < 2 ^ 256 then Inr (a + b) else Inl Panic),
     ze_sub_assign = (\<lambda>a b. if b \<le> a then Inr (a - b) else Inl Panic), ze_db = silent_db\<rparr>"

definition small_account :: zk_state_account where
  "small_account = \<lparr>za_nonce = 3, za_balance = 40, za_root = 0, za_mimc_code_hash = 1, za_keccak_code_hash = 2, za_code_size = 0\<rparr>"

definition small_state :: "unit zk_trie_state" where
  "small_state = \<lparr>zs_db = (), zs_acc_cache = \<lparr>tc_raw = zk_new 0, tc_cache = [9 \<mapsto> small_account], tc_dirty = {}\<rparr>,
     zs_storages = [9 \<mapsto> \<lparr>tc_raw = zk_new 0, tc_cache = [1 \<mapsto> 2], tc_dirty = {1}\<rparr>]\<rparr>"

lemma small_account_read: "account small_env small_state 9 = Inr small_account"
  by (simp add: account_def current_value_def small_state_def)

theorem balance_change_is_local_witness:
  "\<exists>s'. sub_balance small_env 9 15 small_state = (Inr (), s') \<and>
     account small_env s' 9 = Inr (small_account\<lparr>za_balance := 25\<rparr>) \<and> tc_dirty (zs_acc_cache s') = {9}"
proof -
  have "ze_sub_assign small_env (za_balance small_account) 15 = Inr 25" by (simp add: small_env_def small_account_def)
  with balance_change_is_local [OF small_account_read, of ze_sub_assign 15 25 sub_balance] show ?thesis
    by (auto simp: small_state_def)
qed

text \<open>C30: a flush writes the accounts only. When it returns a root, this is the root of the account trie
  and no account is dirty; whether it returns or panics, the caches of the slots are what they were,
  dirty slots included, and so their values never reach a trie.\<close>

theorem flush_ignores_storage:
  assumes "finite (tc_dirty (zs_acc_cache s))"
  shows "case flush E s of (r, s') \<Rightarrow>
     zs_storages s' = zs_storages s \<and>
     (case r of
        Inl e \<Rightarrow> e = Panic
      | Inr root \<Rightarrow> root = smt_root_hash (tc_raw (zs_acc_cache s')) \<and> tc_dirty (zs_acc_cache s') = {} \<and>
          tc_cache (zs_acc_cache s') = tc_cache (zs_acc_cache s))"
proof -
  obtain r s' where f: "flush E s = (r, s')" by (metis prod.exhaust)
  have "e = Panic" if "r = Inl e" for e
    using f that by (auto simp: flush_def Let_def split: prod.splits sum.splits failure.splits)
  then show ?thesis
    using f flush_storages [of E s] flush_account_root [of E s _ s', OF _ assms] by (cases r) auto
qed

theorem flush_ignores_storage_witness:
  "\<exists>root s'. flush small_env small_state = (Inr root, s') \<and> tc_dirty (the (zs_storages s' 9)) = {1}"
proof -
  have "\<exists>root s'. flush small_env small_state = (Inr root, s')"
    by (simp add: flush_def trie_cache_flush_def small_state_def flush_updates_def linea_trie_def linea_trie_update_def
        sort_updates_def returnc_def)
  moreover have "finite (tc_dirty (zs_acc_cache small_state))" by (simp add: small_state_def)
  ultimately show ?thesis
    using flush_ignores_storage [of small_state small_env] by (auto simp: small_state_def)
qed

end
