(* ===== verification/Linea_Engine.thy ===== *)
theory Linea_Engine
  imports Mimc
begin

text \<open>
  The consensus engine \<open>Linea\<close> of \<open>src/common/linea/src/engine.rs\<close>: the hooks that the EVM
  library calls while a block is built. The header, the receipt and the block are its types; the
  RLP stream, the recovery of a public key, the bloom filter and the constructor of a block are
  parameters.
\<close>

section \<open>State\<close>

record linea =
  ln_chain_id :: su256

definition linea_new :: "su256 \<Rightarrow> linea" where
  "linea_new chain_id = \<lparr>ln_chain_id = chain_id\<rparr>"

datatype rlp_item = RlpHash sh256 | RlpAddress sh160 | RlpNum su256 | RlpBytes bytes

record block_header =
  bh_parent_hash :: sh256
  bh_sha3_uncles :: sh256
  bh_miner :: sh160
  bh_state_root :: sh256
  bh_transactions_root :: sh256
  bh_receipts_root :: sh256
  bh_logs_bloom :: bytes
  bh_difficulty :: su256
  bh_number :: u64
  bh_gas_limit :: su256
  bh_gas_used :: su256
  bh_timestamp :: su256
  bh_extra_data :: bytes
  bh_mix_hash :: sh256
  bh_nonce :: bytes
  bh_base_fee_per_gas :: su256

text \<open>The signer of transactions has the chain id and nothing else that the code reads.\<close>

record tx_signer =
  sg_chain_id :: su256

definition signer :: "linea \<Rightarrow> tx_signer" where
  "signer engine = \<lparr>sg_chain_id = ln_chain_id engine\<rparr>"

lemma signer_chain_id [simp]: "sg_chain_id (signer engine) = ln_chain_id engine"
  by (simp add: signer_def)

text \<open>A new header is the one given: the prover builds a block whose header it knows.\<close>

definition new_block_header :: "linea \<Rightarrow> block_header \<Rightarrow> block_header" where
  "new_block_header engine prev_header = prev_header"

section \<open>The author of a block\<close>

text \<open>\<open>extra_data.len() - 65\<close> wraps around when there are fewer bytes, and the slice then panics.\<close>

definition seal_hash :: "keccak \<Rightarrow> (rlp_item list \<Rightarrow> bytes) \<Rightarrow> block_header \<Rightarrow> ('e, sh256) result" where
  "seal_hash K rlp_list header =
     (let extra = bh_extra_data header in
      if length extra < 65 then Inl Panic
      else bind_result (slice_range extra 0 (length extra - 65)) (\<lambda>extra_data.
        Inr (K (rlp_list
          [RlpHash (bh_parent_hash header), RlpHash (bh_sha3_uncles header), RlpAddress (bh_miner header),
           RlpHash (bh_state_root header), RlpHash (bh_transactions_root header), RlpHash (bh_receipts_root header),
           RlpBytes (bh_logs_bloom header), RlpNum (bh_difficulty header), RlpNum (ucast (bh_number header)),
           RlpNum (bh_gas_limit header), RlpNum (bh_gas_used header), RlpNum (bh_timestamp header),
           RlpBytes extra_data, RlpHash (bh_mix_hash header), RlpBytes (bh_nonce header),
           RlpNum (bh_base_fee_per_gas header)]))))"

definition author ::
  "keccak \<Rightarrow> (rlp_item list \<Rightarrow> bytes) \<Rightarrow> (bytes \<Rightarrow> sh256 \<Rightarrow> 'p option) \<Rightarrow> ('p \<Rightarrow> sh160) \<Rightarrow> block_header \<Rightarrow>
   (string, sh160 option) result" where
  "author K rlp_list recover eth_accountid header =
     (let extra_data = bh_extra_data header in
      if length extra_data < 65 then Inl Panic
      else let sig_array = drop (length extra_data - 65) extra_data in
        bind_result (seal_hash K rlp_list header) (\<lambda>msg.
        bind_result (ok_or ''fail to ecrecover'' (recover sig_array msg)) (\<lambda>pub_key.
          Inr (Some (eth_accountid pub_key)))))"

section \<open>Transactions and receipts\<close>

text \<open>
  The context of a transaction: header, fee and difficulty; the other fields belong to the EVM.
\<close>

record tx_ctx =
  xc_header :: block_header
  xc_block_base_fee :: su256
  xc_difficulty :: su256

definition tx_context :: "linea \<Rightarrow> tx_ctx \<Rightarrow> tx_ctx" where
  "tx_context engine ctx =
     ctx\<lparr>xc_block_base_fee := bh_base_fee_per_gas (xc_header ctx), xc_difficulty := bh_difficulty (xc_header ctx)\<rparr>"

text \<open>
  Receipts: the log type and the bloom function are the library's. The sum of the gas wraps
  around.
\<close>

record 'l receipt =
  rc_status :: u64
  rc_transaction_hash :: sh256
  rc_transaction_index :: u64
  rc_type :: "u64 option"
  rc_gas_used :: u64
  rc_cumulative_gas_used :: u64
  rc_logs :: "'l list"
  rc_logs_bloom :: bytes
  rc_contract_address :: "sh160 option"
  rc_root :: "sh256 option"
  rc_block_hash :: "sh256 option"
  rc_block_number :: "u64 option"

record 'l execute_result =
  er_success :: bool
  er_used_gas :: u64
  er_logs :: "'l list"

definition build_receipt ::
  "('l receipt \<Rightarrow> bytes) \<Rightarrow> (sh256 \<Rightarrow> 'l \<Rightarrow> 'l) \<Rightarrow> u64 \<Rightarrow> 'l execute_result \<Rightarrow> nat \<Rightarrow> sh256 \<Rightarrow> u64 \<Rightarrow> 'l receipt" where
  "build_receipt create_bloom set_transaction_hash cumulative_gas_used result tx_idx tx_hash tx_ty =
     (let receipt = \<lparr>rc_status = of_bool (er_success result), rc_transaction_hash = tx_hash,
            rc_transaction_index = of_nat tx_idx, rc_type = Some tx_ty, rc_gas_used = er_used_gas result,
            rc_cumulative_gas_used = cumulative_gas_used + er_used_gas result,
            rc_logs = map (set_transaction_hash tx_hash) (er_logs result), rc_logs_bloom = [],
            rc_contract_address = None, rc_root = None, rc_block_hash = None, rc_block_number = None\<rparr>
      in receipt\<lparr>rc_logs_bloom := create_bloom receipt\<rparr>)"

text \<open>The rules that blocks are run with are those of fixed forks; what they are is the EVM library's.\<close>

record ('c, 'p) evm_lib =
  el_config_london :: 'c
  el_precompile_berlin :: 'p

definition evm_config :: "('c, 'p) evm_lib \<Rightarrow> linea \<Rightarrow> 'c" where
  "evm_config L engine = el_config_london L"

definition precompile :: "('c, 'p) evm_lib \<Rightarrow> linea \<Rightarrow> 'p" where
  "precompile L engine = el_precompile_berlin L"

text \<open>Withdrawals are ignored; a block is finalized without a look at the state database.\<close>

definition process_withdrawals :: "linea \<Rightarrow> 'w list \<Rightarrow> ('d, 'e, unit) comp" where
  "process_withdrawals engine withdrawals = returnc ()"

definition finalize_block ::
  "('h \<Rightarrow> 't list \<Rightarrow> 'r list \<Rightarrow> 'w list option \<Rightarrow> 'k) \<Rightarrow> linea \<Rightarrow> 'h \<Rightarrow> 't list \<Rightarrow> 'r list \<Rightarrow> 'w list option \<Rightarrow>
   ('d, string, 'k) comp" where
  "finalize_block block_new engine header txs receipts withdrawals =
     returnc (block_new header txs receipts withdrawals)"

section \<open>Properties\<close>

lemma seal_hash_ok:
  "length sig = 65 \<Longrightarrow> seal_hash K rlp_list (header\<lparr>bh_extra_data := extra @ sig\<rparr>) =
     seal_hash K rlp_list (header\<lparr>bh_extra_data := extra @ replicate 65 0\<rparr>)"
  by (simp add: seal_hash_def Let_def slice_range_def)

text \<open>C27: sealing. When a header's extra data ends with a signature of the hash that the header has with
  any 65 bytes in that place, its author is the account of the signing key, for every
  signature scheme whose recovery inverts signing and whose signatures have 65 bytes. Shorter
  extra data panics.\<close>

theorem author_signed_header:
  assumes "\<forall>k m. length (sign k m) = 65" "\<forall>k m. recover (sign k m) m = Some (public k)"
    and "seal_hash K rlp_list (header\<lparr>bh_extra_data := extra @ place\<rparr>) = (Inr msg :: (string, sh256) result)"
    and "length place = 65"
  shows "author K rlp_list recover account (header\<lparr>bh_extra_data := extra @ sign key msg\<rparr>) = Inr (Some (account (public key))) \<and>
    (\<forall>short. length short < 65 \<longrightarrow> author K rlp_list recover account (header\<lparr>bh_extra_data := short\<rparr>) = Inl Panic)"
proof -
  have "seal_hash K rlp_list (header\<lparr>bh_extra_data := extra @ sign key msg\<rparr>) = (Inr msg :: (string, sh256) result)"
    using assms seal_hash_ok [where sig = "sign key msg" and extra = extra and header = header]
      seal_hash_ok [where sig = place and extra = extra and header = header] by metis
  then show ?thesis
    using assms(1,2) by (simp add: author_def Let_def)
qed

definition sample_header :: block_header where
  "sample_header = \<lparr>bh_parent_hash = 1, bh_sha3_uncles = 2, bh_miner = 3, bh_state_root = 4, bh_transactions_root = 5,
     bh_receipts_root = 6, bh_logs_bloom = [], bh_difficulty = 2, bh_number = 9, bh_gas_limit = 100, bh_gas_used = 10,
     bh_timestamp = 1000, bh_extra_data = [1, 2, 3], bh_mix_hash = 0, bh_nonce = [], bh_base_fee_per_gas = 7\<rparr>"

theorem author_signed_header_witness:
  "author (\<lambda>bs. word_of_bytes bs) (\<lambda>items. [of_nat (length items)]) (\<lambda>sig m. Some (hd sig)) ucast
     (sample_header\<lparr>bh_extra_data := [1, 2, 3] @ replicate 65 42\<rparr>) = Inr (Some 42)"
proof -
  have "seal_hash (\<lambda>bs. word_of_bytes bs) (\<lambda>items. [of_nat (length items)])
      (sample_header\<lparr>bh_extra_data := [1, 2, 3] @ replicate 65 7\<rparr>) = (Inr (word_of_bytes [16]) :: (string, sh256) result)"
    by (simp add: seal_hash_def Let_def slice_range_def)
  from author_signed_header [where sign = "\<lambda>k m. replicate 65 k" and recover = "\<lambda>sig m. Some (hd sig)" and public = "\<lambda>k. k"
      and key = 42 and account = ucast, OF _ _ this]
  show ?thesis by simp
qed

end
