(* ===== verification/Block_Executor.thy ===== *)
theory Block_Executor
  imports Zk_State Linea_Engine
begin

text \<open>
  Running a block: \<open>src/common/linea/src/block_executor.rs\<close>. The EVM's block builder, the Merkle
  Patricia trie, the transaction type and the RPC client are libraries: they are the fields of
  the records below. What is modelled is what the code does around them: block hash lookups,
  transaction preprocessing, the order of the calls, retries and error returns.
\<close>

record block_executor =
  be_engine :: linea

definition block_executor_new :: "su256 \<Rightarrow> block_executor" where
  "block_executor_new chain_id = \<lparr>be_engine = linea_new chain_id\<rparr>"

section \<open>Block hashes\<close>

text \<open>\<open>current.saturating_sub(256)\<close>\<close>

definition saturating_sub :: "u64 \<Rightarrow> u64 \<Rightarrow> u64" where
  "saturating_sub a b = (if a < b then 0 else a - b)"

type_synonym block_hash_cache = "u64 \<rightharpoonup> sh256"

definition block_hash_cache_new :: "(u64 \<rightharpoonup> sh256) \<Rightarrow> block_hash_cache" where
  [simp]: "block_hash_cache_new cache = cache"

definition block_hash_cache_get_hash :: "block_hash_cache \<Rightarrow> u64 \<Rightarrow> u64 \<Rightarrow> sh256" where
  "block_hash_cache_get_hash cache current target =
     (if target \<ge> current \<or> target < saturating_sub current 256 then 0
      else case cache target of Some h \<Rightarrow> h | None \<Rightarrow> 0)"

text \<open>
  The fetcher asks the client for a header it does not know and remembers its hash; a client
  error gives the zero hash and is not remembered. The client is \<open>get_block_header\<close> followed by
  \<open>hash\<close>.
\<close>

definition builder_fetcher_get_hash ::
  "(u64 \<Rightarrow> ('e, sh256) result) \<Rightarrow> u64 \<Rightarrow> u64 \<Rightarrow> block_hash_cache \<Rightarrow> sh256 \<times> block_hash_cache" where
  "builder_fetcher_get_hash header_hash current target cache =
     (if target \<ge> current \<or> target < saturating_sub current 256 then (0, cache)
      else case cache target of
        Some h \<Rightarrow> (h, cache)
      | None \<Rightarrow> (case header_hash target of
            Inr h \<Rightarrow> (h, cache(target \<mapsto> h))
          | Inl _ \<Rightarrow> (0, cache)))"

record 'c builder_fetcher =
  bf_client :: 'c
  bf_cache :: block_hash_cache

definition builder_fetcher_new :: "'c \<Rightarrow> 'c builder_fetcher" where
  "builder_fetcher_new client = \<lparr>bf_client = client, bf_cache = Map.empty\<rparr>"

section \<open>Retries\<close>

text \<open>
  \<open>f\<close> may have effects; the state also has the milliseconds slept. The loop counter is \<open>i\<close>, \<open>n\<close>
  the rounds left. No round at all panics on the missing error.
\<close>

fun retry_loop :: "nat \<Rightarrow> nat \<Rightarrow> 'e option \<Rightarrow> ('s, 'e, 'a) comp \<Rightarrow> ('s \<times> nat list, 'e, 'a) comp" where
  "retry_loop i 0 error f s = (case error of Some e \<Rightarrow> (Inl (Fail e), s) | None \<Rightarrow> (Inl Panic, s))"
| "retry_loop i (Suc n) error f (s, slept) =
     (case f s of
        (Inr x, s') \<Rightarrow> (Inr x, (s', slept))
      | (Inl (Fail e), s') \<Rightarrow> retry_loop (Suc i) n (Some e) f (s', slept @ [(i + 1) * 300])
      | (Inl Panic, s') \<Rightarrow> (Inl Panic, (s', slept)))"

definition retry :: "nat \<Rightarrow> ('s, 'e, 'a) comp \<Rightarrow> ('s \<times> nat list, 'e, 'a) comp" where
  "retry n f = retry_loop 0 n None f"

section \<open>Transactions\<close>

text \<open>
  A transaction is what the library gives; the code reads its type and its \<open>v\<close>, may replace
  \<open>v\<close>, and asks for the inner transaction. The subtraction is on \<open>u64\<close> and wraps around.
\<close>

record 't transaction =
  tx_type :: u64
  tx_v :: u64
  tx_rest :: 't

definition fix_v :: "u64 \<Rightarrow> 't transaction \<Rightarrow> 't transaction" where
  "fix_v chain_id tx =
     (if tx_type tx > 0 then
        if tx_v tx > 1 then tx\<lparr>tx_v := tx_v tx - chain_id * 2 - 8 - 27\<rparr> else tx
      else tx)"

fun preprocess_txs_loop ::
  "('t transaction \<Rightarrow> 'i option) \<Rightarrow> u64 \<Rightarrow> 't transaction list \<Rightarrow> 'i list \<Rightarrow> (string, 'i list) result" where
  "preprocess_txs_loop inner chain_id [] out = Inr out"
| "preprocess_txs_loop inner chain_id (tx # txs) out =
     (case inner (fix_v chain_id tx) of
        Some tx \<Rightarrow> preprocess_txs_loop inner chain_id txs (out @ [tx])
      | None \<Rightarrow> Inl (Fail ''invalid transaction''))"

definition preprocess_txs ::
  "('t transaction \<Rightarrow> 'i option) \<Rightarrow> linea \<Rightarrow> 't transaction list \<Rightarrow> (string, 'i list) result" where
  "preprocess_txs inner engine txs =
     bind_result (as_u64 (sg_chain_id (signer engine))) (\<lambda>chain_id. preprocess_txs_loop inner chain_id txs [])"

section \<open>Execution\<close>

text \<open>
  The builder of the EVM library over a state database \<open>'d\<close>: it is made from the database, the
  block hash cache and the header, commits transactions one by one and flushes or finalizes.
\<close>

record ('d, 'b, 'h, 'i, 'w, 'k) block_builder =
  bb_new :: "linea \<Rightarrow> 'd \<Rightarrow> block_hash_cache \<Rightarrow> 'h \<Rightarrow> (string, 'b) result"
  bb_commit :: "'i \<Rightarrow> ('b, string, unit) comp"
  bb_flush_state :: "('b, string, sh256) comp"
  bb_withdrawal :: "'w list \<Rightarrow> ('b, string, unit) comp"
  bb_finalize :: "('b, string, 'k) comp"

record ('h, 't, 'w) raw_block =
  rb_header :: 'h
  rb_transactions :: "'t transaction list"
  rb_withdrawals :: "'w list option"

fun commit_all :: "('i \<Rightarrow> ('b, string, unit) comp) \<Rightarrow> 'i list \<Rightarrow> ('b, string, unit) comp" where
  "commit_all commit [] = returnc ()"
| "commit_all commit (tx # txs) = bindc (unwrapc (commit tx)) (\<lambda>_. commit_all commit txs)"

text \<open>\<open>execute_v2\<close>: a failing commit panics, a failing flush is an error.\<close>

definition execute_v2 ::
  "hasher \<Rightarrow> ('s zk_trie_state, 'b, 'h, 'i, 'w, 'k) block_builder \<Rightarrow> ('t transaction \<Rightarrow> 'i option) \<Rightarrow> linea \<Rightarrow>
   's \<Rightarrow> trace list \<Rightarrow> ('h, 't, 'w) raw_block \<Rightarrow> (string, unit) result" where
  "execute_v2 H B inner engine db traces block =
     bind_result (index traces 0) (\<lambda>t.
     bind_result (trace_old_top_hash H t) (\<lambda>root.
     bind_result (new_from_trace H db t) (\<lambda>statedb.
     bind_result (bb_new B engine statedb Map.empty (rb_header block)) (\<lambda>builder.
     bind_result (preprocess_txs inner engine (rb_transactions block)) (\<lambda>txs.
       fst (bindc (commit_all (bb_commit B) txs) (\<lambda>_.
            bindc (bb_flush_state B) (\<lambda>root_hash. returnc ())) builder))))))"

text \<open>
  \<open>execute\<close>: the state database is the Merkle Patricia trie over the nodes and codes of the
  proof of block (\<open>pob\<close>); building it from the previous state root is the library's.
\<close>

record ('h, 't, 'w, 'n) pob =
  pob_block :: "('h, 't, 'w) raw_block"
  pob_chain_id :: u64
  pob_prev_state_root :: sh256
  pob_block_hashes :: block_hash_cache
  pob_mpt_nodes :: "'n list"
  pob_codes :: "bytes list"

record ('m, 'n) node_resume =
  nr_resume_node :: "'n \<Rightarrow> 'm \<Rightarrow> 'm"
  nr_resume_code :: "bytes \<Rightarrow> 'm \<Rightarrow> 'm"
  nr_commit :: "'m \<Rightarrow> 'm"
  nr_fork :: "'m \<Rightarrow> 'm"

definition resume_db :: "('m, 'n) node_resume \<Rightarrow> ('h, 't, 'w, 'n) pob \<Rightarrow> 'm \<Rightarrow> 'm" where
  "resume_db R pob db =
     nr_commit R (fold (nr_resume_code R) (pob_codes pob) (fold (nr_resume_node R) (pob_mpt_nodes pob) db))"

definition execute ::
  "('m, 'n) node_resume \<Rightarrow> (sh256 \<Rightarrow> 'm \<Rightarrow> 'd) \<Rightarrow> ('d, 'b, 'h, 'i, 'w, 'k) block_builder \<Rightarrow>
   ('t transaction \<Rightarrow> 'i option) \<Rightarrow> (u64 \<Rightarrow> su256 \<Rightarrow> string) \<Rightarrow> ('h \<Rightarrow> su256) \<Rightarrow> linea \<Rightarrow> 'm \<Rightarrow> ('h, 't, 'w, 'n) pob \<Rightarrow>
   (string, 'k) result" where
  "execute R trie_state B inner mismatch header_number engine db pob =
     bind_result (as_u64 (sg_chain_id (signer engine))) (\<lambda>chain_id.
     if pob_chain_id pob \<noteq> chain_id then Inl (Fail (mismatch (pob_chain_id pob) (sg_chain_id (signer engine))))
     else
       let db = resume_db R pob (nr_fork R db); block = pob_block pob in
       bind_result (as_u64 (header_number (rb_header block))) (\<lambda>number.
       let statedb = trie_state (pob_prev_state_root pob) db in
       bind_result (bb_new B engine statedb (pob_block_hashes pob) (rb_header block)) (\<lambda>builder.
       bind_result (preprocess_txs inner engine (rb_transactions block)) (\<lambda>txs.
         fst (bindc (commit_all (bb_commit B) txs) (\<lambda>_.
              bindc (case rb_withdrawals block of
                       Some w \<Rightarrow> unwrapc (bb_withdrawal B w)
                     | None \<Rightarrow> returnc ()) (\<lambda>_.
                unwrapc (bb_finalize B))) builder)))))"

section \<open>Block hashes: properties\<close>

lemma saturating_sub_unat: "unat (saturating_sub a b) = unat a - unat b"
  by (auto simp: saturating_sub_def word_less_nat_alt unat_sub word_le_nat_alt)

text \<open>Only the 256 blocks before the current one have a hash.\<close>

lemma block_hash_window:
  "block_hash_cache_get_hash cache current target =
     (if unat target < unat current \<and> unat current \<le> unat target + 256
      then case cache target of Some h \<Rightarrow> h | None \<Rightarrow> 0 else 0)"
  by (auto simp: block_hash_cache_get_hash_def word_less_nat_alt word_le_nat_alt saturating_sub_unat)

text \<open>
  A fetcher whose cache agrees with the client keeps agreeing with it, answers the client's hash
  within the window, and never forgets.
\<close>

definition cache_agrees :: "(u64 \<Rightarrow> ('e, sh256) result) \<Rightarrow> block_hash_cache \<Rightarrow> bool" where
  "cache_agrees header_hash cache \<longleftrightarrow> (\<forall>n h. cache n = Some h \<longrightarrow> header_hash n = Inr h)"

lemma builder_fetcher_agrees:
  assumes "cache_agrees header_hash cache" "builder_fetcher_get_hash header_hash current target cache = (h, cache')"
  shows "cache_agrees header_hash cache'" "cache \<subseteq>\<^sub>m cache'"
    "h = (if unat target < unat current \<and> unat current \<le> unat target + 256
          then case header_hash target of Inr x \<Rightarrow> x | Inl _ \<Rightarrow> 0 else 0)"
  using assms
  by (auto simp: builder_fetcher_get_hash_def cache_agrees_def word_less_nat_alt word_le_nat_alt saturating_sub_unat
      map_le_def split: if_splits option.splits sum.splits)

text \<open>What was fetched while generating the proof is what the executor answers from the proof.\<close>

lemma fetched_hash_replays:
  assumes "cache_agrees header_hash cache" "builder_fetcher_get_hash header_hash current target cache = (h, cache')"
  shows "block_hash_cache_get_hash cache' current target = h"
  using assms
  by (auto simp: builder_fetcher_get_hash_def block_hash_cache_get_hash_def split: if_splits option.splits sum.splits)

section \<open>Retries: properties\<close>

text \<open>The outcomes of consecutive calls, from the states they leave.\<close>

fun outcomes :: "nat \<Rightarrow> ('s, 'e, 'a) comp \<Rightarrow> 's \<Rightarrow> ('e, 'a) result list" where
  "outcomes 0 f s = []"
| "outcomes (Suc n) f s = (case f s of (r, s') \<Rightarrow> r # outcomes n f s')"

fun is_fail :: "('e, 'a) result \<Rightarrow> bool" where
  "is_fail (Inl (Fail e)) = True"
| "is_fail _ = False"

lemma retry_loop_outcome:
  "fst (retry_loop i n error f (s, slept)) =
     (case dropWhile is_fail (outcomes n f s) of
        r # _ \<Rightarrow> r
      | [] \<Rightarrow> last ((case error of Some e \<Rightarrow> Inl (Fail e) | None \<Rightarrow> Inl Panic) # outcomes n f s))"
proof (induction n arbitrary: i error s slept)
  case (Suc n)
  obtain r s' where f: "f s = (r, s')" by fastforce
  show ?case
  proof (cases r)
    case (Inr x)
    then show ?thesis using f by simp
  next
    case (Inl e)
    note IH = Suc [of "Suc i" _ s' "slept @ [(i + 1) * 300]"]
    show ?thesis
    proof (cases "dropWhile is_fail (outcomes n f s')")
      case Nil
      show ?thesis using f Inl IH by (cases e) (simp_all add: Nil)
    next
      case (Cons q qs)
      show ?thesis using f Inl IH by (cases e) (simp_all add: Cons)
    qed
  qed
qed (simp split: option.split)

lemma retry_loop_sleeps:
  "snd (snd (retry_loop i n error f (s, slept))) =
     slept @ map (\<lambda>k. (i + k + 1) * 300) [0..<length (takeWhile is_fail (outcomes n f s))]"
proof (induction n arbitrary: i error s slept)
  case 0
  then show ?case by (simp split: option.split)
next
  case (Suc n)
  obtain r s' where f: "f s = (r, s')" by fastforce
  have shift: "map (\<lambda>k. (i + k + 1) * 300) [0..<Suc m] = (i + 1) * 300 # map (\<lambda>k. (Suc i + k + 1) * 300) [0..<m]" for m
    by (simp add: upt_conv_Cons map_Suc_upt [symmetric] o_def del: upt_Suc)
  show ?case
  proof (cases "is_fail r")
    case True
    then obtain e where "r = Inl (Fail e)" by (cases r rule: is_fail.cases) auto
    then show ?thesis using f Suc [of "Suc i" "Some e" s' "slept @ [(i + 1) * 300]"] shift by simp
  next
    case False
    then show ?thesis using f by (cases r rule: is_fail.cases) auto
  qed
qed

section \<open>Transactions: properties\<close>

lemma preprocess_txs_loop_ok:
  "preprocess_txs_loop inner c txs out =
     (if \<forall>tx\<in>set txs. inner (fix_v c tx) \<noteq> None
      then Inr (out @ map (\<lambda>tx. the (inner (fix_v c tx))) txs) else Inl (Fail ''invalid transaction''))"
  by (induction txs arbitrary: out) (auto split: option.split)

text \<open>The replaced \<open>v\<close> of a typed transaction in the old encoding is its parity.\<close>

lemma fix_v_legacy:
  assumes "tx_type tx > 0" "tx_v tx = chain_id * 2 + 35 + y" "tx_v tx > 1"
  shows "tx_v (fix_v chain_id tx) = y"
  using assms by (simp add: fix_v_def)

section \<open>What the executor guarantees\<close>

text \<open>C31: block hashes. A cache that agrees with the client keeps agreeing and forgets nothing; the
  answer is the client's hash within the 256 blocks before the current one and zero elsewhere, also
  when the client fails; and the executor, which has the cache only, answers the same.\<close>

theorem fetched_hashes_replay:
  assumes "cache_agrees header_hash cache"
  shows "case builder_fetcher_get_hash header_hash current target cache of (h, cache') \<Rightarrow>
    cache_agrees header_hash cache' \<and> cache \<subseteq>\<^sub>m cache' \<and>
    h = (if unat target < unat current \<and> unat current \<le> unat target + 256
         then case header_hash target of Inr x \<Rightarrow> x | Inl _ \<Rightarrow> 0 else 0) \<and>
    block_hash_cache_get_hash cache' current target = h"
proof -
  obtain h cache' where r: "builder_fetcher_get_hash header_hash current target cache = (h, cache')"
    by (metis prod.exhaust)
  show ?thesis
    using builder_fetcher_agrees [OF assms r] fetched_hash_replays [OF assms r] by (simp add: r)
qed

theorem fetched_hashes_replay_witness:
  "case builder_fetcher_get_hash (\<lambda>n. if n = 3 then Inl (Fail ()) else Inr (ucast n + 100)) 300 44 Map.empty of (h, cache') \<Rightarrow>
     h = 144 \<and> block_hash_cache_get_hash cache' 300 44 = 144"
proof -
  have "cache_agrees (\<lambda>n. if n = 3 then Inl (Fail ()) else Inr (ucast n + 100)) Map.empty" by (simp add: cache_agrees_def)
  from fetched_hashes_replay [OF this, where current = 300 and target = 44] show ?thesis by auto
qed

text \<open>C32: \<open>retry\<close> returns the first outcome of its calls that is not an error, a panic included, or the
  last error when all calls fail; with no call at all it panics. Before each call but the first it
  sleeps 300 milliseconds more than before the last, and also after a last failing call.\<close>

theorem retry_first_success:
  "fst (retry n f (s, [])) =
     (case dropWhile is_fail (outcomes n f s) of r # _ \<Rightarrow> r | [] \<Rightarrow> last (Inl Panic # outcomes n f s)) \<and>
   snd (snd (retry n f (s, []))) = map (\<lambda>k. (k + 1) * 300) [0..<length (takeWhile is_fail (outcomes n f s))]"
  by (simp add: retry_def retry_loop_outcome retry_loop_sleeps cong: list.case_cong)

text \<open>Preprocessing gives the inner transactions of the block in order, each with its \<open>v\<close> replaced, or
  fails as a whole when one has no inner transaction; a chain id beyond 64 bits panics.\<close>

theorem preprocess_all_or_nothing:
  "preprocess_txs inner engine txs =
     (let fixed = map (\<lambda>tx. inner (fix_v (ucast (ln_chain_id engine)) tx)) txs in
      if 2 ^ 64 \<le> unat (ln_chain_id engine) then Inl Panic
      else if None \<in> set fixed then Inl (Fail ''invalid transaction'')
      else Inr (map the fixed))"
  by (auto simp: preprocess_txs_def as_u64_def preprocess_txs_loop_ok Let_def o_def image_iff not_le not_less)

text \<open>The \<open>v\<close> of a typed transaction. When it is in the encoding of EIP-155 it becomes the parity, for
  every chain id, wrap-around included; when it is 0 or 1, or the transaction has no type, it stays.\<close>

theorem fixed_v_is_parity:
  assumes "tx_v tx = (if tx_type tx > 0 \<and> legacy then chain_id * 2 + 35 + y else y)"
    and "tx_v tx > 1 \<longleftrightarrow> tx_type tx > 0 \<and> legacy"
  shows "fix_v chain_id tx = tx\<lparr>tx_v := y\<rparr>"
  using assms by (cases tx) (auto simp: fix_v_def not_less split: if_splits)

theorem fixed_v_is_parity_witness:
  "fix_v 59144 \<lparr>tx_type = 2, tx_v = 118324, tx_rest = ()\<rparr> = \<lparr>tx_type = 2, tx_v = 1, tx_rest = ()\<rparr>"
  using fixed_v_is_parity [of "\<lparr>tx_type = 2, tx_v = 118324, tx_rest = ()\<rparr>" True 59144 1] by simp

text \<open>C33: a block that \<open>execute\<close> returns comes from a proof of block for the engine's own chain. It is
  what the builder finalizes after it has committed all preprocessed transactions of the block, in
  order, and then the withdrawals, over the database resumed from the proof.\<close>

theorem executed_block:
  assumes "execute R trie_state B inner mismatch header_number engine db pob = Inr blk"
  shows "\<exists>builder txs b1 b2 b3. ucast (pob_chain_id pob) = ln_chain_id engine \<and>
    bb_new B engine (trie_state (pob_prev_state_root pob) (resume_db R pob (nr_fork R db))) (pob_block_hashes pob)
      (rb_header (pob_block pob)) = Inr builder \<and>
    preprocess_txs inner engine (rb_transactions (pob_block pob)) = Inr txs \<and>
    commit_all (bb_commit B) txs builder = (Inr (), b1) \<and>
    (case rb_withdrawals (pob_block pob) of Some w \<Rightarrow> bb_withdrawal B w b1 = (Inr (), b2) | None \<Rightarrow> b2 = b1) \<and>
    bb_finalize B b2 = (Inr blk, b3)"
proof -
  have unw: "unwrapc c s = (Inr x, s') \<longleftrightarrow> c s = (Inr x, s')" for c :: "('q, string, 'z) comp" and s x s'
    by (cases "c s") (auto simp: unwrapc_def)
  obtain chain_id where chain: "as_u64 (sg_chain_id (signer engine)) = (Inr chain_id :: (string, u64) result)" "pob_chain_id pob = chain_id"
    using assms by (auto simp: execute_def bind_result_ok_iff split: if_splits)
  then have id: "ucast (pob_chain_id pob) = ln_chain_id engine"
    by (auto simp: as_u64_def word_unat_eq_iff unsigned_ucast_eq take_bit_nat_eq_self split: if_splits)
  obtain builder txs where b: "bb_new B engine (trie_state (pob_prev_state_root pob) (resume_db R pob (nr_fork R db)))
      (pob_block_hashes pob) (rb_header (pob_block pob)) = Inr builder"
    "preprocess_txs inner engine (rb_transactions (pob_block pob)) = Inr txs"
    "fst (bindc (commit_all (bb_commit B) txs) (\<lambda>_.
          bindc (case rb_withdrawals (pob_block pob) of Some w \<Rightarrow> unwrapc (bb_withdrawal B w) | None \<Rightarrow> returnc ()) (\<lambda>_.
            unwrapc (bb_finalize B))) builder) = Inr blk"
    using assms chain by (auto simp: execute_def Let_def bind_result_ok_iff)
  obtain b3 where "bindc (commit_all (bb_commit B) txs) (\<lambda>_.
          bindc (case rb_withdrawals (pob_block pob) of Some w \<Rightarrow> unwrapc (bb_withdrawal B w) | None \<Rightarrow> returnc ()) (\<lambda>_.
            unwrapc (bb_finalize B))) builder = (Inr blk, b3)"
    using b(3) by (metis prod.collapse)
  then have "\<exists>b1 b2. commit_all (bb_commit B) txs builder = (Inr (), b1) \<and>
    (case rb_withdrawals (pob_block pob) of Some w \<Rightarrow> unwrapc (bb_withdrawal B w) | None \<Rightarrow> returnc ()) b1 = (Inr () :: (string, unit) result, b2) \<and>
    bb_finalize B b2 = (Inr blk, b3)"
    by (simp add: bindc_ok_iff unw)
  then obtain b1 b2 where "commit_all (bb_commit B) txs builder = (Inr (), b1)"
    "(case rb_withdrawals (pob_block pob) of Some w \<Rightarrow> unwrapc (bb_withdrawal B w) | None \<Rightarrow> returnc ()) b1 = (Inr () :: (string, unit) result, b2)"
    "bb_finalize B b2 = (Inr blk, b3)" by (elim exE conjE) (rule that)
  moreover from this(2) have "case rb_withdrawals (pob_block pob) of Some w \<Rightarrow> bb_withdrawal B w b1 = (Inr (), b2) | None \<Rightarrow> b2 = b1"
    by (cases "rb_withdrawals (pob_block pob)") (auto simp: unw returnc_def)
  ultimately show ?thesis using id b(1,2) by blast
qed

text \<open>The builder of the witness counts what it commits.\<close>

definition counting_builder :: "(nat, nat, unit, nat, unit, nat) block_builder" where
  "counting_builder = \<lparr>bb_new = (\<lambda>_ d _ _. Inr d), bb_commit = (\<lambda>n b. (Inr (), b + n)), bb_flush_state = (\<lambda>b. (Inr 0, b)),
     bb_withdrawal = (\<lambda>ws b. (Inr (), b + 1000 * length ws)), bb_finalize = (\<lambda>b. (Inr b, b))\<rparr>"

theorem executed_block_witness:
  "let R = \<lparr>nr_resume_node = (\<lambda>n d. d + n), nr_resume_code = (\<lambda>c d. d + length c), nr_commit = id, nr_fork = id\<rparr>;
       pob = \<lparr>pob_block = \<lparr>rb_header = (), rb_transactions = [\<lparr>tx_type = 0, tx_v = 27, tx_rest = 10\<rparr>, \<lparr>tx_type = 0, tx_v = 28, tx_rest = 20\<rparr>],
                rb_withdrawals = Some [()]\<rparr>,
              pob_chain_id = 59144, pob_prev_state_root = 3, pob_block_hashes = Map.empty, pob_mpt_nodes = [100 :: nat], pob_codes = []\<rparr>
   in execute R (\<lambda>_ d. d) counting_builder (\<lambda>tx. Some (tx_rest tx)) (\<lambda>_ _. []) (\<lambda>_. 7) (linea_new 59144) 10000 pob = Inr 11130 \<and>
      ucast (pob_chain_id pob) = ln_chain_id (linea_new 59144)"
proof -
  let ?R = "\<lparr>nr_resume_node = (\<lambda>n d. d + n), nr_resume_code = (\<lambda>c d. d + length c), nr_commit = id, nr_fork = id\<rparr>"
  let ?pob = "\<lparr>pob_block = \<lparr>rb_header = (), rb_transactions = [\<lparr>tx_type = 0, tx_v = 27, tx_rest = 10\<rparr>, \<lparr>tx_type = 0, tx_v = 28, tx_rest = 20\<rparr>],
                rb_withdrawals = Some [()]\<rparr>,
              pob_chain_id = 59144, pob_prev_state_root = 3, pob_block_hashes = Map.empty, pob_mpt_nodes = [100 :: nat], pob_codes = []\<rparr>"
  have "execute ?R (\<lambda>_ d. d) counting_builder (\<lambda>tx. Some (tx_rest tx)) (\<lambda>_ _. []) (\<lambda>_. 7) (linea_new 59144) 10000 ?pob = Inr 11130"
    by (simp add: execute_def as_u64_def linea_new_def resume_db_def counting_builder_def preprocess_txs_def fix_v_def
        bindc_def unwrapc_def returnc_def)
  from this executed_block [OF this] show ?thesis by auto
qed

end
