(* ===== verification/Shomei_Client.thy ===== *)
theory Shomei_Client
  imports Zk_Trace "HOL-Library.List_Lexorder"
begin

text \<open>
  The client of the state manager: \<open>src/common/shomei/src/client.rs\<close>. The JSON-RPC client is a
  library: a call is a function of the method's parameters. Byte strings are ordered
  lexicographically.
\<close>

section \<open>Data\<close>

record shomei_config =
  sh_endpoint :: string
  sh_version :: string

record node_proof =
  pf_value :: "bytes option"
  pf_proof_related_nodes :: "bytes list"

record merkle_proof =
  mp_key :: bytes
  mp_leaf_index :: "u64 option"
  mp_proof :: "node_proof option"
  mp_left_proof :: "node_proof option"
  mp_right_proof :: "node_proof option"
  mp_left_leaf_index :: "u64 option"
  mp_right_leaf_index :: "u64 option"

record merkle_account_proof =
  ma_account_proof :: merkle_proof
  ma_storage_proofs :: "merkle_proof list"

record state_merkle_proof_req =
  sr_start_block_number :: su256
  sr_end_block_number :: su256
  sr_zk_state_manager_version :: string

record state_merkle_proof_resp =
  sp_zk_parent_state_root_hash :: sh256
  sp_zk_state_merkle_proof :: "trace list list"
  sp_zk_state_manager_version :: string
  sp_zk_end_state_root_hash :: sh256

definition inclusion :: "merkle_proof \<Rightarrow> (u64 \<times> node_proof) option" where
  "inclusion p =
     (case mp_proof p of
        None \<Rightarrow> None
      | Some pf \<Rightarrow> (case mp_leaf_index p of None \<Rightarrow> None | Some leaf_index \<Rightarrow> Some (leaf_index, pf)))"

text \<open>The client is a connection \<open>'c\<close> to the endpoint and the version that requests carry.\<close>

record 'c shomei =
  sm_client :: 'c
  sm_version :: string

definition shomei_new :: "(string \<Rightarrow> (string, 'c) result) \<Rightarrow> shomei_config \<Rightarrow> ('e, 'c shomei) result" where
  "shomei_new connect cfg =
     bind_result (unwrap (connect (sh_endpoint cfg))) (\<lambda>conn. Inr \<lparr>sm_client = conn, sm_version = sh_version cfg\<rparr>)"

section \<open>Requests\<close>

text \<open>
  An account access has no location and its key is the account; a storage access has the
  account as location. Grouped, every account comes once, with the set of its storage keys.
\<close>

definition group_trace :: "trace \<Rightarrow> (bytes \<rightharpoonup> bytes set) \<Rightarrow> (bytes \<rightharpoonup> bytes set)" where
  "group_trace t acc_list =
     (let location = trace_location t; key = trace_key t;
          entry = (\<lambda>k. case acc_list k of Some ks \<Rightarrow> ks | None \<Rightarrow> {})
      in if length location = 0 then acc_list(key \<mapsto> entry key)
         else acc_list(location \<mapsto> insert key (entry location)))"

definition group_traces :: "trace list \<Rightarrow> (bytes \<rightharpoonup> bytes set)" where
  "group_traces traces = fold group_trace traces Map.empty"

definition proof_requests :: "trace list \<Rightarrow> (bytes \<times> bytes list) list" where
  "proof_requests traces =
     map (\<lambda>k. (k, sorted_list_of_set (the (group_traces traces k)))) (sorted_list_of_set (dom (group_traces traces)))"

text \<open>One call per account, the first error ends the loop.\<close>

definition fetch_proof_by_traces ::
  "(bytes \<times> bytes list \<Rightarrow> 'b \<Rightarrow> ('e, merkle_account_proof) result) \<Rightarrow> trace list \<Rightarrow> 'b \<Rightarrow>
   ('e, merkle_account_proof list) result" where
  "fetch_proof_by_traces get_proof traces blk =
     map_result (\<lambda>item. get_proof item blk) (proof_requests traces)"

definition fetch_account ::
  "(sh160 \<times> sh256 list \<Rightarrow> 'b \<Rightarrow> ('e, merkle_account_proof) result) \<Rightarrow> sh160 \<Rightarrow> sh256 list \<Rightarrow> 'b \<Rightarrow>
   ('e, merkle_account_proof) result" where
  "fetch_account get_proof acc slots blk = get_proof (acc, slots) blk"

definition fetch_proof ::
  "(state_merkle_proof_req \<Rightarrow> ('e, state_merkle_proof_resp) result) \<Rightarrow> string \<Rightarrow> u64 \<Rightarrow> u64 \<Rightarrow>
   ('e, state_merkle_proof_resp) result" where
  "fetch_proof rpc version start_block end_block =
     rpc \<lparr>sr_start_block_number = ucast start_block, sr_end_block_number = ucast end_block,
          sr_zk_state_manager_version = version\<rparr>"

section \<open>Properties\<close>

definition trace_account :: "trace \<Rightarrow> bytes" where
  "trace_account t = (if trace_location t = [] then trace_key t else trace_location t)"

definition account_slots :: "trace list \<Rightarrow> bytes \<Rightarrow> bytes set" where
  "account_slots traces a = {trace_key t | t. t \<in> set traces \<and> trace_location t \<noteq> [] \<and> trace_location t = a}"

lemma group_traces_lookup:
  "fold group_trace traces m a =
     (if a \<in> trace_account ` set traces \<or> m a \<noteq> None
      then Some ((case m a of Some ks \<Rightarrow> ks | None \<Rightarrow> {}) \<union> account_slots traces a) else None)"
proof (induction traces arbitrary: m)
  case Nil
  then show ?case by (auto simp: account_slots_def)
next
  case (Cons t traces)
  have slots: "account_slots (t # traces) a =
      (if trace_location t \<noteq> [] \<and> trace_location t = a then insert (trace_key t) (account_slots traces a)
       else account_slots traces a)"
    by (auto simp: account_slots_def)
  show ?case
  proof (cases "trace_account t = a")
    case True
    then have "group_trace t m a = Some ((case m a of Some ks \<Rightarrow> ks | None \<Rightarrow> {}) \<union>
        (if trace_location t \<noteq> [] then {trace_key t} else {}))"
      by (auto simp: group_trace_def Let_def trace_account_def split: if_splits)
    then show ?thesis using True by (auto simp: Cons slots trace_account_def)
  next
    case False
    then have "group_trace t m a = m a"
      by (auto simp: group_trace_def Let_def trace_account_def split: if_splits)
    moreover have "account_slots (t # traces) a = account_slots traces a"
      using False by (auto simp: slots trace_account_def)
    ultimately show ?thesis using False by (simp add: Cons)
  qed
qed

lemma group_traces_eq:
  "group_traces traces a =
     (if a \<in> trace_account ` set traces then Some (account_slots traces a) else None)"
  by (simp add: group_traces_def group_traces_lookup)

lemma finite_account_slots: "finite (account_slots traces a)"
proof -
  have "account_slots traces a \<subseteq> trace_key ` set traces" by (auto simp: account_slots_def)
  then show ?thesis by (rule finite_subset) simp
qed

lemma dom_group_traces: "dom (group_traces traces) = trace_account ` set traces"
  by (auto simp: group_traces_eq dom_def)

text \<open>Every account once and in order, with exactly its slots, in order.\<close>

lemma proof_requests_spec:
  "sorted (map fst (proof_requests traces)) \<and> distinct (map fst (proof_requests traces)) \<and>
   set (map fst (proof_requests traces)) = trace_account ` set traces \<and>
   (\<forall>(a, ks) \<in> set (proof_requests traces). sorted ks \<and> distinct ks \<and> set ks = account_slots traces a)"
  by (auto simp: proof_requests_def o_def dom_group_traces group_traces_eq finite_account_slots)

section \<open>What is requested\<close>

text \<open>The proofs requested for a block: every account that a trace touches comes once, in ascending
  order, with exactly the storage keys that the traces read or write in it, in ascending order
  and without repetition.\<close>

theorem requests_cover_traces:
  "sorted (map fst (proof_requests traces)) \<and> distinct (map fst (proof_requests traces)) \<and>
   set (map fst (proof_requests traces)) = trace_account ` set traces \<and>
   (\<forall>(a, ks) \<in> set (proof_requests traces). sorted ks \<and> distinct ks \<and> set ks = account_slots traces a)"
  by (rule proof_requests_spec)

theorem requests_cover_traces_witness:
  "let rd = (\<lambda>loc key. Trace_Read \<lparr>rt_location = loc, rt_next_free_node = 2, rt_sub_root = 0, rt_leaf = leaf_opening_head,
         rt_proof = \<lparr>tp_leaf_index = 0, tp_siblings = []\<rparr>, rt_key = key, rt_value = []\<rparr>)
   in set (map fst (proof_requests [rd [] [5], rd [5] [2], rd [5] [1], rd [5] [2]])) = {[5]}"
  using requests_cover_traces by (simp add: Let_def trace_account_def)

end
