(* ===== verification/Zk_Proving.thy ===== *)
theory Zk_Proving
  imports Block_Executor Shomei_Client
begin

text \<open>
  Proving a block on the zk trie: \<open>generate_poe_v2\<close> of \<open>src/apps/prover/src/apps.rs\<close>. The state
  manager's traces of the block give the store, the codes come from the execution client, account
  proofs are added to the store, and the block is executed over it.
\<close>

section \<open>Proving on the zk trie\<close>

text \<open>The addresses of the accounts that the block reads and that exist.\<close>

fun code_addresses :: "hasher \<Rightarrow> keccak \<Rightarrow> trace list \<Rightarrow> sh160 list \<Rightarrow> (string, sh160 list) result" where
  "code_addresses H K [] codes = Inr codes"
| "code_addresses H K (t # traces) codes =
     (if length (trace_location t) = 0 \<and> length (trace_read_value t) > 0
      then bind_result (zk_account_from_bytes H K (trace_read_value t)) (\<lambda>acc.
           bind_result (if length (trace_key t) = 20 then Inr (of_nat (be_nat (trace_key t))) else Inl Panic) (\<lambda>addr.
             code_addresses H K traces (codes @ [addr])))
      else code_addresses H K traces codes)"

text \<open>The account proofs with an inclusion proof are added to the store; the first error returns.\<close>

fun add_account_proofs ::
  "hasher \<Rightarrow> (zk_error \<Rightarrow> string) \<Rightarrow> merkle_account_proof list \<Rightarrow> (mem_store, string, unit) comp" where
  "add_account_proofs H debug [] = returnc ()"
| "add_account_proofs H debug (proof # proofs) =
     bindc (lift_result (account_key H (mp_key (ma_account_proof proof)))) (\<lambda>hkey.
     bindc (case inclusion (ma_account_proof proof) of
              Some (leaf_index, pf) \<Rightarrow>
                (\<lambda>s. case mem_add_proof H u64_max_value leaf_index hkey (pf_value pf) (pf_proof_related_nodes pf) s of
                   (r, s') \<Rightarrow> (bind_result (map_err debug r) (\<lambda>_. Inr ()), s'))
            | None \<Rightarrow> returnc ()) (\<lambda>_.
       add_account_proofs H debug proofs))"

definition poe_v2_store ::
  "hasher \<Rightarrow> keccak \<Rightarrow> (zk_error \<Rightarrow> string) \<Rightarrow> trace list \<Rightarrow> bytes list \<Rightarrow> merkle_account_proof list \<Rightarrow>
   (string, mem_store) result" where
  "poe_v2_store H K debug block_trace codes proofs =
     bind_result (map_err debug (mem_store_from_traces H block_trace)) (\<lambda>db.
       case add_account_proofs H debug proofs (mem_add_codes K codes db) of
         (Inl e, _) \<Rightarrow> Inl e
       | (Inr _, db) \<Rightarrow> Inr db)"

definition generate_poe_v2 ::
  "hasher \<Rightarrow> keccak \<Rightarrow> (zk_error \<Rightarrow> string) \<Rightarrow> (trace list \<Rightarrow> u64 \<Rightarrow> (string, merkle_account_proof list) result) \<Rightarrow>
   (sh160 list \<Rightarrow> u64 \<Rightarrow> (string, bytes list) result) \<Rightarrow> ('h \<Rightarrow> su256) \<Rightarrow>
   (linea \<Rightarrow> mem_store \<Rightarrow> trace list \<Rightarrow> ('h, 't, 'w) raw_block \<Rightarrow> (string, unit) result) \<Rightarrow>
   u64 \<Rightarrow> state_merkle_proof_resp \<Rightarrow> ('h, 't, 'w) raw_block \<Rightarrow> (string, unit) result" where
  "generate_poe_v2 H K debug fetch_proofs get_codes header_number exec chain_id resp block =
     bind_result (index (sp_zk_state_merkle_proof resp) 0) (\<lambda>block_trace.
     bind_result (as_u64 (header_number (rb_header block))) (\<lambda>number.
     let current_block = number - 1 in
     bind_result (fetch_proofs block_trace current_block) (\<lambda>proofs.
     bind_result (code_addresses H K block_trace []) (\<lambda>addrs.
     bind_result (get_codes addrs current_block) (\<lambda>codes.
     bind_result (poe_v2_store H K debug block_trace codes proofs) (\<lambda>db.
       exec (linea_new (ucast chain_id)) db block_trace block))))))"

section \<open>Properties of the store of a block\<close>

lemma add_codes_lookup:
  "ms_codes (mem_add_codes K codes s) h =
     (case find (\<lambda>c. K c = h) (rev codes) of Some c \<Rightarrow> Some c | None \<Rightarrow> ms_codes s h)"
proof -
  have app: "find P (xs @ [x]) = (case find P xs of Some y \<Rightarrow> Some y | None \<Rightarrow> if P x then Some x else None)" for P xs and x :: bytes
    by (induction xs) auto
  show ?thesis
  proof (induction codes arbitrary: s)
    case (Cons c codes)
    have "mem_add_codes K (c # codes) s = mem_add_codes K codes (s\<lparr>ms_codes := (ms_codes s)(K c \<mapsto> c)\<rparr>)"
      by (simp add: mem_add_codes_def)
    then show ?case by (auto simp: Cons app split: option.split)
  qed (simp add: mem_add_codes_def)
qed

lemma add_codes_other [simp]:
  "ms_nodes (mem_add_codes K codes s) = ms_nodes s" "ms_index (mem_add_codes K codes s) = ms_index s"
  by (induction codes arbitrary: s) (simp_all add: mem_add_codes_def)

lemma mem_add_proof_codes: "ms_codes (snd (mem_add_proof H p i k v sibs s)) = ms_codes s"
  by (auto simp: mem_add_proof_def bindc_def Let_def split: sum.split prod.split option.split)

text \<open>What every added proof keeps, adding all the account proofs keeps.\<close>

lemma add_account_proofs_keep:
  assumes "\<And>i k v sibs t. I t \<Longrightarrow> I (snd (mem_add_proof H u64_max_value i k v sibs t))" and "I s"
  shows "I (snd (add_account_proofs H debug proofs s))"
proof -
  have "keeps I (add_account_proofs H debug proofs)"
  proof (induction proofs)
    case (Cons p proofs)
    have "keeps I (\<lambda>s. case mem_add_proof H u64_max_value i hkey v sibs s of
                   (r, s') \<Rightarrow> (bind_result (map_err debug r) (\<lambda>_. Inr ()), s'))" for i hkey v sibs
      using assms(1) [of _ i hkey v sibs] by (auto intro!: keepsI split: prod.split) (metis snd_conv)
    then show ?case
      by (auto intro!: preserved Cons split: option.split)
  qed (simp add: keeps_def)
  then show ?thesis using assms(2) by (auto dest: keepsD)
qed

lemma add_account_proofs_codes: "ms_codes (snd (add_account_proofs H debug proofs s)) = ms_codes s"
  by (rule add_account_proofs_keep) (simp_all add: mem_add_proof_codes)

end
