(* ===== verification/Traced_State.thy ===== *)
theory Traced_State
  imports Zk_Proving Trie_Properties
begin

text \<open>
  The components together: the state that a block is executed over is the one its traces tell.
  The store comes from \<open>MemStore::from_traces\<close> and the account proofs, the account trie from
  \<open>ZkTrieState::new_from_trace\<close>, and a read goes through the cache, the trie and the index.
\<close>

section \<open>What the traces say\<close>

text \<open>The last trace of a key at a root, and the value that the key had before it.\<close>

definition trace_at :: "hasher \<Rightarrow> trace list \<Rightarrow> sh256 \<Rightarrow> sh256 \<Rightarrow> trace option" where
  "trace_at H traces root k = find (\<lambda>tr. trace_top H tr = root \<and> trace_hkey H tr = k) (rev traces)"

definition prior_value :: "trace \<Rightarrow> bytes" where
  "prior_value tr = (case kr_center (trace_key_range tr) of Some l \<Rightarrow> fl_leaf_value l | None \<Rightarrow> [])"

lemma prior_value_simps [simp]:
  "prior_value (Trace_Read r) = rt_value r" "prior_value (Trace_ReadZero z) = []"
  "prior_value (Trace_Update u) = ut_old_value u" "prior_value (Trace_Insertion i) = []"
  "prior_value (Trace_Deletion d) = dt_delete_value d"
  by (simp_all add: prior_value_def)

text \<open>A store tells the traces when it answers every key at every root that they have a trace of.\<close>

definition tells :: "hasher \<Rightarrow> trace list \<Rightarrow> mem_store \<Rightarrow> bool" where
  "tells H traces s \<longleftrightarrow> (\<forall>root k tr. trace_at H traces root k = Some tr \<longrightarrow>
     level_map_get (ms_index s) root (u64_max_value, k) = Some (trace_key_range tr))"

lemma from_traces_tells:
  assumes "trie_hasher H" "mem_store_from_traces H traces = Inr s" "\<forall>tr\<in>set traces. wf_trace tr"
    "\<forall>tr\<in>set traces. \<exists>k. trie_hash H (trace_key tr) = Inr k"
  shows "tells H traces s" "ms_codes s = Map.empty"
proof -
  have "traces \<noteq> []" using assms(2) by (auto simp: mem_store_from_traces_def level_map_from_traces_def bind_result_ok_iff)
  from trie_hasher.from_traces_ok [OF assms(1) this assms(3,4)] assms(2)
  show "tells H traces s" "ms_codes s = Map.empty" by (auto simp: tells_def trace_at_def)
qed

lemma mem_add_proof_keeps_entry:
  assumes "level_map_get (ms_index s) root k = Some r"
  shows "level_map_get (ms_index (snd (mem_add_proof H p i hkey v sibs s))) root k = Some r"
proof (cases "add_proof_nodes H i sibs :: (zk_error, node \<times> node list) result")
  case (Inl e)
  then show ?thesis using assms by (simp add: mem_add_proof_rejected)
next
  case (Inr rn)
  obtain rt out where n: "add_proof_nodes H i sibs = (Inr (rt, out) :: (zk_error, node \<times> node list) result)"
    using Inr by (cases rn) simp
  then show ?thesis
    using assms by (auto simp: mem_add_proof_def bindc_def Let_def level_map_get_def level_map_insert_def split: option.splits)
qed

lemma add_account_proofs_keep_entry:
  "level_map_get (ms_index s) root k = Some r \<Longrightarrow>
   level_map_get (ms_index (snd (add_account_proofs H debug proofs s))) root k = Some r"
  by (rule add_account_proofs_keep) (rule mem_add_proof_keeps_entry)

lemma poe_v2_storeE:
  assumes "poe_v2_store H K debug traces codes proofs = Inr db"
  obtains s where "mem_store_from_traces H traces = Inr s"
    "add_account_proofs H debug proofs (mem_add_codes K codes s) = (Inr (), db)"
proof -
  obtain s where m: "mem_store_from_traces H traces = Inr s"
    "(case add_account_proofs H debug proofs (mem_add_codes K codes s) of (Inl e, _) \<Rightarrow> Inl e | (Inr _, db) \<Rightarrow> Inr db) = Inr db"
    using assms by (auto simp: poe_v2_store_def bind_result_ok_iff)
  obtain r t where r: "add_account_proofs H debug proofs (mem_add_codes K codes s) = (r, t)" by fastforce
  with m(2) have "r = Inr ()" "t = db" by (cases r; simp)+
  with m(1) r that show thesis by simp
qed

lemma poe_v2_store_tells:
  assumes "trie_hasher H" "poe_v2_store H K debug traces codes proofs = Inr db" "\<forall>tr\<in>set traces. wf_trace tr"
    "\<forall>tr\<in>set traces. \<exists>k. trie_hash H (trace_key tr) = Inr k"
  shows "tells H traces db" "ms_codes db h = find (\<lambda>c. K c = h) (rev codes)"
proof -
  obtain s where s: "mem_store_from_traces H traces = Inr s"
    "add_account_proofs H debug proofs (mem_add_codes K codes s) = (Inr (), db)"
    using assms(2) by (rule poe_v2_storeE)
  note t = from_traces_tells [OF assms(1) s(1) assms(3,4)]
  show "tells H traces db"
    using t(1) add_account_proofs_keep_entry [of "mem_add_codes K codes s" _ _ _ H debug proofs] s(2) by (simp add: tells_def)
  show "ms_codes db h = find (\<lambda>c. K c = h) (rev codes)"
    using add_account_proofs_codes [of H debug proofs "mem_add_codes K codes s"] t(2) s(2)
    by (simp add: add_codes_lookup split: option.split)
qed

section \<open>Reading through cache and trie\<close>

text \<open>An environment over the store, and what a fresh state reads there.\<close>

definition over_store :: "hasher \<Rightarrow> mem_store zk_env \<Rightarrow> bool" where
  "over_store H E \<longleftrightarrow> ze_hasher E = H \<and> ze_db E = prefix_db H u64_max_value"

lemma zk_read_told:
  assumes "tells H traces s" "trie_hash H key = Inr k" "trace_at H traces root k = Some tr"
  shows "fst (linea_trie_get H dbg (prefix_db H u64_max_value) (zk_new root) key s) = Inr (prior_value tr)"
  using assms
  by (auto simp: linea_trie_get_def zk_read_def prefix_db_def nearest_keys_get tells_def zk_top_root_hash_def zk_new_def
      smt_new_def prior_value_def split: option.split)

lemma account_told:
  assumes "tells H traces db" "over_store H E" "trie_hash H (sh160_bytes a) = Inr k"
    "tc_raw (zs_acc_cache s) = zk_new root" "tc_cache (zs_acc_cache s) a = None" "zs_db s = db"
    "trace_at H traces root k = Some tr"
  shows "account E s a = decode_value (env_account E) (prior_value tr)"
  using assms zk_read_told [OF assms(1,3,7), of "ze_debug E"]
  by (simp add: account_def current_value_def over_store_def linea_trie_def)

lemma fresh_slot:
  assumes "account E s a = Inr v" "zs_storages s a = None"
  shows "fst (get_state E a pos s) = map_err WithKey (bind_result
    (fst (linea_trie_get (ze_hasher E) (ze_debug E) (ze_db E) (zk_new (za_root v)) (word_bytes pos) (zs_db s)))
    (decode_value (storage_value_enc (ze_rlp E))))"
proof -
  obtain s1 where s1: "with_acc E a (read_acc za_root) s = (Inr (za_root v), s1)" "zs_storages s1 = zs_storages s" "zs_db s1 = zs_db s"
    using assms(1) by (simp add: with_acc_account run_ctx_def read_acc_def)
  let ?c = "trie_cache_new (zk_new (za_root v)) :: storage_cache"
  have root: "trie_cache_root_hash (env_trie E) ?c = za_root v"
    by (simp add: trie_cache_root_hash_def linea_trie_def linea_trie_root_hash_def trie_cache_new_def
        zk_top_root_hash_def zk_new_def smt_new_def)
  have new: "tt_new_root (env_trie E) t r = zk_new r" for t r by (simp add: linea_trie_def linea_trie_new_root_def)
  have get: "tt_get (env_trie E) = linea_trie_get (ze_hasher E) (ze_debug E) (ze_db E)" by (simp add: linea_trie_def)
  let ?got = "fst (linea_trie_get (ze_hasher E) (ze_debug E) (ze_db E) (zk_new (za_root v)) (word_bytes pos) (zs_db s))"
  have cur: "current_value (env_trie E) (storage_value_enc (ze_rlp E)) word_bytes ?c (zs_db s) pos =
      bind_result ?got (decode_value (storage_value_enc (ze_rlp E)))"
    by (simp add: current_value_def trie_cache_new_def get)
  have clean: "tc_dirty (trie_cache_new t) = {}" for t :: zk_trie by (simp add: trie_cache_new_def)
  have open_slot: "zs_storages s1 a = None" using s1(2) assms(2) by simp
  show ?thesis
  proof (cases "bind_result ?got (decode_value (storage_value_enc (ze_rlp E)))")
    case (Inl e)
    then show ?thesis
      using open_slot s1(3)
      by (cases e; simp add: get_state_def with_storage_def bindc_def s1(1) new Let_def root linea_cached.with_key_current cur)
  next
    case (Inr w)
    then show ?thesis
      using open_slot s1(3)
      by (simp add: get_state_def with_storage_def bindc_def s1(1) new Let_def root linea_cached.with_key_current cur run_ctx_def trie_cache_is_dirty_def
          clean)
  qed
qed

section \<open>The state of a block\<close>

text \<open>C10: the accounts of a block. Over the store that is made of the block's traces, the codes and the
  account proofs, the state that starts at the first trace has for every account with a trace at
  that trace's root the value that its last such trace gives: the read, updated or deleted value
  decoded, and the default account for a trace that found no leaf. An account's code is, when its
  size is not zero, the last of the given codes with the account's code hash, or an error.\<close>

theorem accounts_of_block:
  assumes "trie_hasher H" "over_store H E"
    and "poe_v2_store H K debug traces codes proofs = Inr db" "\<forall>tr\<in>set traces. wf_trace tr"
    and "\<forall>tr\<in>set traces. \<exists>k. trie_hash H (trace_key tr) = Inr k"
    and "new_from_trace H db (hd traces) = (Inr s :: (string, mem_store zk_trie_state) result)"
    and "trie_hash H (sh160_bytes a) = Inr k" "trace_at H traces (trace_top H (hd traces)) k = Some tr"
  shows "account E s a = decode_value (env_account E) (prior_value tr) \<and>
    (\<forall>v. account E s a = Inr v \<longrightarrow> fst (get_code E a s) =
      (if za_code_size v = 0 then Inr []
       else case find (\<lambda>c. K c = za_keccak_code_hash v) (rev codes) of
              Some c \<Rightarrow> Inr c | None \<Rightarrow> Inl (Fail (CodeNotFound (za_keccak_code_hash v)))))"
proof -
  note st = poe_v2_store_tells [OF assms(1,3,4,5)]
  have s: "s = \<lparr>zs_db = db, zs_acc_cache = trie_cache_new (zk_new (trace_top H (hd traces))), zs_storages = Map.empty\<rparr>"
    using assms(6) by (auto simp: trie_hasher.node_top_node_ok [OF assms(1)] new_from_trace_def trace_top_def split: prod.splits)
  have acc: "account E s a = decode_value (env_account E) (prior_value tr)"
    by (rule account_told [OF st(1) assms(2,7) _ _ _ assms(8)]) (simp_all add: s trie_cache_new_def)
  have "fst (get_code E a s) = (if za_code_size v = 0 then Inr []
       else case find (\<lambda>c. K c = za_keccak_code_hash v) (rev codes) of
              Some c \<Rightarrow> Inr c | None \<Rightarrow> Inl (Fail (CodeNotFound (za_keccak_code_hash v))))"
    if "account E s a = Inr v" for v
    using that assms(2) st(2) [of "za_keccak_code_hash v"]
    by (auto simp: get_code_def bindc_def with_acc_account run_ctx_def read_acc_def over_store_def prefix_db_def
        mem_get_code_def s split: option.split)
  with acc show ?thesis by blast
qed

text \<open>C11: the slots of a block. Over a store that tells the traces, reading a slot of an account for the first
  time gives the value of the slot's last trace at the storage root of the account, decoded, and
  zero for a trace that found no leaf.\<close>

theorem slots_of_block:
  assumes "tells H traces (zs_db s)" "over_store H E"
    and "account E s a = Inr v" "zs_storages s a = None"
    and "trie_hash H (word_bytes pos) = Inr k" "trace_at H traces (za_root v) k = Some tr"
  shows "fst (get_state E a pos s) =
    (if prior_value tr = [] then Inr 0
     else map_err WithKey (storage_value_rlp_decode (ze_rlp E) (prior_value tr)))"
proof -
  have "fst (linea_trie_get (ze_hasher E) (ze_debug E) (ze_db E) (zk_new (za_root v)) (word_bytes pos) (zs_db s)) =
      Inr (prior_value tr)"
    using zk_read_told [OF assms(1,5,6)] assms(2) by (simp add: over_store_def)
  then show ?thesis
    using fresh_slot [OF assms(3,4), of pos] by (simp add: decode_value_def storage_value_enc_def)
qed

section \<open>A block with one account and one slot\<close>

definition toy_account :: zk_state_account where
  "toy_account = \<lparr>za_nonce = 3, za_balance = 40, za_root = 81008, za_mimc_code_hash = 1, za_keccak_code_hash = 7, za_code_size = 3\<rparr>"

definition toy_account_bytes :: bytes where
  "toy_account_bytes = word_bytes 3 @ word_bytes 40 @ word_bytes 81008 @ word_bytes 1 @ word_bytes 7 @ word_bytes 3"

definition toy_read_trace :: trace where
  "toy_read_trace = Trace_Read \<lparr>rt_location = [], rt_next_free_node = 3, rt_sub_root = 90000, rt_leaf = toy_leaf 2,
     rt_proof = \<lparr>tp_leaf_index = 2, tp_siblings = replicate 40 0\<rparr>, rt_key = sh160_bytes 9, rt_value = toy_account_bytes\<rparr>"

definition toy_block_traces :: "trace list" where
  "toy_block_traces = [toy_read_trace, toy_update_trace]"

definition toy_env :: "mem_store zk_env" where
  "toy_env = \<lparr>ze_hasher = toy_hash, ze_keccak = (\<lambda>_. 7), ze_debug = (\<lambda>_. []), ze_rlp = rlp_short_strings,
     ze_add_assign = (\<lambda>a b. Inr (a + b)), ze_sub_assign = (\<lambda>a b. Inr (a - b)), ze_db = prefix_db toy_hash u64_max_value\<rparr>"

lemma toy_account_parsed: "zk_account_from_bytes H K toy_account_bytes = Inr toy_account"
  by (simp add: zk_account_from_bytes_def toy_account_bytes_def toy_account_def word_at_def slice_range_def as_u64_def)

lemma toy_account_decoded: "decode_value (env_account toy_env) toy_account_bytes = Inr toy_account"
  using word_bytes_ok(2) [of 3]
  by (simp add: decode_value_def zk_account_enc_def toy_account_parsed) (simp add: toy_account_bytes_def)

lemma toy_block:
  shows "\<forall>tr\<in>set toy_block_traces. wf_trace tr" "\<forall>tr\<in>set toy_block_traces. \<exists>k. trie_hash toy_hash (trace_key tr) = Inr k"
    "over_store toy_hash toy_env" "trie_hash toy_hash (sh160_bytes 9) = Inr 9"
    "trace_at toy_hash toy_block_traces (trace_top toy_hash (hd toy_block_traces)) 9 = Some toy_read_trace"
    "trace_at toy_hash toy_block_traces 81008 7 = Some toy_update_trace"
proof -
  have key: "trie_hash toy_hash (sh160_bytes 9) = Inr 9"
  proof -
    have "length (sh160_bytes 9) = 20" "word_of_bytes (sh160_bytes 9) = 9" "word_of_bytes [] = 0"
      by (simp_all add: word_of_bytes_def sh160_bytes_def be_nat_be_bytes)
    then show ?thesis by (simp add: trie_hash_def toy_hash_def toy_word_def)
  qed
  show "trie_hash toy_hash (sh160_bytes 9) = Inr 9" by (fact key)
  show "\<forall>tr\<in>set toy_block_traces. wf_trace tr"
    by (simp add: toy_block_traces_def toy_read_trace_def toy_update_trace_def wf_trace_def)
  show "\<forall>tr\<in>set toy_block_traces. \<exists>k. trie_hash toy_hash (trace_key tr) = Inr k"
    using key by (simp add: toy_block_traces_def toy_read_trace_def toy_update_trace_def)
  show "over_store toy_hash toy_env" by (simp add: over_store_def toy_env_def)
  show "trace_at toy_hash toy_block_traces (trace_top toy_hash (hd toy_block_traces)) 9 = Some toy_read_trace"
    "trace_at toy_hash toy_block_traces 81008 7 = Some toy_update_trace"
    using key
    by (simp_all add: trace_at_def toy_block_traces_def toy_read_trace_def toy_update_trace_def trace_top_def trace_hkey_def)
qed

lemma toy_block_store:
  "\<exists>db s. poe_v2_store toy_hash (\<lambda>_. 7) (\<lambda>_. []) toy_block_traces [[9], [1, 2, 3]] [] = Inr db \<and>
     new_from_trace toy_hash db (hd toy_block_traces) = (Inr s :: (string, mem_store zk_trie_state) result) \<and>
     zs_db s = db \<and> zs_storages s 9 = None"
proof -
  have "toy_block_traces \<noteq> []" by (simp add: toy_block_traces_def)
  then obtain st where "mem_store_from_traces toy_hash toy_block_traces = Inr st"
    using toy.from_traces_ok [OF _ toy_block(1,2)] by blast
  then show ?thesis
    by (auto simp: poe_v2_store_def new_from_trace_def toy.node_top_node_ok split: prod.split)
qed

theorem accounts_of_block_witness:
  "\<exists>db s. poe_v2_store toy_hash (\<lambda>_. 7) (\<lambda>_. []) toy_block_traces [[9], [1, 2, 3]] [] = Inr db \<and>
     new_from_trace toy_hash db (hd toy_block_traces) = (Inr s :: (string, mem_store zk_trie_state) result) \<and>
     account toy_env s 9 = Inr toy_account \<and> fst (get_code toy_env 9 s) = Inr [1, 2, 3]"
proof -
  obtain db s where st: "poe_v2_store toy_hash (\<lambda>_. 7) (\<lambda>_. []) toy_block_traces [[9], [1, 2, 3]] [] = Inr db"
    "new_from_trace toy_hash db (hd toy_block_traces) = (Inr s :: (string, mem_store zk_trie_state) result)"
    using toy_block_store by blast
  from accounts_of_block [OF toy_trie_hasher toy_block(3) st(1) toy_block(1,2) st(2) toy_block(4,5)]
  have "account toy_env s 9 = decode_value (env_account toy_env) toy_account_bytes"
    "\<And>v. account toy_env s 9 = Inr v \<Longrightarrow> fst (get_code toy_env 9 s) =
      (if za_code_size v = 0 then Inr []
       else case find (\<lambda>c. (7 :: sh256) = za_keccak_code_hash v) (rev [[9], [1, 2, 3]]) of
              Some c \<Rightarrow> Inr c | None \<Rightarrow> Inl (Fail (CodeNotFound (za_keccak_code_hash v))))"
    by (simp_all add: toy_read_trace_def)
  then show ?thesis using st by (simp add: toy_account_decoded toy_account_def)
qed

theorem slots_of_block_witness:
  "\<exists>db s. poe_v2_store toy_hash (\<lambda>_. 7) (\<lambda>_. []) toy_block_traces [[9], [1, 2, 3]] [] = Inr db \<and>
     new_from_trace toy_hash db (hd toy_block_traces) = (Inr s :: (string, mem_store zk_trie_state) result) \<and>
     fst (get_state toy_env 9 7 s) = Inr 3"
proof -
  obtain db s where st: "poe_v2_store toy_hash (\<lambda>_. 7) (\<lambda>_. []) toy_block_traces [[9], [1, 2, 3]] [] = Inr db"
    "new_from_trace toy_hash db (hd toy_block_traces) = (Inr s :: (string, mem_store zk_trie_state) result)"
    "zs_db s = db" "zs_storages s 9 = None"
    using toy_block_store by blast
  have tells: "tells toy_hash toy_block_traces (zs_db s)"
    using poe_v2_store_tells(1) [OF toy_trie_hasher st(1) toy_block(1,2)] st(3) by simp
  have s: "tc_raw (zs_acc_cache s) = zk_new (trace_top toy_hash (hd toy_block_traces))" "tc_cache (zs_acc_cache s) 9 = None"
    using st(2) by (auto simp: new_from_trace_def toy.node_top_node_ok trace_top_def trie_cache_new_def split: prod.splits)
  have "account toy_env s 9 = Inr toy_account"
    using account_told [OF tells toy_block(3,4) s _ toy_block(5)] toy_account_decoded by (simp add: toy_read_trace_def)
  moreover have "trace_at toy_hash toy_block_traces (za_root toy_account) 7 = Some toy_update_trace"
    using toy_block(6) by (simp add: toy_account_def)
  ultimately have "fst (get_state toy_env 9 7 s) =
      (if prior_value toy_update_trace = [] then Inr 0
       else map_err WithKey (storage_value_rlp_decode (ze_rlp toy_env) (prior_value toy_update_trace)))"
    using slots_of_block [OF tells toy_block(3) _ st(4) toy_trie_hash_word] by blast
  moreover have "prior_value toy_update_trace = word_bytes 3" by (simp add: toy_update_trace_def)
  moreover have "storage_value_rlp_decode (ze_rlp toy_env) (word_bytes 3) = Inr 3"
    using word_bytes_ok(2) [of 3] by (simp add: storage_value_rlp_decode_def toy_env_def rlp_short_strings_def)
  ultimately have "fst (get_state toy_env 9 7 s) = Inr 3" using word_bytes_ok(2) [of 3] by simp
  with st(1,2) show ?thesis by blast
qed

section \<open>What a run on the zk trie checks\<close>

definition change_root :: "(sh256 \<Rightarrow> sh256) \<Rightarrow> ('b, string, sh256) comp \<Rightarrow> ('b, string, sh256) comp" where
  "change_root change fl = bindc fl (\<lambda>root. returnc (change root))"

lemma run_changed_root:
  "fst (bindc c (\<lambda>u. bindc (change_root change fl) (\<lambda>root. returnc ())) b) =
   fst (bindc c (\<lambda>u. bindc fl (\<lambda>root. returnc ())) b)"
  by (simp add: change_root_def bindc_def split: prod.split sum.split)

lemma map_result_nth: "map_result f xs = Inr ys \<Longrightarrow> length ys = length xs \<and> (\<forall>i<length ys. f (xs ! i) = Inr (ys ! i))"
proof (induction xs arbitrary: ys)
  case (Cons x xs)
  then obtain y zs where "ys = y # zs" "f x = Inr y" "map_result f xs = Inr zs" by (auto simp: bind_result_ok_iff)
  with Cons.IH show ?case by (auto simp: nth_Cons split: nat.split)
qed simp

text \<open>C20: a run of \<open>generate_poe_v2\<close> that returns has fetched, at the parent block, an account proof for
  every account of the traces and the codes of the accounts that were read; every proof was
  accepted; and all transactions were committed, in order, over the state that the first trace
  starts at, and flushed.\<close>

theorem zk_proof_run:
  assumes "generate_poe_v2 H K debug (fetch_proof_by_traces get_proof) get_codes header_number (execute_v2 H B inner)
    chain_id resp block = Inr ()"
  shows "\<exists>traces rest parent proofs addrs codes db s builder is b b' root.
    sp_zk_state_merkle_proof resp = traces # rest \<and> ucast (parent + 1) = header_number (rb_header block) \<and>
    length proofs = length (proof_requests traces) \<and>
    (\<forall>i<length proofs. get_proof (proof_requests traces ! i) parent = Inr (proofs ! i)) \<and>
    code_addresses H K traces [] = Inr addrs \<and> get_codes addrs parent = Inr codes \<and>
    poe_v2_store H K debug traces codes proofs = Inr db \<and>
    new_from_trace H db (hd traces) = (Inr s :: (string, mem_store zk_trie_state) result) \<and>
    bb_new B (linea_new (ucast chain_id)) s Map.empty (rb_header block) = Inr builder \<and>
    preprocess_txs inner (linea_new (ucast chain_id)) (rb_transactions block) = Inr is \<and>
    commit_all (bb_commit B) is builder = (Inr (), b) \<and> bb_flush_state B b = (Inr root, b')"
proof -
  obtain traces number proofs addrs codes db where g: "index (sp_zk_state_merkle_proof resp) 0 = (Inr traces :: (string, trace list) result)"
    "as_u64 (header_number (rb_header block)) = (Inr number :: (string, u64) result)"
    "fetch_proof_by_traces get_proof traces (number - 1) = Inr proofs" "code_addresses H K traces [] = Inr addrs"
    "get_codes addrs (number - 1) = Inr codes" "poe_v2_store H K debug traces codes proofs = Inr db"
    "execute_v2 H B inner (linea_new (ucast chain_id)) db traces block = Inr ()"
    using assms by (auto simp: generate_poe_v2_def bind_result_ok_iff Let_def)
  obtain t s builder "is" where e: "index traces 0 = (Inr t :: (string, trace) result)"
    "new_from_trace H db t = (Inr s :: (string, mem_store zk_trie_state) result)"
    "bb_new B (linea_new (ucast chain_id)) s Map.empty (rb_header block) = Inr builder"
    "preprocess_txs inner (linea_new (ucast chain_id)) (rb_transactions block) = Inr is"
    "fst (bindc (commit_all (bb_commit B) is) (\<lambda>_. bindc (bb_flush_state B) (\<lambda>root_hash. returnc ())) builder) = Inr ()"
    using g(7) by (auto simp: execute_v2_def bind_result_ok_iff)
  obtain b' where "bindc (commit_all (bb_commit B) is) (\<lambda>_. bindc (bb_flush_state B) (\<lambda>root_hash. returnc ())) builder = (Inr (), b')"
    using e(5) by (metis prod.collapse)
  then obtain b root where run: "commit_all (bb_commit B) is builder = (Inr (), b)" "bb_flush_state B b = (Inr root, b')"
    by (auto simp: bindc_ok_iff)
  obtain rest where rest: "sp_zk_state_merkle_proof resp = traces # rest"
    using g(1) by (cases "sp_zk_state_merkle_proof resp") (auto simp: index_def split: if_splits)
  have hd: "t = hd traces" using e(1) by (cases traces) (auto simp: index_def)
  have number: "ucast (number - 1 + 1) = header_number (rb_header block)"
    using g(2) by (auto simp: as_u64_def word_unat_eq_iff unsigned_ucast_eq take_bit_nat_eq_self split: if_splits)
  have "map_result (\<lambda>item. get_proof item (number - 1)) (proof_requests traces) = Inr proofs"
    using g(3) by (simp add: fetch_proof_by_traces_def)
  from map_result_nth [OF this] rest number g(4-6) e(2-4) [unfolded hd] run show ?thesis by blast
qed

text \<open>C21: the roots are not compared. Neither the state roots that the state manager reports nor the root that
  the run itself ends with has any influence on the outcome.\<close>

theorem zk_proof_ignores_roots:
  "generate_poe_v2 H K debug fetch_proofs get_codes header_number
     (execute_v2 H (B\<lparr>bb_flush_state := change_root change (bb_flush_state B)\<rparr>) inner)
     chain_id (resp\<lparr>sp_zk_parent_state_root_hash := r1, sp_zk_end_state_root_hash := r2\<rparr>) block =
   generate_poe_v2 H K debug fetch_proofs get_codes header_number (execute_v2 H B inner) chain_id resp block"
proof -
  have "execute_v2 H (B\<lparr>bb_flush_state := change_root change (bb_flush_state B)\<rparr>) inner = execute_v2 H B inner"
    by (intro ext) (simp add: execute_v2_def run_changed_root)
  then show ?thesis by (simp add: generate_poe_v2_def)
qed

text \<open>The witness: account proofs without inclusion, and a builder that adds up the transactions.\<close>

definition no_proof :: "bytes \<times> bytes list \<Rightarrow> u64 \<Rightarrow> (string, merkle_account_proof) result" where
  "no_proof item blk = Inr \<lparr>ma_account_proof = \<lparr>mp_key = fst item, mp_leaf_index = None, mp_proof = None, mp_left_proof = None,
     mp_right_proof = None, mp_left_leaf_index = None, mp_right_leaf_index = None\<rparr>, ma_storage_proofs = []\<rparr>"

definition adding_builder :: "(mem_store zk_trie_state, nat, unit, nat, unit, unit) block_builder" where
  "adding_builder = \<lparr>bb_new = (\<lambda>_ _ _ _. Inr 0), bb_commit = (\<lambda>n b. (Inr (), b + n)), bb_flush_state = (\<lambda>b. (Inr (of_nat b), b)),
     bb_withdrawal = (\<lambda>ws b. (Inr (), b)), bb_finalize = (\<lambda>b. (Inr (), b))\<rparr>"

definition toy_resp :: state_merkle_proof_resp where
  "toy_resp = \<lparr>sp_zk_parent_state_root_hash = 1, sp_zk_state_merkle_proof = [toy_block_traces],
     sp_zk_state_manager_version = [], sp_zk_end_state_root_hash = 2\<rparr>"

definition toy_raw_block :: "(unit, nat, unit) raw_block" where
  "toy_raw_block = \<lparr>rb_header = (), rb_transactions = [\<lparr>tx_type = 0, tx_v = 27, tx_rest = 10\<rparr>], rb_withdrawals = None\<rparr>"

lemma add_no_proofs:
  "(\<forall>p\<in>set ps. inclusion (ma_account_proof p) = None) \<Longrightarrow> add_account_proofs toy_hash debug ps s = (Inr (), s)"
  by (induction ps) (auto simp: account_key_def zk_hash_def toy_hash_def)

lemma toy_run:
  "generate_poe_v2 toy_hash (\<lambda>_. 7) (\<lambda>_. []) (fetch_proof_by_traces no_proof) (\<lambda>addrs n. Inr [[9], [1, 2, 3]]) (\<lambda>_. 6)
     (execute_v2 toy_hash adding_builder (\<lambda>tx. Some (tx_rest tx))) 59144 toy_resp toy_raw_block = Inr ()"
proof -
  have codes: "\<exists>addrs. code_addresses toy_hash (\<lambda>_. 7) toy_block_traces [] = Inr addrs"
    by (simp add: toy_block_traces_def toy_read_trace_def toy_update_trace_def toy_account_parsed sh160_bytes_def)
  obtain ps where ps: "fetch_proof_by_traces no_proof toy_block_traces 5 = Inr ps" "\<forall>p\<in>set ps. inclusion (ma_account_proof p) = None"
  proof -
    have "map_result (\<lambda>item. no_proof item 5) items = Inr (map (\<lambda>item. projr (no_proof item 5)) items)" for items
      by (rule map_result_all_ok) (simp add: no_proof_def)
    then show thesis
      by (intro that [of "map (\<lambda>item. projr (no_proof item 5)) (proof_requests toy_block_traces)"])
        (auto simp: fetch_proof_by_traces_def no_proof_def inclusion_def)
  qed
  obtain db where db: "poe_v2_store toy_hash (\<lambda>_. 7) (\<lambda>_. []) toy_block_traces [[9], [1, 2, 3]] ps = Inr db"
    using toy_block_store ps(2) by (auto simp: poe_v2_store_def bind_result_ok_iff add_no_proofs)
  have t: "index toy_block_traces 0 = (Inr toy_read_trace :: (string, trace) result)"
    "\<exists>r. trace_old_top_hash toy_hash toy_read_trace = (Inr r :: (string, sh256) result)"
    "\<exists>s. new_from_trace toy_hash db toy_read_trace = (Inr s :: (string, mem_store zk_trie_state) result)"
    by (simp_all add: toy_block_traces_def trace_old_top_hash_def trace_old_top_node_def new_from_trace_def
        toy.node_top_node_ok split: prod.split)
  have "execute_v2 toy_hash adding_builder (\<lambda>tx. Some (tx_rest tx)) (linea_new 59144) db toy_block_traces toy_raw_block = Inr ()"
    using t by (auto simp: execute_v2_def adding_builder_def toy_raw_block_def preprocess_txs_def linea_new_def as_u64_def
        fix_v_def bindc_def unwrapc_def)
  then show ?thesis
    using codes ps(1) db by (auto simp: generate_poe_v2_def toy_resp_def as_u64_def)
qed

theorem zk_proof_run_witness:
  "\<exists>proofs db s. length proofs = length (proof_requests toy_block_traces) \<and>
     poe_v2_store toy_hash (\<lambda>_. 7) (\<lambda>_. []) toy_block_traces [[9], [1, 2, 3]] proofs = Inr db \<and>
     new_from_trace toy_hash db toy_read_trace = (Inr s :: (string, mem_store zk_trie_state) result)"
  using zk_proof_run [OF toy_run] by (auto simp: toy_resp_def toy_block_traces_def)

end
