(* ===== verification/State_Spec.thy ===== *)
theory State_Spec
  imports Traced_State
begin

text \<open>
  What the state database of \<open>zktrie_state.rs\<close> is between two flushes: a map of accounts with a
  set of changed addresses, and slots that can be read only. Every client of it gets
  the answers of this specification, and the trie and the store stay as they are.
\<close>

section \<open>Calls\<close>

datatype state_call =
    Call_Add_Balance sh160 su256
  | Call_Sub_Balance sh160 su256
  | Call_Set_Nonce sh160 su256
  | Call_Get_Balance sh160
  | Call_Get_Nonce sh160
  | Call_Get_Basic sh160
  | Call_Exist sh160
  | Call_Get_Code sh160
  | Call_Get_State sh160 sh256
  | Call_Set_Balance sh160 su256
  | Call_Set_Code sh160 bytes
  | Call_Set_State sh160 sh256 sh256
  | Call_Suicide sh160
  | Call_Revert sh256
  | Call_Fork
  | Call_State_Root
  | Call_Try_Nonce sh160

datatype answer =
    Done
  | Balance su256
  | Nonce u64
  | Basic su256 u64
  | Exists bool
  | Code bytes
  | Slot sh256

definition answering :: "('o \<Rightarrow> answer) \<Rightarrow> ('t, 'e, 'o) comp \<Rightarrow> ('t, 'e, answer) comp" where
  "answering g c = bindc c (\<lambda>x. returnc (g x))"

fun run_call :: "'s zk_env \<Rightarrow> state_call \<Rightarrow> ('s zk_trie_state, statedb_error, answer) comp" where
  "run_call E (Call_Add_Balance a x) = answering (\<lambda>_. Done) (add_balance E a x)"
| "run_call E (Call_Sub_Balance a x) = answering (\<lambda>_. Done) (sub_balance E a x)"
| "run_call E (Call_Set_Nonce a x) = answering (\<lambda>_. Done) (set_nonce E a x)"
| "run_call E (Call_Get_Balance a) = answering Balance (get_balance E a)"
| "run_call E (Call_Get_Nonce a) = answering Nonce (get_nonce E a)"
| "run_call E (Call_Get_Basic a) = answering (\<lambda>(b, n). Basic b n) (get_account_basic E a)"
| "run_call E (Call_Exist a) = answering Exists (exist E a)"
| "run_call E (Call_Get_Code a) = answering Code (get_code E a)"
| "run_call E (Call_Get_State a k) = answering Slot (get_state E a k)"
| "run_call E (Call_Set_Balance a x) = answering (\<lambda>_. Done) (set_balance a x)"
| "run_call E (Call_Set_Code a c) = answering (\<lambda>_. Done) (set_code a c)"
| "run_call E (Call_Set_State a k v) = answering (\<lambda>_. Done) (set_state a k v)"
| "run_call E (Call_Suicide a) = answering (\<lambda>_. Done) (suicide a)"
| "run_call E (Call_Revert r) = answering (\<lambda>_. Done) (revert r)"
| "run_call E Call_Fork = answering (\<lambda>_. Done) fork"
| "run_call E Call_State_Root = answering Slot state_root"
| "run_call E (Call_Try_Nonce a) = answering (\<lambda>_. Done) (try_get_nonce a)"

text \<open>
  A client of the database decides from every answer, errors included, how to go on; a panic
  ends it. It returns a value of its own.
\<close>

datatype 'r client =
    Return 'r
  | Ask state_call "statedb_error + answer \<Rightarrow> 'r client"

primrec run_client :: "(state_call \<Rightarrow> ('t, statedb_error, answer) comp) \<Rightarrow> 'r client \<Rightarrow> ('t, 'e, 'r) comp" where
  "run_client call (Return r) = returnc r"
| "run_client call (Ask c k) = (\<lambda>s.
     case call c s of
       (Inl Panic, s') \<Rightarrow> (Inl Panic, s')
     | (Inl (Fail e), s') \<Rightarrow> run_client call (k (Inl e)) s'
     | (Inr a, s') \<Rightarrow> run_client call (k (Inr a)) s')"

section \<open>The specification\<close>

record state_spec =
  ss_accounts :: "sh160 \<Rightarrow> (string, zk_state_account) result"
  ss_dirty :: "sh160 set"

text \<open>An access to an account: its outcome, the account afterwards, and whether it was changed.\<close>

definition spec_access ::
  "sh160 \<Rightarrow> (zk_state_account \<Rightarrow> (string, 'o) result \<times> zk_state_account \<times> bool) \<Rightarrow> (state_spec, statedb_error, 'o) comp" where
  "spec_access a g S =
     (case ss_accounts S a of
        Inl e \<Rightarrow> (map_err WithKey (Inl e), S)
      | Inr v \<Rightarrow> (case g v of (r, v', changed) \<Rightarrow>
          (map_err WithKey r, S\<lparr>ss_accounts := (ss_accounts S)(a := Inr v'),
             ss_dirty := (if changed \<and> \<not> isl r then insert a (ss_dirty S) else ss_dirty S)\<rparr>)))"

definition spec_balance :: "(string, su256) result \<Rightarrow> zk_state_account \<Rightarrow> (string, unit) result \<times> zk_state_account \<times> bool" where
  "spec_balance new v = (case new of Inl e \<Rightarrow> (Inl e, v, True) | Inr b \<Rightarrow> (Inr (), v\<lparr>za_balance := b\<rparr>, True))"

definition spec_nonce :: "su256 \<Rightarrow> zk_state_account \<Rightarrow> (string, unit) result \<times> zk_state_account \<times> bool" where
  "spec_nonce x v = (if unat x < 2 ^ 64 then (Inr (), v\<lparr>za_nonce := ucast x\<rparr>, za_nonce v \<noteq> ucast x) else (Inl Panic, v, False))"

definition spec_read :: "(zk_state_account \<Rightarrow> (string, 'o) result) \<Rightarrow> zk_state_account \<Rightarrow> (string, 'o) result \<times> zk_state_account \<times> bool" where
  "spec_read g v = (g v, v, False)"

text \<open>The value of a slot: what the trie of the storage root has, decoded.\<close>

definition slot_value :: "'s zk_env \<Rightarrow> 's \<Rightarrow> sh256 \<Rightarrow> sh256 \<Rightarrow> (string, sh256) result" where
  "slot_value E db root k = bind_result (fst (tt_get (env_trie E) (zk_new root) (word_bytes k) db)) (decode_value (storage_value_enc (ze_rlp E)))"

definition spec_code :: "(sh256 \<rightharpoonup> bytes) \<Rightarrow> sh256 \<Rightarrow> su256 \<Rightarrow> (statedb_error, bytes) result" where
  "spec_code codes h n = (if n = 0 then Inr [] else case codes h of Some c \<Rightarrow> Inr c | None \<Rightarrow> Inl (Fail (CodeNotFound h)))"

fun spec_call :: "mem_store zk_env \<Rightarrow> mem_store \<Rightarrow> state_call \<Rightarrow> (state_spec, statedb_error, answer) comp" where
  "spec_call E db (Call_Add_Balance a x) =
     answering (\<lambda>_. Done) (spec_access a (\<lambda>v. spec_balance (ze_add_assign E (za_balance v) x) v))"
| "spec_call E db (Call_Sub_Balance a x) =
     answering (\<lambda>_. Done) (spec_access a (\<lambda>v. spec_balance (ze_sub_assign E (za_balance v) x) v))"
| "spec_call E db (Call_Set_Nonce a x) = answering (\<lambda>_. Done) (spec_access a (spec_nonce x))"
| "spec_call E db (Call_Get_Balance a) = answering Balance (spec_access a (spec_read (\<lambda>v. Inr (za_balance v))))"
| "spec_call E db (Call_Get_Nonce a) = answering Nonce (spec_access a (spec_read (\<lambda>v. Inr (za_nonce v))))"
| "spec_call E db (Call_Get_Basic a) = answering (\<lambda>(b, n). Basic b n) (spec_access a (spec_read (\<lambda>v. Inr (za_balance v, za_nonce v))))"
| "spec_call E db (Call_Exist a) = answering Exists (spec_access a (spec_read (zk_account_is_exist (ze_hasher E) (ze_keccak E))))"
| "spec_call E db (Call_Get_Code a) =
     answering Code (bindc (spec_access a (spec_read (\<lambda>v. Inr (za_keccak_code_hash v, za_code_size v)))) (\<lambda>(h, n).
       lift_result (spec_code (ms_codes db) h n)))"
| "spec_call E db (Call_Get_State a k) =
     answering Slot (bindc (spec_access a (spec_read (\<lambda>v. Inr (za_root v)))) (\<lambda>root.
       lift_result (map_err WithKey (slot_value E db root k))))"
| "spec_call E db _ = lift_result (Inl Panic)"

section \<open>The relation\<close>

definition slots_rel :: "mem_store zk_env \<Rightarrow> mem_store \<Rightarrow> state_spec \<Rightarrow> (sh160 \<rightharpoonup> storage_cache) \<Rightarrow> bool" where
  "slots_rel E db S storages \<longleftrightarrow> (\<forall>a st. storages a = Some st \<longrightarrow> tc_dirty st = {} \<and>
     (\<exists>v. ss_accounts S a = Inr v \<and> tc_raw st = zk_new (za_root v) \<and>
       (\<forall>k w. tc_cache st k = Some w \<longrightarrow> slot_value E db (za_root v) k = Inr w)))"

definition state_rel :: "mem_store zk_env \<Rightarrow> mem_store \<Rightarrow> zk_trie \<Rightarrow> mem_store zk_trie_state \<Rightarrow> state_spec \<Rightarrow> bool" where
  "state_rel E db raw s S \<longleftrightarrow> zs_db s = db \<and> tc_raw (zs_acc_cache s) = raw \<and> account E s = ss_accounts S \<and>
     tc_dirty (zs_acc_cache s) = ss_dirty S \<and> finite (ss_dirty S) \<and> ss_dirty S \<subseteq> dom (tc_cache (zs_acc_cache s)) \<and>
     slots_rel E db S (zs_storages s)"

text \<open>A computation on states refines one on specifications.\<close>

definition refines ::
  "mem_store zk_env \<Rightarrow> mem_store \<Rightarrow> zk_trie \<Rightarrow> (mem_store zk_trie_state, 'e, 'o) comp \<Rightarrow> (state_spec, 'e, 'o) comp \<Rightarrow> bool" where
  "refines E db raw c d \<longleftrightarrow> (\<forall>s S. state_rel E db raw s S \<longrightarrow>
     fst (c s) = fst (d S) \<and> state_rel E db raw (snd (c s)) (snd (d S)))"

lemma refinesD:
  assumes "refines E db raw c d" "state_rel E db raw s S" "c s = (r, s')" "d S = (q, S')"
  shows "r = q" "state_rel E db raw s' S'"
proof -
  have "fst (c s) = fst (d S) \<and> state_rel E db raw (snd (c s)) (snd (d S))" using assms(1,2) unfolding refines_def by blast
  then show "r = q" "state_rel E db raw s' S'" using assms(3,4) by simp_all
qed

named_theorems refining \<open>a call refines its specification\<close>

lemma refines_return [refining]: "refines E db raw (returnc x) (returnc x)"
  by (simp add: refines_def)

lemma refines_bind [refining]:
  assumes "refines E db raw c d" "\<And>x. refines E db raw (f x) (g x)"
  shows "refines E db raw (bindc c f) (bindc d g)"
  unfolding refines_def
proof (intro allI impI)
  fix s S assume rel: "state_rel E db raw s S"
  obtain r s1 q S1 where run: "c s = (r, s1)" "d S = (q, S1)" by (metis prod.exhaust)
  note 1 = refinesD [OF assms(1) rel run]
  show "fst (bindc c f s) = fst (bindc d g S) \<and> state_rel E db raw (snd (bindc c f s)) (snd (bindc d g S))"
  proof (cases q)
    case (Inl e)
    then show ?thesis using run 1 by (simp add: bindc_def)
  next
    case (Inr x)
    then show ?thesis using run 1 assms(2) [of x] by (simp add: bindc_def refines_def)
  qed
qed

lemma refines_answering [refining]: "refines E db raw c d \<Longrightarrow> refines E db raw (answering g c) (answering g d)"
  unfolding answering_def by (intro refining)

lemma refines_lift [refining]: "refines E db raw (lift_result r) (lift_result r)"
  by (simp add: refines_def)

text \<open>An access through the cache.\<close>

lemma slots_rel_update:
  "slots_rel E db S st \<Longrightarrow> ss_accounts S a = Inr v \<Longrightarrow> za_root v' = za_root v \<Longrightarrow>
   slots_rel E db (S\<lparr>ss_accounts := (ss_accounts S)(a := Inr v'), ss_dirty := d\<rparr>) st"
  unfolding slots_rel_def by force

lemma refines_access:
  assumes f: "\<And>v. f (raw, v, False, db) = (case g v of (r, v', changed) \<Rightarrow> (r, (raw, v', changed, db)))"
    and root: "\<And>v. za_root (fst (snd (g v))) = za_root v"
  shows "refines E db raw (with_acc E a f) (spec_access a g)"
  unfolding refines_def
proof (intro allI impI)
  fix s S assume rel: "state_rel E db raw s S"
  show "fst (with_acc E a f s) = fst (spec_access a g S) \<and> state_rel E db raw (snd (with_acc E a f s)) (snd (spec_access a g S))"
  proof (cases "ss_accounts S a")
    case (Inl e)
    then show ?thesis using rel by (simp add: with_acc_account spec_access_def state_rel_def)
  next
    case (Inr v)
    obtain r v' d where g: "g v = (r, v', d)" by (metis prod.exhaust)
    have run: "run_ctx a v f (zs_acc_cache s, zs_db s) =
        (r, ((zs_acc_cache s)\<lparr>tc_raw := raw, tc_cache := (tc_cache (zs_acc_cache s))(a \<mapsto> v'),
           tc_dirty := (if d \<and> \<not> isl r then insert a (tc_dirty (zs_acc_cache s)) else tc_dirty (zs_acc_cache s))\<rparr>, db))"
      using rel f [of v] g by (cases r) (simp_all add: run_ctx_def state_rel_def Let_def)
    have acc: "account E s a = Inr v" using rel Inr by (simp add: state_rel_def)
    let ?s = "s\<lparr>zs_acc_cache := (zs_acc_cache s)\<lparr>tc_raw := raw, tc_cache := (tc_cache (zs_acc_cache s))(a \<mapsto> v'),
           tc_dirty := (if d \<and> \<not> isl r then insert a (tc_dirty (zs_acc_cache s)) else tc_dirty (zs_acc_cache s))\<rparr>, zs_db := db\<rparr>"
    have "account E ?s = (account E s)(a := Inr v')"
      using rel by (auto simp: account_def current_value_def state_rel_def fun_eq_iff cong: option.case_cong)
    then have "state_rel E db raw ?s (S\<lparr>ss_accounts := (ss_accounts S)(a := Inr v'),
        ss_dirty := (if d \<and> \<not> isl r then insert a (ss_dirty S) else ss_dirty S)\<rparr>)"
      using rel slots_rel_update [of E db S "zs_storages s" a v v'] root [of v] g Inr by (auto simp: state_rel_def)
    then show ?thesis using run acc g Inr by (simp add: with_acc_account spec_access_def)
  qed
qed

lemma refines_read: "refines E db raw (with_acc E a (read_acc g)) (spec_access a (spec_read (\<lambda>v. Inr (g v))))"
  by (rule refines_access) (simp_all add: read_acc_def spec_read_def)

lemma refines_balance:
  assumes "op = ze_add_assign E \<and> call = add_balance \<or> op = ze_sub_assign E \<and> call = sub_balance"
  shows "refines E db raw (call E a x) (spec_access a (\<lambda>v. spec_balance (op (za_balance v) x) v))"
proof -
  have "call E a x = with_acc E a (\<lambda>(raw, acc, dirty, db). case op (za_balance acc) x of
      Inl e \<Rightarrow> (Inl e, (raw, acc, True, db)) | Inr b \<Rightarrow> (Inr (), (raw, acc\<lparr>za_balance := b\<rparr>, True, db)))"
    using assms by (auto simp: add_balance_def sub_balance_def)
  then show ?thesis
    by (simp only:) (rule refines_access, auto simp: spec_balance_def split: sum.split)
qed

lemma refines_nonce: "refines E db raw (set_nonce E a x) (spec_access a (spec_nonce x))"
  unfolding set_nonce_def
  by (rule refines_access) (auto simp: spec_nonce_def as_u64_def zk_account_set_nonce_def)

lemma refines_exist: "refines E db raw (exist E a) (spec_access a (spec_read (zk_account_is_exist (ze_hasher E) (ze_keccak E))))"
  unfolding exist_def by (rule refines_access) (simp_all add: spec_read_def)

lemma refines_code:
  assumes "over_store H E"
  shows "refines E db raw (get_code E a)
    (bindc (spec_access a (spec_read (\<lambda>v. Inr (za_keccak_code_hash v, za_code_size v)))) (\<lambda>(h, n).
       lift_result (spec_code (ms_codes db) h n)))"
  unfolding get_code_def
proof (rule refines_bind [OF refines_read])
  fix hn :: "sh256 \<times> su256"
  obtain h n where hn: "hn = (h, n)" by (cases hn)
  have D: "ze_db E = prefix_db H u64_max_value" using assms by (simp add: over_store_def)
  show "refines E db raw
      (case hn of (code_hash, code_size) \<Rightarrow>
         if code_size = 0 then returnc []
         else (\<lambda>s. case db_get_code (ze_db E) code_hash (zs_db s) of
            (Some code, db) \<Rightarrow> (Inr code, s\<lparr>zs_db := db\<rparr>)
          | (None, db) \<Rightarrow> (Inl (Fail (CodeNotFound code_hash)), s\<lparr>zs_db := db\<rparr>)))
      (case hn of (h, n) \<Rightarrow> lift_result (spec_code (ms_codes db) h n))"
    by (auto simp: refines_def hn spec_code_def D prefix_db_def mem_get_code_def state_rel_def returnc_def split: option.split)
qed

text \<open>A slot is read through its own cache, which was opened at the storage root of the account.\<close>

lemma slots_rel_open:
  assumes "slots_rel E db S storages" "ss_accounts S a = Inr v" "tc_dirty st = {}" "tc_raw st = zk_new (za_root v)"
    and "\<And>k w. tc_cache st k = Some w \<Longrightarrow> slot_value E db (za_root v) k = Inr w"
  shows "slots_rel E db S (storages(a \<mapsto> st))"
  unfolding slots_rel_def
proof (intro allI impI)
  fix b st' assume b: "(storages(a \<mapsto> st)) b = Some st'"
  show "tc_dirty st' = {} \<and> (\<exists>v. ss_accounts S b = Inr v \<and> tc_raw st' = zk_new (za_root v) \<and>
      (\<forall>k w. tc_cache st' k = Some w \<longrightarrow> slot_value E db (za_root v) k = Inr w))"
  proof (cases "b = a")
    case True
    then show ?thesis using b assms(2-5) by simp
  next
    case False
    then have "storages b = Some st'" using b by simp
    then show ?thesis using assms(1) unfolding slots_rel_def by blast
  qed
qed

lemma slots_relD:
  assumes "slots_rel E db S storages" "storages a = Some st" "ss_accounts S a = Inr v"
  shows "tc_dirty st = {}" "tc_raw st = zk_new (za_root v)" "tc_cache st k = Some w \<Longrightarrow> slot_value E db (za_root v) k = Inr w"
proof -
  from assms(1,2) obtain u where u: "tc_dirty st = {}" "ss_accounts S a = Inr u" "tc_raw st = zk_new (za_root u)"
    "\<forall>k w. tc_cache st k = Some w \<longrightarrow> slot_value E db (za_root u) k = Inr w"
    unfolding slots_rel_def by blast
  then have "u = v" using assms(3) by simp
  with u show "tc_dirty st = {}" "tc_raw st = zk_new (za_root v)" "tc_cache st k = Some w \<Longrightarrow> slot_value E db (za_root v) k = Inr w"
    by simp_all
qed

lemma get_state_step:
  assumes rel: "state_rel E db raw s S" and v: "ss_accounts S a = Inr v"
  shows "fst (get_state E a k s) = map_err WithKey (slot_value E db (za_root v) k)" (is ?res)
    and "state_rel E db raw (snd (get_state E a k s)) (snd (spec_access a (spec_read (\<lambda>v. Inr (za_root v))) S))" (is ?rel)
proof -
  obtain r1 s1 q1 S1 where step1: "with_acc E a (read_acc za_root) s = (r1, s1)"
    "spec_access a (spec_read (\<lambda>v. Inr (za_root v))) S = (q1, S1)" by (metis prod.exhaust)
  note 1 = refinesD [OF refines_read rel step1]
  have q1: "r1 = Inr (za_root v)" "ss_accounts S1 a = Inr v"
    using step1(2) v 1(1) by (auto simp: spec_access_def spec_read_def)
  let ?st = "case zs_storages s1 a of Some st \<Rightarrow> st | None \<Rightarrow> trie_cache_new (zk_new (za_root v))"
  have st: "tc_dirty ?st = {}" "tc_raw ?st = zk_new (za_root v)"
    "\<And>k w. tc_cache ?st k = Some w \<Longrightarrow> slot_value E db (za_root v) k = Inr w"
  proof -
    have rel1: "slots_rel E db S1 (zs_storages s1)" using 1(2) by (simp add: state_rel_def)
    note opened = slots_relD [OF rel1 _ q1(2)]
    show "tc_dirty ?st = {}" "tc_raw ?st = zk_new (za_root v)"
      by (simp_all add: trie_cache_new_def opened split: option.split)
    show "tc_cache ?st k = Some w \<Longrightarrow> slot_value E db (za_root v) k = Inr w" for k w
      using opened(3) by (cases "zs_storages s1 a") (auto simp: trie_cache_new_def)
  qed
  have new: "tt_new_root (env_trie E) t r = zk_new r" for t r by (simp add: linea_trie_def linea_trie_new_root_def)
  let ?s2 = "s1\<lparr>zs_storages := (zs_storages s1)(a \<mapsto> ?st)\<rparr>"
  have s2: "(case zs_storages s1 a of Some _ \<Rightarrow> s1
      | None \<Rightarrow> s1\<lparr>zs_storages := (zs_storages s1)(a \<mapsto> trie_cache_new (tt_new_root (env_trie E) (tc_raw (zs_acc_cache s1)) (za_root v)))\<rparr>) = ?s2"
    by (cases "zs_storages s1 a") (simp_all add: new fun_upd_idem)
  have rel2: "state_rel E db raw (s1\<lparr>zs_storages := (zs_storages s1)(a \<mapsto> st')\<rparr>) S1"
    if "tc_dirty st' = {}" "tc_raw st' = zk_new (za_root v)" "\<And>k w. tc_cache st' k = Some w \<Longrightarrow> slot_value E db (za_root v) k = Inr w" for st'
    using 1(2) slots_rel_open [OF _ q1(2) that] by (auto simp: state_rel_def account_def)
  have db: "zs_db s1 = db" using 1(2) by (simp add: state_rel_def)
  have same: "s1\<lparr>zs_storages := m, zs_db := db\<rparr> = s1\<lparr>zs_storages := m\<rparr>" for m using db by (cases s1) auto
  have root: "trie_cache_root_hash (env_trie E) ?st = za_root v"
    by (simp add: trie_cache_root_hash_def linea_trie_def linea_trie_root_hash_def zk_top_root_hash_def st(2) zk_new_def smt_new_def)
  have cur: "current_value (env_trie E) (storage_value_enc (ze_rlp E)) word_bytes ?st db k = slot_value E db (za_root v) k"
    using st by (auto simp: current_value_def slot_value_def split: option.split)
  have "?res \<and> ?rel"
  proof (cases "slot_value E db (za_root v) k")
    case (Inl e)
    have "get_state E a k s = (map_err WithKey (Inl e), ?s2)"
      unfolding get_state_def with_storage_def
      by (cases e) (simp_all add: bindc_def step1(1) q1(1) s2 Let_def root linea_cached.with_key_current db cur Inl)
    then show ?thesis using Inl rel2 [OF st] step1(2) by (simp add: same)
  next
    case (Inr w)
    let ?st' = "?st\<lparr>tc_cache := (tc_cache ?st)(k \<mapsto> w)\<rparr>"
    have "get_state E a k s = (Inr w, s1\<lparr>zs_storages := (zs_storages s1)(a \<mapsto> ?st'), zs_db := db\<rparr>)"
      unfolding get_state_def with_storage_def
      by (simp add: bindc_def step1(1) q1(1) s2 Let_def root linea_cached.with_key_current db cur Inr run_ctx_def
          trie_cache_is_dirty_def st(1))
    moreover have "state_rel E db raw (s1\<lparr>zs_storages := (zs_storages s1)(a \<mapsto> ?st')\<rparr>) S1"
      by (rule rel2) (use st Inr in \<open>auto split: if_splits\<close>)
    ultimately show ?thesis using Inr step1(2) by (simp add: same)
  qed
  then show ?res ?rel by blast+
qed

lemma refines_slot:
  "refines E db raw (get_state E a k)
     (bindc (spec_access a (spec_read (\<lambda>v. Inr (za_root v)))) (\<lambda>root. lift_result (map_err WithKey (slot_value E db root k))))"
  unfolding refines_def
proof (intro allI impI)
  fix s S assume rel: "state_rel E db raw s S"
  show "fst (get_state E a k s) = fst (bindc (spec_access a (spec_read (\<lambda>v. Inr (za_root v))))
        (\<lambda>root. lift_result (map_err WithKey (slot_value E db root k))) S) \<and>
      state_rel E db raw (snd (get_state E a k s)) (snd (bindc (spec_access a (spec_read (\<lambda>v. Inr (za_root v))))
        (\<lambda>root. lift_result (map_err WithKey (slot_value E db root k))) S))"
  proof (cases "ss_accounts S a")
    case (Inl e)
    then have "account E s a = Inl e" using rel by (simp add: state_rel_def)
    then have "get_state E a k s = (map_err WithKey (Inl e), s)"
      by (cases e) (simp_all add: get_state_def with_storage_def bindc_def with_acc_account)
    then show ?thesis using rel Inl by (cases e) (simp_all add: bindc_def spec_access_def)
  next
    case (Inr v)
    note step = get_state_step [OF rel Inr, of k]
    have "spec_access a (spec_read (\<lambda>v. Inr (za_root v))) S =
        (Inr (za_root v), snd (spec_access a (spec_read (\<lambda>v. Inr (za_root v))) S) :: state_spec)"
      using Inr by (simp add: spec_access_def spec_read_def)
    from bindc_ok [where f = "\<lambda>root. lift_result (map_err WithKey (slot_value E db root k))" and s = S
        and c = "spec_access a (spec_read (\<lambda>v. Inr (za_root v)))", OF this] step show ?thesis by simp
  qed
qed

lemma refines_unreachable: "refines E db raw (answering g (lift_result (Inl Panic))) (lift_result (Inl Panic))"
  by (simp add: refines_def answering_def bindc_def)

lemma refines_call: "over_store H E \<Longrightarrow> refines E db raw (run_call E c) (spec_call E db c)"
  by (cases c)
    (auto intro!: refines_answering refines_balance refines_nonce refines_exist refines_code refines_slot refines_unreachable refines_read
      simp: get_balance_def get_nonce_def get_account_basic_def unreachable_methods)

section \<open>Clients\<close>

text \<open>The interface that the EVM relies on: every call follows its specification.\<close>

locale state_interface =
  fixes call :: "state_call \<Rightarrow> ('t, statedb_error, answer) comp" and spec :: "state_call \<Rightarrow> ('u, statedb_error, answer) comp"
    and rel :: "'t \<Rightarrow> 'u \<Rightarrow> bool"
  assumes call_follows: "rel s S \<Longrightarrow> call c s = (r, s') \<Longrightarrow> spec c S = (q, S') \<Longrightarrow> r = q \<and> rel s' S'"
begin

lemma client_follows:
  fixes r q :: "('e, 'r) result"
  shows "rel s S \<Longrightarrow> run_client call c s = (r, s') \<Longrightarrow> run_client spec c S = (q, S') \<Longrightarrow> r = q \<and> rel s' S'"
proof (induction c arbitrary: s S)
  case (Ask c k)
  obtain o1 s1 o2 S1 where run: "call c s = (o1, s1)" "spec c S = (o2, S1)" by (metis prod.exhaust)
  note step = call_follows [OF Ask.prems(1) run]
  show ?case
  proof (cases o2)
    case (Inl e)
    then show ?thesis
      using Ask.prems(2,3) run step by (cases e) (auto dest: Ask.IH [OF rangeI, of s1 S1])
  next
    case (Inr x)
    then show ?thesis using Ask.prems(2,3) run step by (auto dest: Ask.IH [OF rangeI, of s1 S1])
  qed
qed simp

end

lemma zk_state_interface: "over_store H E \<Longrightarrow> state_interface (run_call E) (spec_call E db) (state_rel E db raw)"
proof (rule state_interface.intro)
  fix s S c r s' q S'
  assume over: "over_store H E" and run: "state_rel E db raw s S" "run_call E c s = (r, s')" "spec_call E db c S = (q, S')"
  show "r = q \<and> state_rel E db raw s' S'" using refinesD [OF refines_call [OF over] run] by (rule conjI)
qed

text \<open>The zk trie's state database over the store of a block provides it.\<close>

definition block_env :: "hasher \<Rightarrow> mem_store zk_env \<Rightarrow> mem_store zk_env" where
  "block_env H E = E\<lparr>ze_hasher := H, ze_db := prefix_db H u64_max_value\<rparr>"

lemma over_store_block_env: "over_store H (block_env H E)" "over_store H E \<Longrightarrow> block_env H E = E"
  by (cases E; simp add: over_store_def block_env_def)+

interpretation zk_state: state_interface "run_call (block_env H E)" "spec_call (block_env H E) db" "state_rel (block_env H E) db raw"
  for H E db raw
  by (rule zk_state_interface [OF over_store_block_env(1)])

section \<open>The state database is a map of accounts\<close>

text \<open>C3: between two flushes the state database is a map of accounts with a set of changed
  addresses. From a fresh state, every client of it, whatever it asks and however it goes on after
  answers and errors, gets exactly the answers of the specification and ends as it does over the
  specification; the accounts and the changed addresses are those of the specification, and
  neither the trie nor the store has changed. The decoded value of a slot is that of its trie at
  the storage root of its account.\<close>

theorem state_is_account_map:
  assumes "over_store H E" "zs_acc_cache s = trie_cache_new raw" "zs_storages s = Map.empty"
  shows "case run_client (run_call E) c s of (r :: ('e, 'r) result, s') \<Rightarrow>
    case run_client (spec_call E (zs_db s)) c \<lparr>ss_accounts = account E s, ss_dirty = {}\<rparr> of (q, S) \<Rightarrow>
      r = q \<and> account E s' = ss_accounts S \<and> tc_dirty (zs_acc_cache s') = ss_dirty S \<and>
      tc_raw (zs_acc_cache s') = raw \<and> zs_db s' = zs_db s"
proof -
  let ?S = "\<lparr>ss_accounts = account E s, ss_dirty = {}\<rparr>"
  have rel: "state_rel E (zs_db s) raw s ?S"
    using assms(2,3) by (simp add: state_rel_def slots_rel_def trie_cache_new_def)
  obtain r q :: "('e, 'r) result" and s' S where run:
    "run_client (run_call E) c s = (r, s')" "run_client (spec_call E (zs_db s)) c ?S = (q, S)" by (metis prod.exhaust)
  from zk_state.client_follows [of H E, unfolded over_store_block_env(2) [OF assms(1)], OF rel run] run show ?thesis
    by (simp add: state_rel_def)
qed

text \<open>
  The witness pays out half of a balance, so its second call depends on the first answer, and goes
  on after a code that is not there.
\<close>

definition toy_client :: "(su256 \<times> bool) client" where
  "toy_client = Ask (Call_Get_Balance 9) (\<lambda>r. case r of
     Inr (Balance b) \<Rightarrow> Ask (Call_Sub_Balance 9 (b div 2)) (\<lambda>_. Ask (Call_Get_Code 9) (\<lambda>r.
       Ask (Call_Set_Nonce 9 4) (\<lambda>_. Return (b, isl r))))
   | _ \<Rightarrow> Return (0, False))"

theorem state_is_account_map_witness:
  "\<exists>db s s'. poe_v2_store toy_hash (\<lambda>_. 7) (\<lambda>_. []) toy_block_traces [] [] = Inr db \<and>
     new_from_trace toy_hash db (hd toy_block_traces) = (Inr s :: (string, mem_store zk_trie_state) result) \<and>
     run_client (run_call toy_env) toy_client s = ((Inr (40, True) :: (string, su256 \<times> bool) result), s') \<and>
     account toy_env s' 9 = Inr (toy_account\<lparr>za_balance := 20, za_nonce := 4\<rparr>) \<and> tc_dirty (zs_acc_cache s') = {9}"
proof -
  obtain st where st: "mem_store_from_traces toy_hash toy_block_traces = Inr st"
    using toy.from_traces_ok [OF _ toy_block(1,2)] by (auto simp: toy_block_traces_def)
  then have db: "poe_v2_store toy_hash (\<lambda>_. 7) (\<lambda>_. []) toy_block_traces [] [] = Inr (mem_add_codes (\<lambda>_. 7) [] st)"
    by (simp add: poe_v2_store_def)
  let ?db = "mem_add_codes (\<lambda>_. 7) [] st" and ?top = "zk_new (trace_top toy_hash (hd toy_block_traces))"
  let ?s = "\<lparr>zs_db = ?db, zs_acc_cache = trie_cache_new ?top, zs_storages = Map.empty\<rparr>"
  have s: "new_from_trace toy_hash ?db (hd toy_block_traces) = (Inr ?s :: (string, mem_store zk_trie_state) result)"
    by (simp add: new_from_trace_def toy.node_top_node_ok trace_top_def split: prod.split)
  have tells: "tells toy_hash toy_block_traces ?db"
    by (rule poe_v2_store_tells(1) [OF toy_trie_hasher db toy_block(1,2)])
  have no_code: "ms_codes ?db h = None" for h
    using from_traces_tells(2) [OF toy_trie_hasher st toy_block(1,2)] by (simp add: add_codes_lookup)
  have acc: "account toy_env ?s 9 = Inr toy_account"
    using account_told [OF tells toy_block(3,4) _ _ _ toy_block(5), of ?s] toy_account_decoded
    by (simp add: trie_cache_new_def toy_read_trace_def)
  have toy: "ze_sub_assign toy_env x y = Inr (x - y)" "za_balance toy_account = 40" "za_nonce toy_account = 3"
    "za_keccak_code_hash toy_account = 7" "za_code_size toy_account = 3" for x y
    by (simp_all add: toy_env_def toy_account_def)
  have "run_client (spec_call toy_env ?db) toy_client \<lparr>ss_accounts = account toy_env ?s, ss_dirty = {}\<rparr> =
      ((Inr (40, True) :: (string, su256 \<times> bool) result),
       \<lparr>ss_accounts = (account toy_env ?s)(9 := Inr (toy_account\<lparr>za_balance := 20, za_nonce := 4\<rparr>)), ss_dirty = {9}\<rparr>)"
    by (simp add: toy_client_def answering_def bindc_def returnc_def spec_access_def spec_balance_def spec_nonce_def spec_read_def
        spec_code_def no_code acc toy)
  moreover obtain r :: "(string, su256 \<times> bool) result" and s' where run: "run_client (run_call toy_env) toy_client ?s = (r, s')"
    by (metis prod.exhaust)
  moreover note state_is_account_map [OF toy_block(3), of ?s ?top toy_client, where 'e = string]
  ultimately show ?thesis using db s by simp
qed

end
