(* ===== verification/Store_Integrity.thy ===== *)
theory Store_Integrity
  imports Zk_Proving Trie_Properties
begin

text \<open>
  The store of \<open>storage.rs\<close> is addressed by content: whatever sequence of operations the prover
  runs on it, successful or not, every node lies under the hash of its own value. Reachable
  stores are given by an inductive predicate over all operations that write.
\<close>

section \<open>Nodes under their hash\<close>

definition nodes_ok :: "hasher \<Rightarrow> (sh256 \<rightharpoonup> node) \<Rightarrow> bool" where
  "nodes_ok H m \<longleftrightarrow> (\<forall>h n. m h = Some n \<longrightarrow> nd_hash n = h \<and> node_wf H n)"

abbreviation store_ok :: "hasher \<Rightarrow> mem_store \<Rightarrow> bool" where
  "store_ok H s \<equiv> nodes_ok H (ms_nodes s)"

lemma nodes_ok_upd: "nodes_ok H m \<Longrightarrow> node_wf H n \<Longrightarrow> nodes_ok H (m(nd_hash n \<mapsto> n))"
  by (simp add: nodes_ok_def)

text \<open>The hash of a value does not depend on the type of errors around it.\<close>

lemma node_value_hash_any:
  "node_value_hash H v = (Inr h :: ('e, sh256) result) \<Longrightarrow> node_value_hash H v = (Inr h :: ('f, sh256) result)"
  by (cases v)
    (auto simp: node_value_hash_def node_value_to_bytes_def zk_hash_def bind_result_ok_iff split: if_splits)

lemma node_new_wf: "node_new H v = (Inr n :: ('e, node) result) \<Longrightarrow> node_wf H n"
  by (auto simp: node_new_def node_wf_def bind_result_ok_iff intro: node_value_hash_any)

lemma node_constructors_wf:
  "node_raw_branch H l r = (Inr n :: ('e, node) result) \<Longrightarrow> node_wf H n"
  "node_top_node H k r = (Inr n :: ('e, node) result) \<Longrightarrow> node_wf H n"
  "node_raw_branch_auto H d l r = (Inr n :: ('e, node) result) \<Longrightarrow> node_wf H n"
  "node_leaf H p v = (Inr n :: ('e, node) result) \<Longrightarrow> node_wf H n"
  "node_next_free_node H k = (Inr n :: ('e, node) result) \<Longrightarrow> node_wf H n"
  "node_empty_leaf H = (Inr n :: ('e, node) result) \<Longrightarrow> node_wf H n"
  unfolding node_raw_branch_def node_top_node_def node_branch_def node_raw_branch_auto_def node_leaf_def
    node_next_free_node_def node_empty_leaf_def
  by (auto dest: node_new_wf split: if_splits)

lemma insert_nodes_ok: "nodes_ok H m \<Longrightarrow> \<forall>n\<in>set ns. node_wf H n \<Longrightarrow> nodes_ok H (insert_nodes ns m)"
  by (induction ns arbitrary: m) (simp_all add: nodes_ok_upd)

section \<open>Writes of the tries\<close>

lemma keeps_bindc_lift:
  "(\<And>x. r = Inr x \<Longrightarrow> keeps I (f x)) \<Longrightarrow> keeps I (bindc (lift_result r) f)"
  by (cases r) (auto simp: keeps_def)

lemma keeps_store_update:
  "node_wf H n \<Longrightarrow> keeps (store_ok H) (db_update_node (prefix_db H p) (nd_hash n) n)"
  "node_wf H n \<Longrightarrow> keeps (store_ok H) (db_add (prefix_db H p) n)"
  by (auto simp: keeps_def db_add_def prefix_db_def mem_update_node_def nodes_ok_upd)

lemma index_keeps_nodes [simp]:
  "ms_nodes (db_update_index (prefix_db H p) k fl s) = ms_nodes s"
  "ms_nodes (db_remove_index (prefix_db H p) k s) = ms_nodes s"
  by (simp_all add: prefix_db_def mem_update_index_def mem_remove_index_def)

lemma keeps_store_add_leaf: "keeps (store_ok H) (smt_add_leaf H (prefix_db H p) lvl h path v)"
proof (induction "42 - lvl" arbitrary: lvl h rule: less_induct)
  case less
  have IH: "lvl < 42 \<Longrightarrow> keeps (store_ok H) (smt_add_leaf H (prefix_db H p) (Suc lvl) c path v)" for c
    by (rule less) simp
  have new: "keeps (store_ok H) (bindc (lift_result (node_new H w)) (db_add (prefix_db H p)))"
    "keeps (store_ok H) (bindc (lift_result (node_leaf H q w')) (db_add (prefix_db H p)))" for w q w'
    by (auto intro!: keeps_bindc_lift keeps_store_update dest: node_new_wf node_constructors_wf)
  show ?case
    by (subst smt_add_leaf.simps)
      (auto simp: zk_trie_depth_def split: option.split node_value.split intro!: new keeps_bindc keeps_basic IH)
qed

lemma keeps_store_remove_leaf: "keeps (store_ok H) (smt_remove_leaf H (prefix_db H p) lvl h path)"
proof (induction "42 - lvl" arbitrary: lvl h rule: less_induct)
  case less
  have IH: "lvl < 42 \<Longrightarrow> keeps (store_ok H) (smt_remove_leaf H (prefix_db H p) (Suc lvl) c path)" for c
    by (rule less) simp
  have new: "keeps (store_ok H) (bindc (lift_result (node_new H w)) (db_add (prefix_db H p)))" for w
    by (auto intro!: keeps_bindc_lift keeps_store_update dest: node_new_wf node_constructors_wf)
  show ?case
    by (subst smt_remove_leaf.simps)
      (auto simp: zk_trie_depth_def split: option.split node_value.split intro!: new keeps_bindc keeps_basic IH)
qed

abbreviation trie_store_ok :: "hasher \<Rightarrow> 't \<times> mem_store \<Rightarrow> bool" where
  "trie_store_ok H \<equiv> \<lambda>(t, s). store_ok H s"

lemma keeps_store_on_db: "keeps (store_ok H) c \<Longrightarrow> keeps (trie_store_ok H) (on_db c)"
  by (force simp: keeps_def on_db_def split: prod.split)

lemma keeps_store_set_next_free: "keeps (trie_store_ok H) (smt_set_next_free_node H (prefix_db H p) k)"
  unfolding smt_set_next_free_node_def
  by (auto intro!: keeps_bindc [where c = "readc _"] keeps_bindc_lift keeps_basic keeps_bindc [where c = "on_db _"]
      keeps_store_on_db keeps_store_update keeps_modifyc dest: node_constructors_wf)

lemma keeps_store_writes:
  "keeps (trie_store_ok H) (smt_put H (prefix_db H p) path v)"
  "keeps (trie_store_ok H) (smt_remove H (prefix_db H p) path)"
  "keeps (trie_store_ok H) (zk_increment_next_free H (prefix_db H p))"
  "keeps (trie_store_ok H) (zk_parse_leaf_at (prefix_db H p) path)"
  "keeps (trie_store_ok H) (modifyc (apsnd (db_update_index (prefix_db H p) k fl)))"
  "keeps (trie_store_ok H) (modifyc (apsnd (db_remove_index (prefix_db H p) k)))"
  unfolding smt_put_def smt_remove_def zk_increment_next_free_def zk_parse_leaf_at_def Let_def
  by (auto intro!: keeps_bindc keeps_basic keeps_modifyc keeps_store_on_db keeps_store_add_leaf keeps_store_remove_leaf
      keeps_store_set_next_free)

lemma keeps_store_put: "keeps (trie_store_ok H) (zk_put H (prefix_db H p) key val)"
  unfolding zk_put_def zk_put_absent_def zk_put_present_def zk_nearest_keys_def Let_def
  by (auto intro!: keeps_bindc keeps_basic keeps_store_writes split: option.split)

lemma keeps_store_remove: "keeps (trie_store_ok H) (zk_remove H (prefix_db H p) key)"
  unfolding zk_remove_def zk_remove_found_def zk_nearest_keys_def Let_def
  by (auto intro!: keeps_bindc keeps_basic keeps_store_writes split: option.split)

lemma keeps_store_head_and_tail: "keeps (trie_store_ok H) (zk_set_head_and_tail H (prefix_db H p))"
  unfolding zk_set_head_and_tail_def by (auto intro!: keeps_bindc keeps_basic keeps_store_writes)

lemma keeps_unwrapc: "keeps I c \<Longrightarrow> keeps I (unwrapc c)"
  by (auto simp: keeps_def unwrapc_def split: prod.split)

lemma keeps_store_update_loop: "keeps (trie_store_ok H) (linea_trie_update_loop H K (prefix_db H p) us rs)"
proof (induction us arbitrary: rs)
  case (Cons u us)
  obtain item data where u: "u = (item, data)" by fastforce
  show ?case
    unfolding u linea_trie_update_loop.simps
    by (auto intro!: keeps_bindc keeps_basic keeps_unwrapc keeps_store_put keeps_store_remove Cons)
qed (simp add: keeps_basic)

section \<open>Proofs and traces\<close>

lemma add_proof_loop_wf:
  "add_proof_loop H path sibs m k h out = Inr (h', out') \<Longrightarrow> \<forall>n\<in>set out. node_wf H n \<Longrightarrow> \<forall>n\<in>set out'. node_wf H n"
proof (induction k arbitrary: h out)
  case (Suc k)
  then show ?case
    by (auto simp: bind_result_ok_iff dest!: Suc.IH dest: node_new_wf node_constructors_wf)
qed simp

lemma add_proof_nodes_wf:
  assumes "add_proof_nodes H idx sibs = Inr (root, out)"
  shows "\<forall>n\<in>set out. node_wf H n"
proof -
  obtain v path ss k h h' ns where "node_new H v = (Inr root :: (zk_error, node) result)"
    "add_proof_loop H path ss k k h [] = Inr (h', ns)" "out = ns @ [root]"
    using assms by (auto simp: add_proof_nodes_def bind_result_ok_iff Let_def split: if_splits prod.splits)
  with add_proof_loop_wf [OF this(2)] node_new_wf [OF this(1)] show ?thesis by simp
qed

lemma mem_add_proof_nodes:
  "ms_nodes (snd (mem_add_proof H p idx hkey v sibs s)) =
     (case add_proof_nodes H idx sibs :: (zk_error, node \<times> node list) result of
        Inl e \<Rightarrow> ms_nodes s | Inr (root, out) \<Rightarrow> insert_nodes out (ms_nodes s))"
  by (auto simp: mem_add_proof_def bindc_def Let_def split: sum.split prod.split option.split)

lemma add_proof_ok: "store_ok H s \<Longrightarrow> store_ok H (snd (mem_add_proof H p idx hkey v sibs s))"
  unfolding mem_add_proof_nodes using add_proof_nodes_wf by (auto intro: insert_nodes_ok split: sum.split)

lemma build_nodes_loop_wf:
  "build_nodes_loop H path n idx sibs root out = (Inr ns :: ('e, node list) result) \<Longrightarrow> node_wf H root \<Longrightarrow>
   \<forall>n\<in>set out. node_wf H n \<Longrightarrow> \<forall>n\<in>set ns. node_wf H n"
proof (induction sibs arbitrary: idx root out)
  case (Cons s sibs)
  then show ?case
    by (auto simp: bind_result_ok_iff split: if_splits dest!: Cons.IH dest: node_constructors_wf)
qed auto

lemma empty_leaf_wf [simp]: "node_wf H (empty_node H 0)"
  using node_constructors_wf(6) [OF node_empty_leaf_ok] .

lemma build_nodes_wf:
  "trace_proof_build_nodes H pf l = (Inr ns :: ('e, node list) result) \<Longrightarrow> \<forall>n\<in>set ns. node_wf H n"
  by (auto simp: trace_proof_build_nodes_def bind_result_ok_iff split: option.splits
      dest!: build_nodes_loop_wf dest: node_constructors_wf)

lemma trace_to_nodes_wf: "trace_to_nodes H tr = (Inr ns :: ('e, node list) result) \<Longrightarrow> \<forall>n\<in>set ns. node_wf H n"
  by (cases tr) (auto simp: bind_result_ok_iff dest!: build_nodes_wf)

lemma trace_nodes_loop_wf:
  "trace_nodes_loop H traces m = (Inr m' :: ('e, sh256 \<rightharpoonup> node) result) \<Longrightarrow> nodes_ok H m \<Longrightarrow> nodes_ok H m'"
proof (induction traces arbitrary: m)
  case (Cons tr traces)
  then obtain nf root ns where "node_next_free_node H (fst (trace_old_state tr)) = (Inr nf :: ('e, node) result)"
    "node_raw_branch H (nd_hash nf) (snd (trace_old_state tr)) = (Inr root :: ('e, node) result)"
    "trace_to_nodes H tr = (Inr ns :: ('e, node list) result)"
    "trace_nodes_loop H traces (insert_nodes ns (m(nd_hash root \<mapsto> root, nd_hash nf \<mapsto> nf))) = (Inr m' :: ('e, sh256 \<rightharpoonup> node) result)"
    by (auto simp: bind_result_ok_iff split: prod.splits)
  with Cons show ?case
    by (meson insert_nodes_ok nodes_ok_upd node_constructors_wf trace_to_nodes_wf)
qed simp

lemma from_traces_store_ok: "mem_store_from_traces H traces = Inr s \<Longrightarrow> store_ok H s"
  by (auto simp: mem_store_from_traces_def bind_result_ok_iff trace_nodes_def nodes_ok_def [of H Map.empty]
      dest: trace_nodes_loop_wf)

section \<open>Reachable stores\<close>

text \<open>
  The stores that the prover can have: new or made of traces, and changed by operations on any
  trie over them, by added proofs and codes, and by flushing a state database. The outcome of an
  operation does not matter: what a failing one wrote stays.
\<close>

inductive reachable_store :: "hasher \<Rightarrow> mem_store \<Rightarrow> bool" for H where
  new_store: "reachable_store H mem_store_new"
| from_traces: "mem_store_from_traces H traces = Inr s \<Longrightarrow> reachable_store H s"
| new_trie: "reachable_store H s \<Longrightarrow> zk_empty H (prefix_db H p) s = (r, s') \<Longrightarrow> reachable_store H s'"
| put: "reachable_store H s \<Longrightarrow> zk_put H (prefix_db H p) key val (t, s) = (r, (t', s')) \<Longrightarrow> reachable_store H s'"
| remove: "reachable_store H s \<Longrightarrow> zk_remove H (prefix_db H p) key (t, s) = (r, (t', s')) \<Longrightarrow> reachable_store H s'"
| add_proof: "reachable_store H s \<Longrightarrow> mem_add_proof H p idx hkey value siblings s = (r, s') \<Longrightarrow> reachable_store H s'"
| add_codes: "reachable_store H s \<Longrightarrow> reachable_store H (mem_add_codes K codes s)"
| flush: "reachable_store H (zs_db z) \<Longrightarrow> ze_hasher E = H \<Longrightarrow> ze_db E = prefix_db H p \<Longrightarrow> flush E z = (r, z') \<Longrightarrow>
    reachable_store H (zs_db z')"

lemma cache_flush_db:
  assumes "\<And>us. keeps (\<lambda>(t, d). I d) (tt_update T us)" "I d"
  shows "I (snd (snd (trie_cache_flush T V as_ref (c, d))))"
proof -
  have "I (snd (snd (tt_update T us (tc_raw c, d))))" for us
    using keepsD [OF assms(1), of "(tc_raw c, d)" us] assms(2) by (simp add: case_prod_beta)
  then show ?thesis
    using assms(2)
    by (auto simp: trie_cache_flush_def Let_def case_prod_unfold split: sum.split)
qed

lemma zk_empty_store_ok: "store_ok H s \<Longrightarrow> store_ok H (snd (zk_empty H (prefix_db H p) s))"
  using keepsD [OF keeps_store_head_and_tail, of H "(t, s)" p for t]
  by (auto simp: zk_empty_def split: sum.split prod.split) (metis (no_types, lifting) case_prod_conv snd_conv)+

lemma reachable_store_nodes: "reachable_store H s \<Longrightarrow> store_ok H s"
proof (induction rule: reachable_store.induct)
  case new_store
  then show ?case by (simp add: mem_store_new_def nodes_ok_def)
next
  case (from_traces traces s)
  then show ?case by (rule from_traces_store_ok)
next
  case (new_trie s p r s')
  then show ?case using zk_empty_store_ok [of H s p] by simp
next
  case (put s p key val t r t' s')
  then show ?case using keepsD [OF keeps_store_put, of H "(t, s)" p key val] by simp
next
  case (remove s p key t r t' s')
  then show ?case using keepsD [OF keeps_store_remove, of H "(t, s)" p key] by simp
next
  case (add_proof s p idx hkey v sibs r s')
  then show ?case using add_proof_ok [of H s p idx hkey v sibs] by simp
next
  case (flush z E p r z')
  have "store_ok H (snd (snd (trie_cache_flush (env_trie E) (env_account E) sh160_bytes (zs_acc_cache z, zs_db z))))"
    by (rule cache_flush_db)
      (use flush in \<open>simp_all add: linea_trie_def linea_trie_update_def keeps_store_update_loop\<close>)
  then show ?case
    using flush(4) by (auto simp: flush_def Let_def split: prod.splits sum.splits failure.splits)
qed simp

section \<open>Integrity\<close>

text \<open>C14: in every store that the prover can reach, whatever operations ran and however they ended, a node
  that is found under a hash has this hash, and the hash is that of its value. So a walk down from
  a root hash can only see what the root commits to, up to collisions of the hash function.\<close>

theorem nodes_under_their_hash:
  assumes "trie_hasher H" "reachable_store H s" "mem_get_node H s h = Inr (Some n)"
  shows "nd_hash n = h \<and> node_value_hash H (nd_raw n) = (Inr h :: (zk_error, sh256) result) \<and> consistent (mem_view H s)"
proof -
  have ok: "store_ok H s" using assms(2) by (rule reachable_store_nodes)
  have wf: "node_wf H (empty_world_root H)"
    using trie_hasher.node_wf_branch [OF assms(1), of "\<lparr>br_left = 0, br_right = empty_hash H 40\<rparr>"]
    by (simp add: empty_world_root_def)
  have "empty_nodes H h = Some n \<or> ms_nodes s h = Some n"
    using assms(3) by (auto simp: trie_hasher.mem_get_node_view [OF assms(1)] mem_view_def map_add_Some_iff)
  then have "nd_hash n = h \<and> node_wf H n"
  proof
    assume e: "empty_nodes H h = Some n"
    then have "node_wf H n"
      using wf trie_hasher.node_wf_empty_node [OF assms(1)] by (auto dest: empty_nodes_cases)
    with e show ?thesis by (auto dest: empty_nodes_hash)
  qed (use ok in \<open>simp add: nodes_ok_def\<close>)
  moreover have "consistent (mem_view H s)"
    using ok by (intro consistent_mem_view) (simp add: consistent_def nodes_ok_def)
  ultimately show ?thesis by (simp add: node_wf_def)
qed

theorem nodes_under_their_hash_witness:
  "\<exists>s r t s'. mem_store_from_traces toy_hash [toy_update_trace] = Inr s \<and>
     zk_put toy_hash (prefix_db toy_hash 5) [1] [2] (zk_new 3, s) = (r, (t, s')) \<and> consistent (mem_view toy_hash s')"
proof -
  have "wf_trace toy_update_trace" "trie_hash toy_hash (trace_key toy_update_trace) = Inr 7"
    by (simp_all add: toy_update_trace_def wf_trace_def)
  then obtain s where s: "mem_store_from_traces toy_hash [toy_update_trace] = Inr s"
    using toy.from_traces_ok [of "[toy_update_trace]"] by auto
  obtain r t s' where p: "zk_put toy_hash (prefix_db toy_hash 5) [1] [2] (zk_new 3, s) = (r, (t, s'))"
    by (metis prod.exhaust)
  have "reachable_store toy_hash s'" using s p by (blast intro: reachable_store.intros)
  moreover have "mem_get_node toy_hash s' 0 = Inr (Some (empty_node toy_hash 0))"
    by (simp add: toy.mem_get_node_view mem_view_def toy_empty_0 map_add_Some_iff)
  ultimately have "consistent (mem_view toy_hash s')"
    using nodes_under_their_hash [OF toy_trie_hasher] by blast
  with s p show ?thesis by blast
qed

end
