(* ===== verification/Trace_Replay.thy ===== *)
theory Trace_Replay
  imports Traced_State Store_Integrity
begin

text \<open>
  The write traces of a block applied to the trie over the store that they fill. A trace of a
  write has one proof per leaf that the write touches, each relative to the root that the previous
  one ends in; the nodes of the proofs are in the store, so the write can follow them. The
  assertions of this theory tell the root that the trie stands at.
\<close>

section \<open>Recomputing a root in the store\<close>

lemma path_hash_up_nodes:
  assumes "\<forall>m \<in> set (up_nodes H n xs). V (nd_hash m) = Some m"
  shows "path_hash H V (nd_hash (last (up_nodes H n xs))) (rev (map fst xs) @ q) h =
    proof_hash H (path_hash H V (nd_hash n) q h) xs"
  using assms
proof (induction H n xs arbitrary: q rule: up_nodes.induct)
  case (2 H n d s xs)
  let ?m = "branch_over H d (nd_hash n) s"
  have m: "V (nd_hash ?m) = Some ?m" using 2(2) hd_up_nodes [of ?m H xs] by simp
  have "path_hash H V (nd_hash (last (up_nodes H ?m xs))) (rev (map fst xs) @ (d # q)) h =
      proof_hash H (path_hash H V (nd_hash ?m) (d # q) h) xs"
    using 2 by (intro 2(1)) simp
  moreover have "path_hash H V (nd_hash ?m) (d # q) h =
      (if d = 0 then branch_hash H (path_hash H V (nd_hash n) q h) s else branch_hash H s (path_hash H V (nd_hash n) q h))"
    using m by (cases "d = 0") (simp_all add: branch_over_def)
  ultimately show ?case by simp
qed simp

lemma path_hash_proof_nodes:
  assumes V: "\<forall>m\<in>set (proof_nodes H (p, l)). V (nd_hash m) = Some m" and len: "length (tp_siblings p) = 40"
  shows "path_hash H V (proof_root H (p, l)) (leaf_bits (tp_leaf_index p)) (nd_hash (proof_leaf H l')) = proof_root H (p, l')"
proof -
  let ?xs = "zip (rev (leaf_bits (tp_leaf_index p))) (tp_siblings p)"
  have "path_hash H V (nd_hash (last (up_nodes H (proof_leaf H l) ?xs))) (rev (map fst ?xs) @ []) (nd_hash (proof_leaf H l')) =
      proof_hash H (path_hash H V (nd_hash (proof_leaf H l)) [] (nd_hash (proof_leaf H l'))) ?xs"
    using V by (intro path_hash_up_nodes) (simp add: proof_nodes_def)
  then show ?thesis using len by (simp add: last_up_nodes proof_root_def)
qed

section \<open>A trie that stands at a root\<close>

text \<open>The top node of a trie: the next free index beside the root of the leaves.\<close>

definition top_of :: "hasher \<Rightarrow> u64 \<Rightarrow> sh256 \<Rightarrow> node" where
  "top_of H nf sub = \<lparr>nd_raw = mk_branch (ucast nf) sub, nd_hash = branch_hash H (ucast nf) sub\<rparr>"

lemma top_of_simps [simp]:
  "nd_raw (top_of H nf sub) = mk_branch (ucast nf) sub" "nd_hash (top_of H nf sub) = branch_hash H (ucast nf) sub"
  by (simp_all add: top_of_def)

definition stands_at ::
  "('s \<Rightarrow> sh256 \<rightharpoonup> node) \<Rightarrow> node set \<Rightarrow> (sh256 \<rightharpoonup> node) \<Rightarrow> hasher \<Rightarrow> u64 \<Rightarrow> sh256 \<Rightarrow> zk_trie \<Rightarrow> 's \<Rightarrow> bool" where
  "stands_at view U E H nf sub t s \<longleftrightarrow> stored_in U (view s) \<and> E \<subseteq>\<^sub>m view s \<and>
     smt_root_hash t = branch_hash H (ucast nf) sub \<and> view s (branch_hash H (ucast nf) sub) = Some (top_of H nf sub)"

text \<open>A proof that the held nodes \<open>E\<close> allow to follow.\<close>

definition can_follow :: "hasher \<Rightarrow> (sh256 \<rightharpoonup> node) \<Rightarrow> trace_proof \<times> leaf_opening option \<Rightarrow> bool" where
  "can_follow H E pl \<longleftrightarrow> length (tp_siblings (fst pl)) = 40 \<and> unat (tp_leaf_index (fst pl)) < 2 ^ 40 \<and>
     (\<forall>m\<in>set (proof_nodes H pl). E (nd_hash m) = Some m)"

lemma can_follow_view:
  "can_follow H E (p, l) \<Longrightarrow> E \<subseteq>\<^sub>m V \<Longrightarrow> \<forall>m\<in>set (proof_nodes H (p, l)). V (nd_hash m) = Some m"
  by (force simp: can_follow_def map_le_def dom_def)

lemma proof_leaf_slot: "slot [22] (proof_leaf H l)"
  by (cases l) (simp_all add: slot_def proof_leaf_def empty_node_def)

context trie_db begin

lemma stands_at_presents:
  assumes "stands_at view U E H nf (proof_root H (p, l)) t s" "can_follow H E (p, l)"
  shows "presents view U E (nf, [tp_leaf_index p \<mapsto> map_option leaf_opening_to_bytes l]) t s"
    and "walk (view s) (proof_root H (p, l)) (leaf_bits (tp_leaf_index p)) = Some (proof_leaf H l)"
proof -
  have V: "\<forall>m\<in>set (proof_nodes H (p, l)). view s (nd_hash m) = Some m"
    using assms can_follow_view by (auto simp: stands_at_def)
  then show w: "walk (view s) (proof_root H (p, l)) (leaf_bits (tp_leaf_index p)) = Some (proof_leaf H l)"
    using assms(2) by (intro proof_nodes_walk) (simp_all add: can_follow_def)
  have "nd_raw (proof_leaf H l) = content_raw (map_option leaf_opening_to_bytes l)"
    by (cases l) (simp_all add: proof_leaf_def empty_node_def)
  with w show "presents view U E (nf, [tp_leaf_index p \<mapsto> map_option leaf_opening_to_bytes l]) t s"
    using assms
    by (auto simp: stands_at_def presents_def trie_rep_def branch_at_def leaf_at_def can_follow_def)
qed

lemma stands_parse:
  assumes "can_follow H E (p, Some l)"
  shows "triple U (stands_at view U E H nf (proof_root H (p, Some l))) (zk_parse_leaf_at (log_db D) (leaf_path (tp_leaf_index p)))
    (l\<lparr>lo_next_leaf := lo_prev_leaf l\<rparr>) (stands_at view U E H nf (proof_root H (p, Some l)))"
  unfolding zk_parse_leaf_at_def
  using presents_parse_leaf [OF stands_at_presents(1) [OF _ assms]] by (intro triple_read) simp

lemma stands_index:
  "triple U (stands_at view U E H nf sub) (modifyc (apsnd (db_update_index (log_db D) k v))) () (stands_at view U E H nf sub)"
  "triple U (stands_at view U E H nf sub) (modifyc (apsnd (db_remove_index (log_db D) k))) () (stands_at view U E H nf sub)"
  by (auto intro!: tripleI simp: stands_at_def update_index remove_index)

lemma stands_root_branch:
  "stands_at view U E H nf sub t s \<Longrightarrow> smt_root_branch D t s = Inr \<lparr>br_left = ucast nf, br_right = sub\<rparr>"
  by (simp add: stands_at_def smt_root_branch_def smt_root_node_def get_node)

lemma stands_reads:
  assumes "stands_at view U E H nf sub t s"
  shows "smt_next_free_node D t s = Inr nf" "smt_sub_root_hash D t s = Inr sub"
  using stands_root_branch [OF assms]
  by (simp_all add: smt_next_free_node_def smt_sub_root_hash_def parse_node_index_word_bytes)

end

section \<open>Steps\<close>

context trie_db begin

lemma stands_next_free:
  "triple U (stands_at view U E H nf sub) (readc (\<lambda>(t, s). smt_next_free_node (log_db D) t s)) nf (stands_at view U E H nf sub)"
  by (rule triple_read) (auto simp: stands_reads)

lemma stands_sub_root:
  "triple U (stands_at view U E H nf sub) (readc (\<lambda>(t, s). zk_sub_root_hash (log_db D) t s)) sub (stands_at view U E H nf sub)"
  by (rule triple_read) (auto simp: stands_reads zk_sub_root_hash_def)

lemma written_top:
  assumes "stands_at view U E H nf (proof_root H (p, l)) t s" "can_follow H E (p, l)"
  shows "written_node H (view s) (smt_root_hash t) (1 # leaf_bits (tp_leaf_index p)) (proof_leaf H l') =
    top_of H nf (proof_root H (p, l'))"
proof -
  have "path_hash H (view s) (proof_root H (p, l)) (leaf_bits (tp_leaf_index p)) (nd_hash (proof_leaf H l')) = proof_root H (p, l')"
    using assms by (intro path_hash_proof_nodes can_follow_view) (auto simp: stands_at_def can_follow_def)
  then show ?thesis
    using assms(1) by (simp add: written_node_def stands_at_def branch_at_def branch_new_replace_def top_of_def Let_def)
qed

lemma stands_top_walk:
  assumes "stands_at view U E H nf (proof_root H (p, l)) t s" "can_follow H E (p, l)"
  shows "walk (view s) (smt_root_hash t) (1 # leaf_bits (tp_leaf_index p)) = Some (proof_leaf H l)"
  using assms stands_at_presents(2) [OF assms] by (simp add: stands_at_def)

text \<open>A write along a proof ends at the root that the proof gives for the new leaf.\<close>

lemma stands_put:
  assumes inj: "inj_on nd_hash U" and p: "can_follow H E (p, l)"
  shows "triple U (stands_at view U E H nf (proof_root H (p, l)))
    (smt_put H (log_db D) (leaf_path (tp_leaf_index p)) (leaf_opening_to_bytes l')) ()
    (stands_at view U E H nf (proof_root H (p, Some l')))"
proof (rule tripleI)
  let ?path = "leaf_path (tp_leaf_index p)" and ?v = "leaf_opening_to_bytes l'"
  fix t s w r t' s' w'
  assume a: "stands_at view U E H nf (proof_root H (p, l)) t s"
    "smt_put H (log_db D) ?path ?v (t, (s, w)) = (r, (t', (s', w')))" "set w' \<subseteq> U"
  have v: "32 dvd length ?v" "?v \<noteq> []" using length_leaf_opening_to_bytes [of l'] by fastforce+
  have dir: "directions (1 # leaf_bits (tp_leaf_index p))" using set_leaf_bits [of "tp_leaf_index p"] by auto
  have path: "drop 0 ?path = (1 # leaf_bits (tp_leaf_index p)) @ [22]" by (simp add: leaf_path_def)
  have leaf: "\<lparr>nd_raw = mk_leaf [22] ?v, nd_hash = value_hash H ?v\<rparr> = proof_leaf H (Some l')" by (simp add: proof_leaf_def)
  from add_leaf_walk [OF stands_top_walk [OF a(1) p] proof_leaf_slot path _ _ _ dir v, of w] obtain s1 ws where m:
    "smt_add_leaf H (log_db D) 0 (smt_root_hash t) ?path ?v (s, w) = (Inr (top_of H nf (proof_root H (p, Some l'))), (s1, w @ ws))"
    "\<And>U. inj_on nd_hash U \<Longrightarrow> stored_in U (view s) \<Longrightarrow> set ws \<subseteq> U \<Longrightarrow> stored_in U (view s1) \<and>
      view s1 (branch_hash H (ucast nf) (proof_root H (p, Some l'))) = Some (top_of H nf (proof_root H (p, Some l'))) \<and>
      view s \<subseteq>\<^sub>m view s1"
    unfolding leaf written_top [OF a(1) p] by (auto simp: replaces_def simp del: walk.simps path_hash.simps)
  have run: "r = Inr ()" "t' = t\<lparr>smt_root_hash := branch_hash H (ucast nf) (proof_root H (p, Some l'))\<rparr>" "s' = s1" "w' = w @ ws"
    using a(2) m(1) by (auto simp: smt_put_def on_db_def bindc_def)
  then show "r = Inr () \<and> stands_at view U E H nf (proof_root H (p, Some l')) t' s'"
    using m(2) [OF inj] a(1,3) by (auto simp: stands_at_def intro: map_le_trans)
qed

lemma stands_remove:
  assumes inj: "inj_on nd_hash U" and E: "E 0 = Some (empty_node H 0)" and p: "can_follow H E (p, l)"
  shows "triple U (stands_at view U E H nf (proof_root H (p, l)))
    (smt_remove H (log_db D) (leaf_path (tp_leaf_index p))) () (stands_at view U E H nf (proof_root H (p, None)))"
proof (rule tripleI)
  let ?path = "leaf_path (tp_leaf_index p)"
  fix t s w r t' s' w'
  assume a: "stands_at view U E H nf (proof_root H (p, l)) t s"
    "smt_remove H (log_db D) ?path (t, (s, w)) = (r, (t', (s', w')))" "set w' \<subseteq> U"
  have dir: "directions (1 # leaf_bits (tp_leaf_index p))" using set_leaf_bits [of "tp_leaf_index p"] by auto
  have path: "drop 0 ?path = (1 # leaf_bits (tp_leaf_index p)) @ [22]" by (simp add: leaf_path_def)
  have empty: "view s 0 = Some (empty_node H 0)" using a(1) E by (force simp: stands_at_def map_le_def dom_def)
  have leaf: "empty_node H 0 = proof_leaf H None" by (simp add: proof_leaf_def)
  from remove_leaf_walk [OF stands_top_walk [OF a(1) p] proof_leaf_slot path _ dir empty, of w] obtain s1 ws where m:
    "smt_remove_leaf H (log_db D) 0 (smt_root_hash t) ?path (s, w) = (Inr (top_of H nf (proof_root H (p, None))), (s1, w @ ws))"
    "\<And>U. inj_on nd_hash U \<Longrightarrow> stored_in U (view s) \<Longrightarrow> set ws \<subseteq> U \<Longrightarrow> stored_in U (view s1) \<and>
      view s1 (branch_hash H (ucast nf) (proof_root H (p, None))) = Some (top_of H nf (proof_root H (p, None))) \<and>
      view s \<subseteq>\<^sub>m view s1"
    unfolding leaf written_top [OF a(1) p] by (auto simp: replaces_def simp del: walk.simps path_hash.simps)
  have run: "r = Inr ()" "t' = t\<lparr>smt_root_hash := branch_hash H (ucast nf) (proof_root H (p, None))\<rparr>" "s' = s1" "w' = w @ ws"
    using a(2) m(1) by (auto simp: smt_remove_def on_db_def bindc_def)
  then show "r = Inr () \<and> stands_at view U E H nf (proof_root H (p, None)) t' s'"
    using m(2) [OF inj] a(1,3) by (auto simp: stands_at_def intro: map_le_trans)
qed

lemma stands_increment:
  assumes inj: "inj_on nd_hash U"
  shows "triple U (stands_at view U E H nf sub) (zk_increment_next_free H (log_db D)) (nf + 1) (stands_at view U E H (nf + 1) sub)"
proof (rule tripleI)
  fix t s w r t' s' w'
  assume a: "stands_at view U E H nf sub t s" "zk_increment_next_free H (log_db D) (t, (s, w)) = (r, (t', (s', w')))"
    "set w' \<subseteq> U"
  let ?n = "top_of H (nf + 1) sub"
  obtain s1 where s1: "db_add (log_db D) ?n (s, w) = (Inr ?n, (s1, w @ [?n]))" using db_add_log_total by blast
  have top: "node_top_node H (nf + 1) sub = (Inr ?n :: (zk_error, node) result)" by (simp add: node_top_node_ok top_of_def)
  have run: "r = Inr (nf + 1)" "t' = t\<lparr>smt_root_hash := nd_hash ?n\<rparr>" "s' = s1" "w' = w @ [?n]"
    using a(2) s1 stands_root_branch [OF a(1)]
    by (auto simp: zk_increment_next_free_def stands_reads(1) [OF a(1)] smt_set_next_free_node_def top on_db_def bindc_def
        db_add_def Let_def)
  have n: "?n \<in> U" and st: "stored_in U (view s)" using a(1,3) run(4) by (auto simp: stands_at_def)
  show "r = Inr (nf + 1) \<and> stands_at view U E H (nf + 1) sub t' s'"
    using run a(1) db_add_log_view [OF s1 inj st n] by (auto simp: stands_at_def intro: map_le_trans)
qed

end

section \<open>The writes of the trie along proofs\<close>

context trie_db begin

lemma stands_between:
  assumes "triple U (stands_at view U E H nf sub) c () (stands_at view U E H nf' sub')" "grows c"
  shows "triple U (stands_at view U E H nf sub) (between_sub_roots (log_db D) c) () (stands_at view U E H nf' sub')"
  unfolding between_sub_roots_def
  by (rule triple_bind [OF stands_sub_root triple_bind [OF assms(1) triple_bind [OF stands_sub_root triple_basic(2)]]])
    (intro growing assms(2))+

lemma replay_present:
  assumes inj: "inj_on nd_hash U" and p: "can_follow H E (p, Some a)" and fl: "fl_leaf_index fl = tp_leaf_index p"
    and hv: "trie_hash H val = Inr hv"
  shows "triple U (stands_at view U E H nf (proof_root H (p, Some a))) (zk_put_present H (log_db D) hkey fl val) ()
    (stands_at view U E H nf (proof_root H (p, Some (a\<lparr>lo_next_leaf := lo_prev_leaf a, lo_hval := hv\<rparr>))))"
proof -
  have path: "get_leaf_path (tp_leaf_index p) = (Inr (leaf_path (tp_leaf_index p)) :: (zk_error, bytes) result)"
    using p by (intro get_leaf_path_eq) (simp add: can_follow_def)
  have "triple U (stands_at view U E H nf (proof_root H (p, Some a))) (zk_put_present H (log_db D) hkey fl val) ()
    (stands_at view U E H nf (proof_root H (p, Some (leaf_opening_new_hval (a\<lparr>lo_next_leaf := lo_prev_leaf a\<rparr>) hv))))"
    unfolding zk_put_present_def flattened_leaf_path_def Let_def fl
    by (rule triple_bind [OF triple_lift [OF path]], rule triple_bind [OF triple_lift [OF hv]],
        rule triple_bind [OF stands_index(1)], rule triple_bind [OF stands_parse [OF p]], rule stands_put [OF inj p])
      (intro growing)+
  then show ?thesis by (simp add: leaf_opening_new_hval_def)
qed

lemma replay_absent:
  assumes inj: "inj_on nd_hash U"
    and p: "can_follow H E (p, Some a)" "can_follow H E (q, None)" "can_follow H E (r, Some b)"
    and kr: "kr_left_index kr = tp_leaf_index p" "kr_right_index kr = tp_leaf_index r" and nf: "tp_leaf_index q = nf"
    and hv: "trie_hash H val = Inr hv"
    and roots: "proof_root H (q, None) = proof_root H (p, Some (a\<lparr>lo_next_leaf := nf\<rparr>))"
      "proof_root H (r, Some b) = proof_root H (q, Some (leaf_opening_new (tp_leaf_index p) (tp_leaf_index r) hkey hv))"
  shows "triple U (stands_at view U E H nf (proof_root H (p, Some a))) (zk_put_absent H (log_db D) hkey kr val) ()
    (stands_at view U E H (nf + 1) (proof_root H (r, Some (b\<lparr>lo_next_leaf := lo_prev_leaf b, lo_prev_leaf := nf\<rparr>))))"
proof -
  have paths: "get_leaf_path (tp_leaf_index p) = (Inr (leaf_path (tp_leaf_index p)) :: (zk_error, bytes) result)"
    "get_leaf_path (tp_leaf_index r) = (Inr (leaf_path (tp_leaf_index r)) :: (zk_error, bytes) result)"
    "get_leaf_path nf = (Inr (leaf_path (tp_leaf_index q)) :: (zk_error, bytes) result)"
    using p nf by (auto intro!: get_leaf_path_eq simp: can_follow_def)
  let ?S = "\<lambda>n l. stands_at view U E H n (proof_root H l)"
  let ?b = "leaf_opening_new_prev_leaf (b\<lparr>lo_next_leaf := lo_prev_leaf b\<rparr>) nf"
  have left: "triple U (?S nf (p, Some a)) (smt_put H (log_db D) (leaf_path (tp_leaf_index p))
      (leaf_opening_to_bytes (leaf_opening_new_next_leaf (a\<lparr>lo_next_leaf := lo_prev_leaf a\<rparr>) nf))) () (?S nf (q, None))"
    using stands_put [OF inj p(1)] by (simp add: roots(1) leaf_opening_new_next_leaf_def)
  have new: "triple U (?S nf (q, None)) (smt_put H (log_db D) (leaf_path (tp_leaf_index q))
      (leaf_opening_to_bytes (leaf_opening_new (tp_leaf_index p) (tp_leaf_index r) hkey hv))) () (?S nf (r, Some b))"
    using stands_put [OF inj p(2)] by (simp add: roots(2))
  have "triple U (?S nf (p, Some a)) (zk_put_absent H (log_db D) hkey kr val) () (?S (nf + 1) (r, Some ?b))"
    unfolding zk_put_absent_def key_range_left_path_def key_range_right_path_def Let_def kr
    by (rule triple_bind [OF triple_lift [OF paths(1)]], rule triple_bind [OF triple_lift [OF paths(2)]],
        rule triple_bind [OF stands_next_free], rule triple_bind [OF stands_parse [OF p(1)]], rule triple_bind [OF left],
        rule triple_bind [OF triple_lift [OF paths(3)]], rule triple_bind [OF triple_lift [OF hv]],
        rule triple_bind [OF stands_index(1)], rule triple_bind [OF new], rule triple_bind [OF stands_parse [OF p(3)]],
        rule triple_bind [OF stands_put [OF inj p(3)]], rule triple_bind [OF stands_increment [OF inj]], rule triple_basic(2))
      (intro growing)+
  then show ?thesis by (simp add: leaf_opening_new_prev_leaf_def)
qed

lemma replay_remove:
  assumes inj: "inj_on nd_hash U" and E: "E 0 = Some (empty_node H 0)"
    and p: "can_follow H E (p, Some a)" "can_follow H E (q, Some c)" "can_follow H E (r, Some b)"
    and kr: "kr_left_index kr = tp_leaf_index p" "kr_right_index kr = tp_leaf_index r" and fl: "fl_leaf_index fl = tp_leaf_index q"
    and roots: "proof_root H (q, Some c) = proof_root H (p, Some (a\<lparr>lo_next_leaf := tp_leaf_index r\<rparr>))"
      "proof_root H (r, Some b) = proof_root H (q, None)"
  shows "triple U (stands_at view U E H nf (proof_root H (p, Some a))) (zk_remove_found H (log_db D) hkey kr fl) ()
    (stands_at view U E H nf (proof_root H (r, Some (b\<lparr>lo_next_leaf := lo_prev_leaf b, lo_prev_leaf := tp_leaf_index p\<rparr>))))"
proof -
  have paths: "get_leaf_path (tp_leaf_index p) = (Inr (leaf_path (tp_leaf_index p)) :: (zk_error, bytes) result)"
    "get_leaf_path (tp_leaf_index r) = (Inr (leaf_path (tp_leaf_index r)) :: (zk_error, bytes) result)"
    "get_leaf_path (tp_leaf_index q) = (Inr (leaf_path (tp_leaf_index q)) :: (zk_error, bytes) result)"
    using p by (auto intro!: get_leaf_path_eq simp: can_follow_def)
  let ?S = "\<lambda>l. stands_at view U E H nf (proof_root H l)"
  let ?b = "leaf_opening_new_prev_leaf (b\<lparr>lo_next_leaf := lo_prev_leaf b\<rparr>) (tp_leaf_index p)"
  have left: "triple U (?S (p, Some a)) (smt_put H (log_db D) (leaf_path (tp_leaf_index p))
      (leaf_opening_to_bytes (leaf_opening_new_next_leaf (a\<lparr>lo_next_leaf := lo_prev_leaf a\<rparr>) (tp_leaf_index r)))) () (?S (q, Some c))"
    using stands_put [OF inj p(1)] by (simp add: roots(1) leaf_opening_new_next_leaf_def)
  have gone: "triple U (?S (q, Some c)) (smt_remove H (log_db D) (leaf_path (tp_leaf_index q))) () (?S (r, Some b))"
    using stands_remove [OF inj E p(2)] by (simp add: roots(2))
  have "triple U (?S (p, Some a)) (zk_remove_found H (log_db D) hkey kr fl) () (?S (r, Some ?b))"
    unfolding zk_remove_found_def key_range_left_path_def key_range_right_path_def Let_def kr fl
    by (rule triple_bind [OF triple_lift [OF paths(1)]], rule triple_bind [OF triple_lift [OF paths(2)]],
        rule triple_bind [OF stands_parse [OF p(1)]], rule triple_bind [OF left], rule triple_bind [OF triple_lift [OF paths(3)]],
        rule triple_bind [OF stands_parse [OF p(2)]], rule triple_bind [OF stands_index(2)], rule triple_bind [OF gone],
        rule triple_bind [OF stands_parse [OF p(3)]], rule stands_put [OF inj p(3)])
      (intro growing)+
  then show ?thesis by (simp add: leaf_opening_new_prev_leaf_def)
qed

end

section \<open>The writes that traces tell\<close>

text \<open>
  The write of a trace and the state after it. The steps of a write are, in order, the proof of
  each leaf that it touches with the leaf before and after, as the state manager writes it.
\<close>

fun trace_write :: "hasher \<Rightarrow> 's database \<Rightarrow> trace \<Rightarrow> (zk_trie \<times> 's, zk_error, unit) comp" where
  "trace_write H D (Trace_Update n) = zk_put H D (ut_key n) (ut_new_value n)"
| "trace_write H D (Trace_Insertion n) = zk_put H D (it_key n) (it_value n)"
| "trace_write H D (Trace_Deletion n) = zk_remove H D (dt_key n)"
| "trace_write H D (Trace_Read n) = returnc ()"
| "trace_write H D (Trace_ReadZero n) = returnc ()"

fun trace_new_state :: "trace \<Rightarrow> u64 \<times> sh256" where
  "trace_new_state (Trace_Deletion n) = (dt_new_next_free_node n, dt_new_sub_root n)"
| "trace_new_state (Trace_Insertion n) = (it_new_next_free_node n, it_new_sub_root n)"
| "trace_new_state (Trace_Update n) = (ut_new_next_free_node n, ut_new_sub_root n)"
| "trace_new_state (Trace_Read n) = (rt_next_free_node n, rt_sub_root n)"
| "trace_new_state (Trace_ReadZero n) = (rz_next_free_node n, rz_sub_root n)"

type_synonym write_step = "trace_proof \<times> leaf_opening option \<times> leaf_opening option"

fun write_steps :: "hasher \<Rightarrow> trace \<Rightarrow> write_step list" where
  "write_steps H (Trace_Update n) =
     [(ut_proof n, Some (ut_prior_updated_leaf n),
       Some ((ut_prior_updated_leaf n)\<lparr>lo_hval := projr (trie_hash H (ut_new_value n))\<rparr>))]"
| "write_steps H (Trace_Insertion n) =
     [(it_left_proof n, Some (it_prior_left_leaf n), Some ((it_prior_left_leaf n)\<lparr>lo_next_leaf := it_new_next_free_node n - 1\<rparr>)),
      (it_new_proof n, None, Some (leaf_opening_new (tp_leaf_index (it_left_proof n)) (tp_leaf_index (it_right_proof n))
         (trace_hkey H (Trace_Insertion n)) (projr (trie_hash H (it_value n))))),
      (it_right_proof n, Some (it_prior_right_leaf n), Some ((it_prior_right_leaf n)\<lparr>lo_prev_leaf := it_new_next_free_node n - 1\<rparr>))]"
| "write_steps H (Trace_Deletion n) =
     [(dt_left_proof n, Some (dt_prior_left_leaf n), Some ((dt_prior_left_leaf n)\<lparr>lo_next_leaf := tp_leaf_index (dt_right_proof n)\<rparr>)),
      (dt_delete_proof n, Some (dt_prior_delete_leaf n), None),
      (dt_right_proof n, Some (dt_prior_right_leaf n), Some ((dt_prior_right_leaf n)\<lparr>lo_prev_leaf := tp_leaf_index (dt_left_proof n)\<rparr>))]"
| "write_steps H (Trace_Read n) = []"
| "write_steps H (Trace_ReadZero n) = []"

text \<open>Every step starts at the root that the one before ends in.\<close>

fun chained :: "hasher \<Rightarrow> sh256 \<Rightarrow> write_step list \<Rightarrow> sh256 \<Rightarrow> bool" where
  "chained H root [] root' \<longleftrightarrow> root = root'"
| "chained H root ((p, a, b) # steps) root' \<longleftrightarrow> proof_root H (p, a) = root \<and> chained H (proof_root H (p, b)) steps root'"

fun links_fit :: "hasher \<Rightarrow> trace \<Rightarrow> bool" where
  "links_fit H (Trace_Update n) \<longleftrightarrow> \<not> isl (trie_hash H (ut_new_value n))"
| "links_fit H (Trace_Insertion n) \<longleftrightarrow> \<not> isl (trie_hash H (it_value n)) \<and>
     tp_leaf_index (it_new_proof n) = it_new_next_free_node n - 1"
| "links_fit H (Trace_Deletion n) \<longleftrightarrow>
     lo_prev_leaf (dt_prior_delete_leaf n) = tp_leaf_index (dt_left_proof n) \<and>
     lo_next_leaf (dt_prior_delete_leaf n) = tp_leaf_index (dt_right_proof n)"
| "links_fit H _ \<longleftrightarrow> True"

text \<open>A trace that tells the truth about a write.\<close>

definition honest_trace :: "hasher \<Rightarrow> trace \<Rightarrow> bool" where
  "honest_trace H tr \<longleftrightarrow> links_fit H tr \<and> chained H (snd (trace_old_state tr)) (write_steps H tr) (snd (trace_new_state tr))"

text \<open>What the program writes last: the leaf of the last step, without its next link.\<close>

definition last_leaf :: "hasher \<Rightarrow> trace \<Rightarrow> trace_proof \<times> leaf_opening \<times> leaf_opening" where
  "last_leaf H tr = (case last (write_steps H tr) of (p, a, b) \<Rightarrow> (p, the a, the b))"

definition reached_sub_root :: "hasher \<Rightarrow> trace \<Rightarrow> sh256" where
  "reached_sub_root H tr = (case last_leaf H tr of (p, a, b) \<Rightarrow> proof_root H (p, Some (b\<lparr>lo_next_leaf := lo_prev_leaf a\<rparr>)))"

lemma trace_proofs_steps: "trace_proofs tr = map (\<lambda>(p, a, b). (p, a)) (write_steps H tr)"
  by (cases tr) simp_all

lemma link_swap:
  "l\<lparr>lo_next_leaf := x, lo_hval := y\<rparr> = l\<lparr>lo_hval := y, lo_next_leaf := x\<rparr>"
  "l\<lparr>lo_next_leaf := x, lo_prev_leaf := z\<rparr> = l\<lparr>lo_prev_leaf := z, lo_next_leaf := x\<rparr>"
  by simp_all

context trie_db begin

lemma grows_put_cases:
  "grows (zk_put_present H (log_db D) hkey fl val)" "grows (zk_put_absent H (log_db D) hkey kr val)"
  by (rule tracks_zk_put_present [THEN tracks_trie_grows] tracks_zk_put_absent [THEN tracks_trie_grows])+

text \<open>A branch of an operation, as the facts of the store before it decide it.\<close>

lemma triple_case:
  assumes "triple U P' dl x Q" "\<And>t s w. P t s \<Longrightarrow> cl (t, (s, w)) = dl (t, (s, w))" "\<And>t s. P t s \<Longrightarrow> P' t s"
  shows "triple U P cl x Q"
  using assms unfolding triple_def by metis

text \<open>The write of an honest trace, from the root that the trace starts at.\<close>

lemma replay_step:
  assumes inj: "inj_on nd_hash U" and E: "E 0 = Some (empty_node H 0)" and steps: "write_steps H tr \<noteq> []"
    and follow: "\<forall>(p, a, b)\<in>set (write_steps H tr). can_follow H E (p, a)" and honest: "honest_trace H tr"
    and key: "trie_hash H (trace_key tr) = Inr (trace_hkey H tr)"
  shows "triple U (\<lambda>t s. stands_at view U E H (fst (trace_old_state tr)) (snd (trace_old_state tr)) t s \<and>
      db_get_nearest_keys D s (smt_root_hash t) (trace_hkey H tr) = Inr (trace_key_range tr))
    (trace_write H (log_db D) tr) () (stands_at view U E H (fst (trace_new_state tr)) (reached_sub_root H tr))"
proof (cases tr)
  case (Trace_Update n)
  let ?p = "ut_proof n" and ?a = "ut_prior_updated_leaf n"
  let ?fl = "\<lparr>fl_leaf_index = tp_leaf_index ?p, fl_leaf_value = ut_old_value n\<rparr>"
  have hv: "trie_hash H (ut_new_value n) = Inr (projr (trie_hash H (ut_new_value n)))"
    using honest Trace_Update by (simp add: honest_trace_def)
  have p: "can_follow H E (?p, Some ?a)" and fl: "fl_leaf_index ?fl = tp_leaf_index ?p" using follow by (simp_all add: Trace_Update)
  have "triple U (\<lambda>t s. stands_at view U E H (ut_new_next_free_node n) (ut_old_sub_root n) t s \<and>
        db_get_nearest_keys D s (smt_root_hash t) (trace_hkey H tr) = Inr (trace_key_range tr))
      (zk_put H (log_db D) (ut_key n) (ut_new_value n)) () (stands_at view U E H (ut_new_next_free_node n)
      (proof_root H (?p, Some (?a\<lparr>lo_next_leaf := lo_prev_leaf ?a, lo_hval := projr (trie_hash H (ut_new_value n))\<rparr>))))"
    by (rule triple_case [OF stands_between [OF replay_present [OF inj p fl hv] grows_put_cases(1)]
          zk_put_present_case])
      (use key honest in \<open>auto simp: Trace_Update honest_trace_def\<close>)
  then show ?thesis by (simp add: Trace_Update reached_sub_root_def last_leaf_def link_swap)
next
  case (Trace_Insertion n)
  let ?p = "it_left_proof n" and ?q = "it_new_proof n" and ?r = "it_right_proof n" and ?nf = "it_new_next_free_node n - 1"
  let ?a = "it_prior_left_leaf n" and ?b = "it_prior_right_leaf n"
  have hv: "trie_hash H (it_value n) = Inr (projr (trie_hash H (it_value n)))"
    using honest Trace_Insertion by (simp add: honest_trace_def)
  have "triple U (\<lambda>t s. stands_at view U E H ?nf (it_old_sub_root n) t s \<and>
        db_get_nearest_keys D s (smt_root_hash t) (trace_hkey H tr) = Inr (trace_key_range tr))
      (zk_put H (log_db D) (it_key n) (it_value n)) () (stands_at view U E H (?nf + 1)
      (proof_root H (?r, Some (?b\<lparr>lo_next_leaf := lo_prev_leaf ?b, lo_prev_leaf := ?nf\<rparr>))))"
    by (rule triple_case [OF stands_between [OF replay_absent [OF inj _ _ _ _ _ _ hv] grows_put_cases(2)]
          zk_put_absent_case])
      (use key follow honest in \<open>auto simp: Trace_Insertion honest_trace_def\<close>)
  then show ?thesis by (simp add: Trace_Insertion reached_sub_root_def last_leaf_def link_swap)
next
  case (Trace_Deletion n)
  let ?p = "dt_left_proof n" and ?q = "dt_delete_proof n" and ?r = "dt_right_proof n" and ?nf = "dt_new_next_free_node n"
  let ?a = "dt_prior_left_leaf n" and ?b = "dt_prior_right_leaf n"
  let ?fl = "\<lparr>fl_leaf_index = tp_leaf_index ?q, fl_leaf_value = dt_delete_value n\<rparr>"
  have fl: "fl_leaf_index ?fl = tp_leaf_index ?q" by simp
  have "triple U (\<lambda>t s. stands_at view U E H ?nf (dt_old_sub_root n) t s \<and>
        db_get_nearest_keys D s (smt_root_hash t) (trace_hkey H tr) = Inr (trace_key_range tr))
      (zk_remove H (log_db D) (dt_key n)) () (stands_at view U E H ?nf
      (proof_root H (?r, Some (?b\<lparr>lo_next_leaf := lo_prev_leaf ?b, lo_prev_leaf := tp_leaf_index ?p\<rparr>))))"
    by (rule triple_case [OF replay_remove [where E = E and fl = ?fl and c = "dt_prior_delete_leaf n", OF inj E _ _ _ _ _ fl]
          zk_remove_found_case])
      (use key follow honest in \<open>auto simp: Trace_Deletion honest_trace_def\<close>)
  then show ?thesis by (simp add: Trace_Deletion reached_sub_root_def last_leaf_def link_swap)
qed (use steps in simp_all)

lemma tracks_trace_write [tracking]: "tracks_trie (trace_write H (log_db D) tr) (trace_write H D tr)"
  by (cases tr) (auto intro: tracking)

end

section \<open>The store of a block can follow its traces\<close>

lemma insert_nodes_dom: "dom (insert_nodes ns m) = dom m \<union> nd_hash ` set ns"
  by (induction ns arbitrary: m) auto

lemma poe_store_nodes:
  assumes "trie_hasher H" "poe_v2_store H K debug traces codes proofs = Inr db" "\<forall>tr\<in>set traces. wf_trace tr"
    "\<forall>tr\<in>set traces. \<exists>k. trie_hash H (trace_key tr) = Inr k"
  shows "store_ok H db" "tr \<in> set traces \<Longrightarrow> n \<in> set (trace_stored H tr) \<Longrightarrow> ms_nodes db (nd_hash n) \<noteq> None"
proof -
  obtain s where s: "mem_store_from_traces H traces = Inr s"
    "add_account_proofs H debug proofs (mem_add_codes K codes s) = (Inr (), db)"
    using assms(2) by (rule poe_v2_storeE)
  have ne: "traces \<noteq> []" using s(1) by (auto simp: mem_store_from_traces_def level_map_from_traces_def bind_result_ok_iff)
  have nodes: "ms_nodes s = insert_nodes (concat (map (trace_stored H) traces)) Map.empty"
    using trie_hasher.from_traces_ok [OF assms(1) ne assms(3,4)] s(1) by auto
  have "store_ok H (snd (add_account_proofs H debug proofs (mem_add_codes K codes s)))"
    by (rule add_account_proofs_keep) (use from_traces_store_ok [OF s(1)] add_proof_ok in simp_all)
  then show "store_ok H db" using s(2) by simp
  have "dom (ms_nodes s) \<subseteq> dom (ms_nodes (snd (add_account_proofs H debug proofs (mem_add_codes K codes s))))"
    by (rule add_account_proofs_keep) (auto simp: mem_add_proof_nodes insert_nodes_dom split: sum.split)
  then show "ms_nodes db (nd_hash n) \<noteq> None" if "tr \<in> set traces" "n \<in> set (trace_stored H tr)"
    using that s(2) by (force simp: nodes insert_nodes_dom)
qed

lemma known_node:
  assumes "inj_on nd_hash U" "stored_in U V" "n \<in> U" "V (nd_hash n) \<noteq> None"
  shows "V (nd_hash n) = Some n"
proof -
  obtain m where m: "V (nd_hash n) = Some m" using assms(4) by blast
  then have "m \<in> U" "nd_hash m = nd_hash n" using assms(2) by (auto simp: stored_in_def ran_def dest: consistentD)
  with m assms(1,3) show ?thesis by (auto dest: inj_onD)
qed

text \<open>The nodes that matter in the replay of a trace, and the error when the root is not known.\<close>

definition replay_nodes :: "hasher \<Rightarrow> mem_store \<Rightarrow> trace \<Rightarrow> node set" where
  "replay_nodes H db tr = ran (mem_view H db) \<union> set (trace_stored H tr) \<union>
     {empty_node H 0, top_of H (fst (trace_old_state tr)) (snd (trace_old_state tr))} \<union>
     set (trie_written (trace_write H (log_db (prefix_db H u64_max_value)) tr) (zk_new (trace_top H tr)) db)"

definition unknown_root :: "hasher \<Rightarrow> trace \<Rightarrow> zk_error" where
  "unknown_root H tr = (case tr of Trace_Deletion _ \<Rightarrow> NodeNotFound 0 (trace_top H tr) | _ \<Rightarrow> RootNodeNotFound (trace_top H tr))"

context trie_hasher begin

lemma replay_without_root:
  assumes "mem_view H db (smt_root_hash t) = None" "write_steps H tr \<noteq> []" "wf_trace tr" "links_fit H tr"
    and key: "trie_hash H (trace_key tr) = Inr (trace_hkey H tr)"
    and near: "mem_get_nearest_keys u64_max_value db (smt_root_hash t) (trace_hkey H tr) = Inr (trace_key_range tr)"
    and root: "smt_root_hash t = trace_top H tr"
  shows "trace_write H (prefix_db H u64_max_value) tr (t, db) = (Inl (Fail (unknown_root H tr)), (t, db))"
proof -
  let ?D = "prefix_db H u64_max_value"
  have get: "db_get_node ?D db (smt_root_hash t) = Inr None" using assms(1) by (simp add: prefix_db_def mem_get_node_view)
  have db: "db_get_nearest_keys ?D db (smt_root_hash t) (trace_hkey H tr) = Inr (trace_key_range tr)"
    using near by (simp add: prefix_db_def)
  have sub: "smt_sub_root_hash ?D t db = Inl (Fail (RootNodeNotFound (smt_root_hash t)))"
    using get by (simp add: smt_sub_root_hash_def smt_root_branch_def smt_root_node_def)
  have miss: "smt_get_node ?D t db path = Inl (Fail (NodeNotFound 0 (smt_root_hash t)))" for path
    using prefix.get_node_loop_missing [of db "smt_root_hash t" 0] assms(1) by (simp add: smt_get_node_def)
  show ?thesis
  proof (cases tr)
    case (Trace_Deletion n)
    have "unat (tp_leaf_index (dt_left_proof n)) < 2 ^ 40" "unat (tp_leaf_index (dt_right_proof n)) < 2 ^ 40"
      using assms(3) by (simp_all add: Trace_Deletion wf_trace_def)
    with assms(4) have paths: "key_range_left_path (trace_key_range tr) = (Inr (leaf_path (tp_leaf_index (dt_left_proof n))) :: (zk_error, bytes) result)"
      "key_range_right_path (trace_key_range tr) = (Inr (leaf_path (tp_leaf_index (dt_right_proof n))) :: (zk_error, bytes) result)"
      by (simp_all add: Trace_Deletion key_range_left_path_def key_range_right_path_def get_leaf_path_eq)
    show ?thesis
      using key db paths miss root
      by (simp add: Trace_Deletion zk_remove_def zk_remove_found_def zk_nearest_keys_def zk_top_root_hash_def zk_parse_leaf_at_def
          zk_parse_node_def unknown_root_def)
  qed (use assms(2) key db sub root in \<open>simp_all add: zk_put_def zk_nearest_keys_def zk_top_root_hash_def zk_sub_root_hash_def unknown_root_def\<close>)
qed

end

lemma find_Some_sat: "find P xs = Some x \<Longrightarrow> x \<in> set xs \<and> P x"
  by (induction xs) (auto split: if_splits)

lemma trace_at_some: "trace_at H traces root k = Some tr \<Longrightarrow> tr \<in> set traces \<and> trace_top H tr = root \<and> trace_hkey H tr = k"
  unfolding trace_at_def by (drule find_Some_sat) simp

section \<open>Replay\<close>

text \<open>The proofs of a block's traces can be followed in the store of the block.\<close>

lemma block_follow:
  assumes "trie_hasher H" and "poe_v2_store H K debug traces codes proofs = Inr db"
    and "\<forall>tr\<in>set traces. wf_trace tr" "\<forall>tr\<in>set traces. \<exists>k. trie_hash H (trace_key tr) = Inr k"
    and inj: "inj_on nd_hash U" and U: "ran (mem_view H db) \<subseteq> U" "empty_node H 0 \<in> U"
  shows "stored_in U (mem_view H db)" "mem_view H db 0 = Some (empty_node H 0)"
    "tr \<in> set traces \<Longrightarrow> set (trace_stored H tr) \<subseteq> U \<Longrightarrow> (p, a, b) \<in> set (write_steps H tr) \<Longrightarrow> can_follow H (mem_view H db) (p, a)"
proof -
  let ?V = "mem_view H db"
  have "consistent ?V"
    using poe_store_nodes(1) [OF assms(1-4)] by (intro consistent_mem_view) (simp add: consistent_def nodes_ok_def)
  then show st: "stored_in U ?V" using U(1) by (simp add: stored_in_def)
  show "?V 0 = Some (empty_node H 0)"
    using known_node [OF inj st, of "empty_node H 0"] empty_nodes_dom [of 0 H] U(2)
    by (auto simp: empty_hash.simps mem_view_def map_add_Some_iff)
  assume tr: "tr \<in> set traces" "set (trace_stored H tr) \<subseteq> U" "(p, a, b) \<in> set (write_steps H tr)"
  have mem: "(p, a) \<in> set (trace_proofs tr)" using imageI [OF tr(3), of "\<lambda>(p, a, b). (p, a)"] by (simp add: trace_proofs_steps [of tr H])
  then have n: "n \<in> set (trace_stored H tr)" if "n \<in> set (proof_nodes H (p, a))" for n
    using that by (auto simp: trace_stored_def Let_def)
  have "?V (nd_hash n) = Some n" if "n \<in> set (proof_nodes H (p, a))" for n
    using known_node [OF inj st, of n] poe_store_nodes(2) [OF assms(1-4) tr(1) n [OF that]] n [OF that] tr(2)
    by (auto simp: mem_view_def map_add_def split: option.split)
  then show "can_follow H ?V (p, a)" using assms(3) tr mem by (auto simp: can_follow_def wf_trace_def list_all_iff)
qed

text \<open>The outcome, from which the properties below follow.\<close>

lemma replay_outcome:
  assumes "trie_hasher H" and "poe_v2_store H K debug traces codes proofs = Inr db"
    and "\<forall>tr\<in>set traces. wf_trace tr" "\<forall>tr\<in>set traces. \<exists>k. trie_hash H (trace_key tr) = Inr k"
    and "trace_at H traces (trace_top H tr) (trace_hkey H tr) = Some tr"
    and "write_steps H tr \<noteq> []" "honest_trace H tr"
  shows "nodes_collide (replay_nodes H db tr) \<or>
    (if mem_view H db (trace_top H tr) = None
     then trace_write H (prefix_db H u64_max_value) tr (zk_new (trace_top H tr), db) =
            (Inl (Fail (unknown_root H tr)), (zk_new (trace_top H tr), db))
     else \<exists>s'. trace_write H (prefix_db H u64_max_value) tr (zk_new (trace_top H tr), db) =
            (Inr (), (zk_new (branch_hash H (ucast (fst (trace_new_state tr))) (reached_sub_root H tr)), s')))"
proof -
  let ?D = "prefix_db H u64_max_value" and ?t = "zk_new (trace_top H tr)" and ?V = "mem_view H db"
  let ?U = "replay_nodes H db tr" and ?top = "top_of H (fst (trace_old_state tr)) (snd (trace_old_state tr))"
  have tr: "tr \<in> set traces" using trace_at_some [OF assms(5)] by blast
  have key: "trie_hash H (trace_key tr) = Inr (trace_hkey H tr)" using assms(4) tr by (auto simp: trace_hkey_def)
  have near: "mem_get_nearest_keys u64_max_value db (smt_root_hash ?t) (trace_hkey H tr) = Inr (trace_key_range tr)"
    using poe_v2_store_tells(1) [OF assms(1-4)] assms(5)
    by (simp add: tells_def nearest_keys_get zk_new_def smt_new_def)
  have root: "smt_root_hash ?t = trace_top H tr" "trace_top H tr = nd_hash ?top"
    by (simp_all add: zk_new_def smt_new_def trace_top_def)
  have links: "links_fit H tr" using assms(7) by (simp add: honest_trace_def)
  show ?thesis
  proof (cases "inj_on nd_hash ?U \<and> ?V (trace_top H tr) \<noteq> None")
    case True
    then have inj: "inj_on nd_hash ?U" and known: "?V (nd_hash ?top) \<noteq> None" using root by simp_all
    note block = block_follow [OF assms(1-4) inj]
    have st: "stored_in ?U ?V" and E: "?V 0 = Some (empty_node H 0)" by (rule block; auto simp: replay_nodes_def)+
    have follows: "\<forall>(p, a, b)\<in>set (write_steps H tr). can_follow H ?V (p, a)"
      using block(3) [OF _ _ tr] by (auto simp: replay_nodes_def)
    have pre: "stands_at (mem_view H) ?U ?V H (fst (trace_old_state tr)) (snd (trace_old_state tr)) ?t db"
      using st root known_node [OF inj st _ known] by (simp add: stands_at_def replay_nodes_def)
    have "db_get_nearest_keys ?D db (smt_root_hash ?t) (trace_hkey H tr) = Inr (trace_key_range tr)"
      using near by (simp add: prefix_db_def)
    with pre have now: "stands_at (mem_view H) ?U ?V H (fst (trace_old_state tr)) (snd (trace_old_state tr)) ?t db \<and>
        db_get_nearest_keys ?D db (smt_root_hash ?t) (trace_hkey H tr) = Inr (trace_key_range tr)" by blast
    note db = trie_hasher.prefix_trie_db [OF assms(1), of u64_max_value]
    obtain t' s' where run: "trace_write H ?D tr (?t, db) = (Inr (), (t', s'))"
      "stands_at (mem_view H) ?U ?V H (fst (trace_new_state tr)) (reached_sub_root H tr) t' s'"
      using triple_plain [OF trie_db.tracks_trace_write [OF db] refl now _
          trie_db.replay_step [OF db inj E assms(6) follows assms(7) key]]
      by (auto simp: replay_nodes_def)
    then have "t' = zk_new (branch_hash H (ucast (fst (trace_new_state tr))) (reached_sub_root H tr))"
      by (cases t') (simp add: stands_at_def zk_new_def smt_new_def)
    with run(1) True show ?thesis by auto
  next
    case False
    then show ?thesis
      using collide_or_inj [of ?U] trie_hasher.replay_without_root [OF assms(1) _ assms(6) _ links key near root(1)] assms(3) tr root(1)
      by auto
  qed
qed

text \<open>Two proofs with the same siblings and the same root are about the same leaf.\<close>

lemma up_nodes_collide:
  "nd_hash (last (up_nodes H m xs)) = nd_hash (last (up_nodes H n xs)) \<Longrightarrow>
   m = n \<or> nodes_collide (set (up_nodes H m xs) \<union> set (up_nodes H n xs))"
proof (induction xs arbitrary: m n)
  case Nil
  then show ?case by (auto simp: nodes_collide_def)
next
  case (Cons x xs)
  obtain d y where x: "x = (d, y)" by (cases x)
  let ?m = "branch_over H d (nd_hash m) y" and ?n = "branch_over H d (nd_hash n) y"
  have "?m = ?n \<or> nodes_collide (set (up_nodes H ?m xs) \<union> set (up_nodes H ?n xs))"
    using Cons.prems by (intro Cons.IH) (simp add: x)
  then show ?case
  proof
    assume "?m = ?n"
    then have "nd_hash m = nd_hash n" by (auto simp: branch_over_def split: if_splits)
    then show ?thesis by (auto simp: nodes_collide_def x)
  next
    assume "nodes_collide (set (up_nodes H ?m xs) \<union> set (up_nodes H ?n xs))"
    then show ?thesis unfolding nodes_collide_def x up_nodes.simps(2) by auto
  qed
qed

lemma same_proof_root:
  assumes "proof_root H (p, Some a) = proof_root H (p, Some b)"
  shows "a = b \<or> nodes_collide (set (proof_nodes H (p, Some a)) \<union> set (proof_nodes H (p, Some b)))"
proof -
  let ?xs = "zip (rev (leaf_bits (tp_leaf_index p))) (tp_siblings p)"
  have "nd_hash (last (up_nodes H (proof_leaf H (Some a)) ?xs)) = nd_hash (last (up_nodes H (proof_leaf H (Some b)) ?xs))"
    using assms by (simp add: last_up_nodes proof_root_def)
  from up_nodes_collide [OF this] show ?thesis
    by (auto simp: proof_nodes_def proof_leaf_def leaf_opening_to_bytes_inject)
qed

lemma chained_last: "chained H r steps r' \<Longrightarrow> steps \<noteq> [] \<Longrightarrow> last steps = (p, a, b) \<Longrightarrow> proof_root H (p, b) = r'"
  by (induction steps arbitrary: r) (auto split: if_splits)

lemma honest_last:
  assumes "honest_trace H tr" "write_steps H tr \<noteq> []" "last_leaf H tr = (p, a, b)"
  shows "proof_root H (p, Some b) = snd (trace_new_state tr)" "lo_next_leaf b = lo_next_leaf a"
proof -
  have last: "last (write_steps H tr) = (p, Some a, Some b)"
    using assms(2,3) by (cases tr) (auto simp: last_leaf_def)
  show "proof_root H (p, Some b) = snd (trace_new_state tr)"
    using chained_last [OF _ assms(2) last] assms(1) by (auto simp: honest_trace_def)
  show "lo_next_leaf b = lo_next_leaf a" using assms(2) last by (cases tr) auto
qed

section \<open>A trace that tells the truth\<close>

text \<open>The update of the third leaf: forty siblings of hash zero above it.\<close>

definition toy_write :: update_trace where
  "toy_write = \<lparr>ut_location = [], ut_new_next_free_node = 3, ut_old_sub_root = 40352, ut_new_sub_root = 40452,
     ut_proof = \<lparr>tp_leaf_index = 2, tp_siblings = replicate 40 0\<rparr>, ut_key = word_bytes 7, ut_old_value = word_bytes 3,
     ut_new_value = word_bytes 4, ut_prior_updated_leaf = toy_leaf 2\<rparr>"

lemma toy_write_root: "proof_root toy_hash (ut_proof toy_write, Some l) = nd_hash (proof_leaf toy_hash (Some l)) + 40000"
proof -
  have "map snd (zip (rev (leaf_bits 2)) (replicate 40 (0 :: sh256))) = replicate 40 0" by (rule map_snd_zip) simp
  then show ?thesis
    by (simp add: proof_root_def toy_write_def toy_proof_hash sum_list_replicate)
qed

lemma toy_write_facts:
  "\<forall>tr\<in>set [Trace_Update toy_write]. wf_trace tr"
  "\<forall>tr\<in>set [Trace_Update toy_write]. \<exists>k. trie_hash toy_hash (trace_key tr) = Inr k"
  "trace_at toy_hash [Trace_Update toy_write] (trace_top toy_hash (Trace_Update toy_write)) (trace_hkey toy_hash (Trace_Update toy_write)) =
     Some (Trace_Update toy_write)"
  "write_steps toy_hash (Trace_Update toy_write) \<noteq> []" "honest_trace toy_hash (Trace_Update toy_write)"
proof -
  show "\<forall>tr\<in>set [Trace_Update toy_write]. wf_trace tr"
    "\<forall>tr\<in>set [Trace_Update toy_write]. \<exists>k. trie_hash toy_hash (trace_key tr) = Inr k"
    by (simp_all add: toy_write_def wf_trace_def)
  have "ut_new_value toy_write = word_bytes 4" "ut_prior_updated_leaf toy_write = toy_leaf 2"
    "ut_old_sub_root toy_write = 40352" "ut_new_sub_root toy_write = 40452" by (simp_all add: toy_write_def)
  then show "honest_trace toy_hash (Trace_Update toy_write)"
    by (simp add: honest_trace_def toy_write_root proof_leaf_def toy_leaf_def)
qed (simp_all add: trace_at_def)

lemma next_free_value_word: "next_free_value i = word_bytes (ucast i)"
proof -
  have "word_of_bytes (next_free_value i) = ucast i"
    using format_node_index_eq [of i] by (simp add: format_node_index_def next_free_value_def)
  then show ?thesis using word_bytes_word_of_bytes [of "next_free_value i"] by (simp add: next_free_value_def)
qed

lemma toy_write_store:
  obtains db where "poe_v2_store toy_hash (\<lambda>_. 7) (\<lambda>_. []) [Trace_Update toy_write] [] [] = Inr db"
    "mem_view toy_hash db (trace_top toy_hash (Trace_Update toy_write)) \<noteq> None"
proof -
  obtain st where "mem_store_from_traces toy_hash [Trace_Update toy_write] = Inr st"
    using toy.from_traces_ok [OF _ toy_write_facts(1,2)] by blast
  then have db: "poe_v2_store toy_hash (\<lambda>_. 7) (\<lambda>_. []) [Trace_Update toy_write] [] [] = Inr (mem_add_codes (\<lambda>_. 7) [] st)"
    by (simp add: poe_v2_store_def)
  have "top_of toy_hash 3 40352 \<in> set (trace_stored toy_hash (Trace_Update toy_write))"
    by (simp add: trace_stored_def Let_def toy_write_def top_of_def next_free_value_word)
  from poe_store_nodes(2) [OF toy_trie_hasher db toy_write_facts(1,2) _ this]
  have "ms_nodes (mem_add_codes (\<lambda>_. 7) [] st) 41355 \<noteq> None" by simp
  moreover have "trace_top toy_hash (Trace_Update toy_write) = 41355" by (simp add: trace_top_def toy_write_def)
  ultimately show thesis
    using db that by (auto simp: mem_view_def map_add_def split: option.splits)
qed

lemma toy_write_run:
  "trace_top toy_hash (Trace_Update toy_write) = 41355"
  "trace_write H D (Trace_Update toy_write) = zk_put H D (word_bytes 7) (word_bytes 4)"
  "branch_hash toy_hash (ucast (fst (trace_new_state (Trace_Update toy_write)))) (reached_sub_root toy_hash (Trace_Update toy_write)) = 41453"
  "branch_hash toy_hash (ucast (fst (trace_new_state (Trace_Update toy_write)))) (snd (trace_new_state (Trace_Update toy_write))) = 41455"
proof -
  have f: "ut_new_value toy_write = word_bytes 4" "ut_prior_updated_leaf toy_write = toy_leaf 2" "ut_new_next_free_node toy_write = 3"
    by (simp_all add: toy_write_def)
  show "trace_top toy_hash (Trace_Update toy_write) = 41355" by (simp add: trace_top_def toy_write_def)
  show "trace_write H D (Trace_Update toy_write) = zk_put H D (word_bytes 7) (word_bytes 4)" by (simp add: toy_write_def)
  show "branch_hash toy_hash (ucast (fst (trace_new_state (Trace_Update toy_write)))) (reached_sub_root toy_hash (Trace_Update toy_write)) = 41453"
    by (simp add: reached_sub_root_def last_leaf_def f toy_write_root proof_leaf_def toy_leaf_def)
  show "branch_hash toy_hash (ucast (fst (trace_new_state (Trace_Update toy_write)))) (snd (trace_new_state (Trace_Update toy_write))) = 41455"
    by (simp add: toy_write_def)
qed

section \<open>The outcome of a replay\<close>

text \<open>C12: the write of a trace that tells the truth, over the store of its block. When the store has
  the top node that the trace starts at, the write returns, and the trie ends at the trace's new
  counter and at the sub root of the leaf that is written last, which has lost its next link to
  its previous one. When the store does not have it, the write fails and changes nothing.
  The exception is that two different nodes of those involved have the same hash.\<close>

theorem trace_replayed:
  assumes "trie_hasher H" and "poe_v2_store H K debug traces codes proofs = Inr db"
    and "\<forall>tr\<in>set traces. wf_trace tr" "\<forall>tr\<in>set traces. \<exists>k. trie_hash H (trace_key tr) = Inr k"
    and "trace_at H traces (trace_top H tr) (trace_hkey H tr) = Some tr"
    and "write_steps H tr \<noteq> []" "honest_trace H tr"
  shows "nodes_collide (replay_nodes H db tr) \<or>
    (if mem_view H db (trace_top H tr) = None
     then trace_write H (prefix_db H u64_max_value) tr (zk_new (trace_top H tr), db) =
            (Inl (Fail (unknown_root H tr)), (zk_new (trace_top H tr), db))
     else \<exists>s'. trace_write H (prefix_db H u64_max_value) tr (zk_new (trace_top H tr), db) =
            (Inr (), (zk_new (branch_hash H (ucast (fst (trace_new_state tr))) (reached_sub_root H tr)), s')))"
  by (rule replay_outcome [OF assms])

theorem trace_replayed_witness:
  "\<exists>db. poe_v2_store toy_hash (\<lambda>_. 7) (\<lambda>_. []) [Trace_Update toy_write] [] [] = Inr db \<and>
     (nodes_collide (replay_nodes toy_hash db (Trace_Update toy_write)) \<or>
      (\<exists>s'. zk_put toy_hash (prefix_db toy_hash u64_max_value) (word_bytes 7) (word_bytes 4) (zk_new 41355, db) =
         (Inr (), (zk_new 41453, s'))))"
proof -
  obtain db where db: "poe_v2_store toy_hash (\<lambda>_. 7) (\<lambda>_. []) [Trace_Update toy_write] [] [] = Inr db"
    "mem_view toy_hash db (trace_top toy_hash (Trace_Update toy_write)) \<noteq> None"
    by (rule toy_write_store)
  show ?thesis
    using trace_replayed [OF toy_trie_hasher db(1) toy_write_facts, unfolded toy_write_run] db(1) db(2) [unfolded toy_write_run] by (auto split: if_splits)
qed

text \<open>The nodes that decide about the root.\<close>

definition root_nodes :: "hasher \<Rightarrow> trace \<Rightarrow> node set" where
  "root_nodes H tr = (case last_leaf H tr of (p, a, b) \<Rightarrow>
     set (proof_nodes H (p, Some b)) \<union> set (proof_nodes H (p, Some (b\<lparr>lo_next_leaf := lo_prev_leaf a\<rparr>))) \<union>
     {top_of H (fst (trace_new_state tr)) (snd (trace_new_state tr)), top_of H (fst (trace_new_state tr)) (reached_sub_root H tr)})"

text \<open>C13: whether the program ends at the root that the state manager reports. After the write of a
  trace that tells the truth, the trie's root is the one the trace names exactly when the leaf
  that is written last had equal links to the leaf before it and the leaf after it; otherwise the
  lost link shows in the root. The exception is that two different nodes of those involved have the same hash.\<close>

theorem replay_ends_at_trace_root:
  assumes "trie_hasher H" and "poe_v2_store H K debug traces codes proofs = Inr db"
    and "\<forall>tr\<in>set traces. wf_trace tr" "\<forall>tr\<in>set traces. \<exists>k. trie_hash H (trace_key tr) = Inr k"
    and "trace_at H traces (trace_top H tr) (trace_hkey H tr) = Some tr"
    and "write_steps H tr \<noteq> []" "honest_trace H tr" "mem_view H db (trace_top H tr) \<noteq> None"
    and "last_leaf H tr = (p, a, b)"
  shows "nodes_collide (replay_nodes H db tr) \<or> nodes_collide (root_nodes H tr) \<or>
    (\<exists>t' s'. trace_write H (prefix_db H u64_max_value) tr (zk_new (trace_top H tr), db) = (Inr (), (t', s')) \<and>
      (zk_top_root_hash t' = branch_hash H (ucast (fst (trace_new_state tr))) (snd (trace_new_state tr)) \<longleftrightarrow>
       lo_next_leaf a = lo_prev_leaf a))"
proof -
  let ?nf = "fst (trace_new_state tr)" and ?new = "snd (trace_new_state tr)" and ?b = "b\<lparr>lo_next_leaf := lo_prev_leaf a\<rparr>"
  note b = honest_last [OF assms(7,6,9)]
  have reached: "reached_sub_root H tr = proof_root H (p, Some ?b)" by (simp add: reached_sub_root_def assms(9))
  have "branch_hash H (ucast ?nf) (proof_root H (p, Some ?b)) = branch_hash H (ucast ?nf) ?new \<longleftrightarrow> lo_next_leaf a = lo_prev_leaf a"
    if free: "\<not> nodes_collide (root_nodes H tr)"
  proof
    assume eq: "branch_hash H (ucast ?nf) (proof_root H (p, Some ?b)) = branch_hash H (ucast ?nf) ?new"
    have "top_of H ?nf (proof_root H (p, Some ?b)) = top_of H ?nf ?new"
      using free eq by (force simp: nodes_collide_def root_nodes_def assms(9) reached)
    then have "proof_root H (p, Some ?b) = proof_root H (p, Some b)" by (simp add: top_of_def b(1))
    from same_proof_root [OF this] have "?b = b"
      using free by (auto simp: nodes_collide_def root_nodes_def assms(9))
    then have "lo_next_leaf ?b = lo_next_leaf b" by metis
    then show "lo_next_leaf a = lo_prev_leaf a" using b(2) by simp
  next
    assume "lo_next_leaf a = lo_prev_leaf a"
    then have "?b = b" using b(2) by (cases b) simp
    then show "branch_hash H (ucast ?nf) (proof_root H (p, Some ?b)) = branch_hash H (ucast ?nf) ?new" using b(1) by simp
  qed
  then show ?thesis
    using replay_outcome [OF assms(1-7)] assms(8) by (auto simp: reached zk_top_root_hash_def zk_new_def smt_new_def)
qed

theorem replay_ends_at_trace_root_witness:
  "\<exists>db. poe_v2_store toy_hash (\<lambda>_. 7) (\<lambda>_. []) [Trace_Update toy_write] [] [] = Inr db \<and>
     (nodes_collide (replay_nodes toy_hash db (Trace_Update toy_write)) \<or> nodes_collide (root_nodes toy_hash (Trace_Update toy_write)) \<or>
      (\<exists>t' s'. zk_put toy_hash (prefix_db toy_hash u64_max_value) (word_bytes 7) (word_bytes 4) (zk_new 41355, db) =
         (Inr (), (t', s')) \<and> zk_top_root_hash t' \<noteq> 41455))"
proof -
  obtain db where db: "poe_v2_store toy_hash (\<lambda>_. 7) (\<lambda>_. []) [Trace_Update toy_write] [] [] = Inr db"
    "mem_view toy_hash db (trace_top toy_hash (Trace_Update toy_write)) \<noteq> None"
    by (rule toy_write_store)
  have last: "last_leaf toy_hash (Trace_Update toy_write) = (ut_proof toy_write, toy_leaf 2, (toy_leaf 2)\<lparr>lo_hval := 4\<rparr>)"
    by (simp add: last_leaf_def toy_write_def)
  have "lo_next_leaf (toy_leaf 2) \<noteq> lo_prev_leaf (toy_leaf 2)" by (simp add: toy_leaf_def)
  then show ?thesis
    using replay_ends_at_trace_root [OF toy_trie_hasher db(1) toy_write_facts db(2) last, unfolded toy_write_run] db(1) by blast
qed

end
