(* ===== verification/Block_Flush.thy ===== *)
theory Block_Flush
  imports Trace_Replay
begin

text \<open>
  The flush of a block: \<open>flush\<close> of \<open>zktrie_state.rs\<close> over the store of the block's traces. It is a
  walk from root to root: every dirty account is looked up at the root that the write before it
  has reached, and the traces say where its write leads. A root that no trace starts at ends the
  walk with a panic.
\<close>

section \<open>The walk\<close>

definition reached_root :: "hasher \<Rightarrow> trace \<Rightarrow> sh256" where
  "reached_root H tr = branch_hash H (ucast (fst (trace_new_state tr))) (reached_sub_root H tr)"

text \<open>The write that a trace tells.\<close>

fun write_told :: "trace \<Rightarrow> bytes \<Rightarrow> bytes \<Rightarrow> bool" where
  "write_told (Trace_Update n) item data \<longleftrightarrow> ut_key n = item \<and> ut_new_value n = data \<and> data \<noteq> []"
| "write_told (Trace_Insertion n) item data \<longleftrightarrow> it_key n = item \<and> it_value n = data \<and> data \<noteq> []"
| "write_told (Trace_Deletion n) item data \<longleftrightarrow> dt_key n = item \<and> data = []"
| "write_told _ item data \<longleftrightarrow> False"

text \<open>
  The walk reads the traces only. It is told truthfully when every trace that it meets is honest
  and tells the write at hand, and where no trace is met the store has no other answer.
\<close>

fun walk_root :: "hasher \<Rightarrow> trace list \<Rightarrow> sh256 \<Rightarrow> (bytes \<times> bytes) list \<Rightarrow> sh256 option" where
  "walk_root H traces root [] = Some root"
| "walk_root H traces root ((item, data) # us) =
     (case trace_at H traces root (projr (trie_hash H item)) of
        None \<Rightarrow> None
      | Some tr \<Rightarrow> walk_root H traces (reached_root H tr) us)"

fun walk_told :: "hasher \<Rightarrow> trace list \<Rightarrow> level_map \<Rightarrow> sh256 \<Rightarrow> (bytes \<times> bytes) list \<Rightarrow> bool" where
  "walk_told H traces I root [] \<longleftrightarrow> True"
| "walk_told H traces I root ((item, data) # us) \<longleftrightarrow> \<not> isl (trie_hash H item) \<and>
     (case trace_at H traces root (projr (trie_hash H item)) of
        None \<Rightarrow> level_map_get I root (u64_max_value, projr (trie_hash H item)) = None
      | Some tr \<Rightarrow> honest_trace H tr \<and> write_told tr item data \<and> walk_told H traces I (reached_root H tr) us)"

section \<open>The update loop\<close>

definition write_of :: "hasher \<Rightarrow> 's database \<Rightarrow> bytes \<Rightarrow> bytes \<Rightarrow> (zk_trie \<times> 's, zk_error, unit) comp" where
  "write_of H D item data = (if length data = 0 then zk_remove H D item else zk_put H D item data)"

lemma write_told_is: "write_told tr item data \<Longrightarrow> trace_write H D tr = write_of H D item data \<and> write_steps H tr \<noteq> [] \<and> trace_key tr = item"
  by (cases tr) (auto simp: write_of_def)

lemma update_loop_step:
  assumes "length data = 192 \<Longrightarrow> \<exists>acc. zk_account_from_bytes H K data = (Inr acc :: (string, zk_state_account) result)"
  shows "linea_trie_update_loop H K D ((item, data) # us) rs st =
    bindc (unwrapc (write_of H D item data)) (\<lambda>_. linea_trie_update_loop H K D us (rs @ [TrieUpdate_Success])) st"
  using assms by (auto simp: write_of_def bindc_def returnc_def)

lemma tracks_unwrapc [tracking]:
  assumes "tracks_trie cl c"
  shows "tracks_trie (unwrapc cl) (unwrapc c)"
  unfolding tracks_trie_def
proof (intro allI)
  fix t s w
  obtain ws where "cl (t, (s, w)) = (fst (c (t, s)), (fst (snd (c (t, s))), (snd (snd (c (t, s))), w @ ws)))"
    using assms unfolding tracks_trie_def by blast
  then show "\<exists>ws. unwrapc cl (t, (s, w)) =
      (fst (unwrapc c (t, s)), (fst (snd (unwrapc c (t, s))), (snd (snd (unwrapc c (t, s))), w @ ws)))"
    by (auto simp: unwrapc_def split: prod.split)
qed

lemma tracks_write_of [tracking]: "tracks_trie (write_of H (log_db D) item data) (write_of H D item data)"
  by (auto simp: write_of_def intro: tracking)

lemma tracks_update_loop [tracking]:
  "tracks_trie (linea_trie_update_loop H K (log_db D) us rs) (linea_trie_update_loop H K D us rs)"
proof (induction us arbitrary: rs)
  case (Cons u us)
  obtain item data where u: "u = (item, data)" by (cases u)
  have one: "tracks_trie (if length data = 0 then unwrapc (zk_remove H (log_db D) item) else unwrapc (zk_put H (log_db D) item data))
      (if length data = 0 then unwrapc (zk_remove H D item) else unwrapc (zk_put H D item data))"
    by (auto intro: tracking)
  show ?case
    unfolding u linea_trie_update_loop.simps
    by (intro tracks_trie_bind one Cons.IH) (auto intro: tracking)
qed (auto intro: tracking)

lemma write_keeps_index:
  "write_of H (prefix_db H p) item data (t, s) = (r, (t', s')) \<Longrightarrow> ms_index s' = ms_index s"
  using put_keeps_index [of H p item data t s] remove_keeps_index [of H p item t s]
  by (auto simp: write_of_def split: if_splits)

text \<open>Nothing is known of the key, or of the root: the write fails.\<close>

lemma write_unknown_key:
  assumes "trie_hash H item = Inr k" "level_map_get (ms_index s) (smt_root_hash t) (u64_max_value, k) = None"
  shows "write_of H (prefix_db H u64_max_value) item data (t, s) = (Inl Panic, (t, s))"
  using assms
  by (simp add: write_of_def zk_put_def zk_remove_def zk_nearest_keys_def prefix_db_def nearest_keys_get zk_top_root_hash_def)

lemma unwrap_error: "unwrapc c st = (Inl e, st') \<Longrightarrow> e = Panic"
  by (auto simp: unwrapc_def split: prod.splits elim: unwrap.elims)

section \<open>The walk of the loop\<close>

text \<open>What the loop relies on: the nodes \<open>U\<close> of the block without clashes, its store, its traces.\<close>

definition block_ready :: "hasher \<Rightarrow> trace list \<Rightarrow> node set \<Rightarrow> mem_store \<Rightarrow> bool" where
  "block_ready H traces U db \<longleftrightarrow> inj_on nd_hash U \<and> mem_view H db 0 = Some (empty_node H 0) \<and> tells H traces db \<and>
     (\<forall>tr\<in>set traces. top_of H (fst (trace_old_state tr)) (snd (trace_old_state tr)) \<in> U \<and>
        (\<forall>(p, a, b)\<in>set (write_steps H tr). can_follow H (mem_view H db) (p, a)))"

definition on_the_way :: "hasher \<Rightarrow> node set \<Rightarrow> mem_store \<Rightarrow> zk_trie \<Rightarrow> mem_store \<Rightarrow> bool" where
  "on_the_way H U db t s \<longleftrightarrow> stored_in U (mem_view H s) \<and> mem_view H db \<subseteq>\<^sub>m mem_view H s \<and>
     mem_view H s (smt_root_hash t) \<noteq> None \<and> ms_index s = ms_index db"

text \<open>One write that a trace tells.\<close>

lemma step_told:
  assumes "trie_hasher H" and ready: "block_ready H traces U db" and way: "on_the_way H U db t s"
    and tr: "trace_at H traces (smt_root_hash t) k = Some tr" "honest_trace H tr" "write_told tr item data"
    and k: "trie_hash H item = Inr k"
    and run: "write_of H (log_db (prefix_db H u64_max_value)) item data (t, (s, w)) = (r, (t', (s', w')))" "set w' \<subseteq> U"
  shows "r = Inr ()" "smt_root_hash t' = reached_root H tr" "on_the_way H U db t' s'"
proof -
  let ?D = "prefix_db H u64_max_value" and ?V = "mem_view H db"
  note db = trie_hasher.prefix_trie_db [OF assms(1), of u64_max_value]
  have at: "tr \<in> set traces" "trace_top H tr = smt_root_hash t" "trace_hkey H tr = k" using trace_at_some [OF tr(1)] by simp_all
  let ?top = "top_of H (fst (trace_old_state tr)) (snd (trace_old_state tr))"
  have root: "smt_root_hash t = nd_hash ?top" using at(2) by (simp add: trace_top_def)
  have "?top \<in> U" using ready at(1) by (simp add: block_ready_def)
  then have "mem_view H s (nd_hash ?top) = Some ?top"
    using known_node [of U "mem_view H s" ?top] ready way root by (auto simp: block_ready_def on_the_way_def)
  then have "stands_at (mem_view H) U ?V H (fst (trace_old_state tr)) (snd (trace_old_state tr)) t s"
    using way root by (simp add: stands_at_def on_the_way_def)
  moreover have "db_get_nearest_keys ?D s (smt_root_hash t) (trace_hkey H tr) = Inr (trace_key_range tr)"
    using ready way tr(1) at(3) by (simp add: prefix_db_def nearest_keys_get block_ready_def on_the_way_def tells_def)
  ultimately have now: "stands_at (mem_view H) U ?V H (fst (trace_old_state tr)) (snd (trace_old_state tr)) t s \<and>
      db_get_nearest_keys ?D s (smt_root_hash t) (trace_hkey H tr) = Inr (trace_key_range tr)" by blast
  note told = write_told_is [OF tr(3), of H "log_db ?D"]
  have key: "trie_hash H (trace_key tr) = Inr (trace_hkey H tr)"
    using told k at(3) by simp
  have steps: "write_steps H tr \<noteq> []" using told by simp
  have wr: "trace_write H (log_db ?D) tr (t, (s, w)) = (r, (t', (s', w')))" using told run(1) by simp
  have follow: "\<forall>(p, a, b)\<in>set (write_steps H tr). can_follow H ?V (p, a)" using ready at(1) by (simp add: block_ready_def)
  have inj: "inj_on nd_hash U" and E: "?V 0 = Some (empty_node H 0)" using ready by (simp_all add: block_ready_def)
  note step = tripleD [OF trie_db.replay_step [OF db inj E steps follow tr(2) key] now wr run(2)]
  show "r = Inr ()" by (rule step(1))
  show "smt_root_hash t' = reached_root H tr" using step(2) by (simp add: stands_at_def reached_root_def)
  have "write_of H ?D item data (t, s) = (r, (t', s'))" by (rule tracks_trieD [OF tracks_write_of run(1)])
  then have "ms_index s' = ms_index s" by (rule write_keeps_index)
  then show "on_the_way H U db t' s'" using step(2) way by (simp add: stands_at_def on_the_way_def)
qed

lemma loop_walks:
  assumes "trie_hasher H" and ready: "block_ready H traces U db"
    and accounts: "\<And>item data. (item, data) \<in> set us \<Longrightarrow> length data = 192 \<Longrightarrow>
      \<exists>acc. zk_account_from_bytes H K data = (Inr acc :: (string, zk_state_account) result)"
  shows "on_the_way H U db t s \<Longrightarrow> walk_told H traces (ms_index db) (smt_root_hash t) us \<Longrightarrow>
    linea_trie_update_loop H K (log_db (prefix_db H u64_max_value)) us rs (t, (s, w)) = (r, (t', (s', w'))) \<Longrightarrow> set w' \<subseteq> U \<Longrightarrow>
    (case walk_root H traces (smt_root_hash t) us of
       None \<Rightarrow> r = Inl Panic
     | Some root \<Rightarrow> (\<exists>rs'. r = Inr rs') \<and> smt_root_hash t' = root)"
  using accounts
proof (induction us arbitrary: t s w rs)
  case Nil
  then show ?case by auto
next
  case (Cons u us)
  obtain item data where u: "u = (item, data)" by (cases u)
  let ?L = "log_db (prefix_db H u64_max_value)"
  have acc: "length data = 192 \<Longrightarrow> \<exists>acc. zk_account_from_bytes H K data = (Inr acc :: (string, zk_state_account) result)"
    using Cons.prems(5) [of item data] by (simp add: u)
  obtain k where k: "trie_hash H item = Inr k" using Cons.prems(2) by (cases "trie_hash H item") (auto simp: u)
  obtain q t1 s1 w1 where q: "write_of H ?L item data (t, (s, w)) = (q, (t1, (s1, w1)))" by (metis prod.exhaust)
  have run: "bindc (unwrapc (write_of H ?L item data)) (\<lambda>_. linea_trie_update_loop H K ?L us (rs @ [TrieUpdate_Success])) (t, (s, w)) =
      (r, (t', (s', w')))"
    using Cons.prems(3) update_loop_step [of data H K ?L item us rs, OF acc] by (simp add: u)
  show ?case
  proof (cases "trace_at H traces (smt_root_hash t) k")
    case None
    then have "level_map_get (ms_index s) (smt_root_hash t) (u64_max_value, k) = None"
      using Cons.prems(1,2) k by (simp add: u on_the_way_def)
    from write_unknown_key [OF k this] tracks_trieD [OF tracks_write_of q] have "q = Inl Panic" by simp
    then have "r = Inl Panic" using run q by (simp add: bindc_def unwrapc_def)
    then show ?thesis using None k by (simp add: u)
  next
    case (Some tr)
    then have told: "honest_trace H tr" "write_told tr item data" "walk_told H traces (ms_index db) (reached_root H tr) us"
      using Cons.prems(2) k by (simp_all add: u)
    have "set w1 \<subseteq> U"
    proof (cases q)
      case (Inl e)
      then show ?thesis using run q Cons.prems(4) by (simp add: bindc_def unwrapc_def)
    next
      case (Inr x)
      then have "linea_trie_update_loop H K ?L us (rs @ [TrieUpdate_Success]) (t1, (s1, w1)) = (r, (t', (s', w')))"
        using run q by (simp add: bindc_def unwrapc_def)
      from growsD [OF tracks_trie_grows [OF tracks_update_loop] this] show ?thesis using Cons.prems(4) by simp
    qed
    note step = step_told [OF assms(1) ready Cons.prems(1) Some told(1,2) k q this]
    have "linea_trie_update_loop H K ?L us (rs @ [TrieUpdate_Success]) (t1, (s1, w1)) = (r, (t', (s', w')))"
      using run q step(1) by (simp add: bindc_def unwrapc_def)
    moreover have "(i, d) \<in> set us \<Longrightarrow> length d = 192 \<Longrightarrow>
        \<exists>acc. zk_account_from_bytes H K d = (Inr acc :: (string, zk_state_account) result)" for i d
      using Cons.prems(5) [of i d] by (simp add: u)
    moreover have "walk_told H traces (ms_index db) (smt_root_hash t1) us" using told(3) step(2) by simp
    ultimately have "case walk_root H traces (smt_root_hash t1) us of
       None \<Rightarrow> r = Inl Panic
     | Some root \<Rightarrow> (\<exists>rs'. r = Inr rs') \<and> smt_root_hash t' = root"
      using Cons.IH [OF step(3) _ _ Cons.prems(4)] by blast
    then show ?thesis using Some k step(2) by (simp add: u)
  qed
qed

text \<open>When the root is not known, the first write fails.\<close>

lemma loop_without_root:
  assumes "trie_hasher H" "us \<noteq> []" "walk_told H traces (ms_index db) (smt_root_hash t) us"
    and root: "mem_view H db (smt_root_hash t) = None" and tells: "tells H traces db" and wf: "\<forall>tr\<in>set traces. wf_trace tr"
    and accounts: "\<And>item data. (item, data) \<in> set us \<Longrightarrow> length data = 192 \<Longrightarrow>
      \<exists>acc. zk_account_from_bytes H K data = (Inr acc :: (string, zk_state_account) result)"
  shows "fst (linea_trie_update_loop H K (prefix_db H u64_max_value) us rs (t, db)) = Inl Panic"
proof -
  let ?D = "prefix_db H u64_max_value"
  obtain item data vs where us: "us = (item, data) # vs" using assms(2) by (cases us) auto
  have acc: "length data = 192 \<Longrightarrow> \<exists>acc. zk_account_from_bytes H K data = (Inr acc :: (string, zk_state_account) result)"
    using accounts [of item data] by (simp add: us)
  obtain k where k: "trie_hash H item = Inr k" using assms(3) by (cases "trie_hash H item") (auto simp: us)
  have "isl (fst (write_of H ?D item data (t, db)))"
  proof (cases "trace_at H traces (smt_root_hash t) k")
    case None
    then have "level_map_get (ms_index db) (smt_root_hash t) (u64_max_value, k) = None" using assms(3) k by (simp add: us)
    from write_unknown_key [OF k this] show ?thesis by simp
  next
    case (Some tr)
    then have told: "honest_trace H tr" "write_told tr item data" using assms(3) k by (simp_all add: us)
    note at = trace_at_some [OF Some] and is_write = write_told_is [OF told(2), of H ?D]
    have "trace_write H ?D tr (t, db) = (Inl (Fail (unknown_root H tr)), (t, db))"
      by (rule trie_hasher.replay_without_root [OF assms(1) root])
        (use told(1) at is_write k wf tells Some in \<open>auto simp: honest_trace_def nearest_keys_get tells_def\<close>)
    then show ?thesis using is_write by simp
  qed
  then obtain e st where "write_of H ?D item data (t, db) = (Inl e, st)" by (cases "write_of H ?D item data (t, db)") (auto simp: isl_def)
  then have "bindc (unwrapc (write_of H ?D item data)) (\<lambda>_. linea_trie_update_loop H K ?D vs (rs @ [TrieUpdate_Success])) (t, db) =
      (Inl Panic, st)" by (simp add: bindc_def unwrapc_def)
  then show ?thesis using update_loop_step [of data H K ?D item vs rs, OF acc] by (simp add: us)
qed

section \<open>The flush of a block\<close>

definition flush_root :: "hasher \<Rightarrow> trace list \<Rightarrow> mem_store \<Rightarrow> sh256 \<Rightarrow> (bytes \<times> bytes) list \<Rightarrow> sh256 option" where
  "flush_root H traces db root us = (if us \<noteq> [] \<and> mem_view H db root = None then None else walk_root H traces root us)"

definition flush_nodes :: "hasher \<Rightarrow> keccak \<Rightarrow> trace list \<Rightarrow> mem_store \<Rightarrow> sh256 \<Rightarrow> (bytes \<times> bytes) list \<Rightarrow> node set" where
  "flush_nodes H K traces db root us = ran (mem_view H db) \<union> {empty_node H 0} \<union>
     (\<Union>tr\<in>set traces. insert (top_of H (fst (trace_old_state tr)) (snd (trace_old_state tr))) (set (trace_stored H tr))) \<union>
     set (trie_written (linea_trie_update H K (log_db (prefix_db H u64_max_value)) us) (zk_new root) db)"

lemma update_walks:
  assumes "trie_hasher H" and "poe_v2_store H K' debug traces codes proofs = Inr db"
    and "\<forall>tr\<in>set traces. wf_trace tr" "\<forall>tr\<in>set traces. \<exists>k. trie_hash H (trace_key tr) = Inr k"
    and told: "walk_told H traces (ms_index db) root (sort_updates us)"
    and accounts: "\<And>item data. (item, data) \<in> set us \<Longrightarrow> length data = 192 \<Longrightarrow>
      \<exists>acc. zk_account_from_bytes H K data = (Inr acc :: (string, zk_state_account) result)"
  shows "nodes_collide (flush_nodes H K traces db root us) \<or>
    (\<exists>r t' s'. linea_trie_update H K (prefix_db H u64_max_value) us (zk_new root, db) = (r, (t', s')) \<and>
      (case flush_root H traces db root (sort_updates us) of
         None \<Rightarrow> r = Inl Panic
       | Some root' \<Rightarrow> (\<exists>rs. r = Inr rs) \<and> smt_root_hash t' = root'))"
proof -
  let ?U = "flush_nodes H K traces db root us" and ?D = "prefix_db H u64_max_value" and ?us = "sort_updates us"
  have hash: "smt_root_hash (zk_new root) = root" by (simp add: zk_new_def smt_new_def)
  have acc: "(item, data) \<in> set ?us \<Longrightarrow> length data = 192 \<Longrightarrow>
      \<exists>acc. zk_account_from_bytes H K data = (Inr acc :: (string, zk_state_account) result)" for item data
    using accounts by simp
  note tells = poe_v2_store_tells(1) [OF assms(1-4)]
  obtain r t' s' where plain: "linea_trie_update H K ?D us (zk_new root, db) = (r, (t', s'))" by (metis prod.exhaust)
  show ?thesis
  proof (cases "inj_on nd_hash ?U \<and> (?us = [] \<or> mem_view H db root \<noteq> None)")
    case True
    then have inj: "inj_on nd_hash ?U" and known: "?us = [] \<or> mem_view H db root \<noteq> None" by simp_all
    show ?thesis
    proof (cases "?us = []")
      case True
      then show ?thesis using plain hash by (auto simp: flush_root_def linea_trie_update_def returnc_def)
    next
      case False
      note block = block_follow [OF assms(1-4) inj]
      have st: "stored_in ?U (mem_view H db)" and E: "mem_view H db 0 = Some (empty_node H 0)"
        by (rule block; auto simp: flush_nodes_def)+
      have "can_follow H (mem_view H db) (p, a)" if "tr \<in> set traces" "(p, a, b) \<in> set (write_steps H tr)" for tr p a b
        by (rule block(3) [OF _ _ that(1) _ that(2)]) (use that(1) in \<open>auto simp: flush_nodes_def\<close>)
      then have ready: "block_ready H traces ?U db"
        using inj E tells by (auto simp: block_ready_def flush_nodes_def)
      have way: "on_the_way H ?U db (zk_new root) db" using st known False hash by (simp add: on_the_way_def)
      obtain r2 t2 s2 w2 where run: "linea_trie_update_loop H K (log_db ?D) ?us [] (zk_new root, (db, [])) = (r2, (t2, (s2, w2)))"
        by (metis prod.exhaust)
      then have w2: "set w2 \<subseteq> ?U" by (auto simp: flush_nodes_def trie_written_def linea_trie_update_def)
      have "(r, (t', s')) = (r2, (t2, s2))"
        using plain tracks_trieD [OF tracks_update_loop run] by (simp add: linea_trie_update_def)
      then show ?thesis
        using loop_walks [OF assms(1) ready acc way _ run w2] told plain known False hash by (auto simp: flush_root_def)
    qed
  next
    case False
    then show ?thesis
      using collide_or_inj [of ?U] plain told hash tells assms(3)
        loop_without_root [where us = ?us and t = "zk_new root" and rs = "[]", OF assms(1) _ _ _ tells assms(3) acc]
      by (auto simp: flush_root_def linea_trie_update_def)
  qed
qed

text \<open>The updates of a flush are encoded accounts, so the loop can decode them for its log.\<close>

lemma flush_updates_decode:
  assumes "trie_hasher H" "flush_updates (zk_account_enc H K) as_ref cache keys = Inr us" "(item, data) \<in> set us" "length data = 192"
  shows "\<exists>acc. zk_account_from_bytes H K data = (Inr acc :: (string, zk_state_account) result)"
proof -
  obtain k where k: "encode_cached (zk_account_enc H K) cache k = Inr data"
    using assms(2,3)
    by (induction keys arbitrary: us) (auto simp: flush_updates_def bind_result_ok_iff)
  then obtain a where "zk_account_to_bytes H K a = (Inr data :: (string, bytes) result)"
    using assms(4) by (auto simp: encode_cached_def zk_account_enc_def split: option.splits)
  moreover have "bind_result (zk_account_to_bytes H K a) (zk_account_from_bytes H K) = (Inr a :: (string, zk_state_account) result)"
    by (rule zk_account_from_to_bytes) (rule trie_hasher.zk_account_default_ok [OF assms(1)])
  ultimately show ?thesis by simp
qed

lemma flush_outcome:
  assumes "trie_hasher H" and "poe_v2_store H K debug traces codes proofs = Inr db"
    and "\<forall>tr\<in>set traces. wf_trace tr" "\<forall>tr\<in>set traces. \<exists>k. trie_hash H (trace_key tr) = Inr k"
    and "over_store H E" "zs_db s = db" "tc_raw (zs_acc_cache s) = zk_new root" "finite (tc_dirty (zs_acc_cache s))"
    and "flush_updates (env_account E) sh160_bytes (tc_cache (zs_acc_cache s)) (sorted_list_of_set (tc_dirty (zs_acc_cache s))) = Inr us"
    and "walk_told H traces (ms_index db) root (sort_updates us)"
  shows "nodes_collide (flush_nodes H (ze_keccak E) traces db root us) \<or>
    fst (flush E s) = (case flush_root H traces db root (sort_updates us) of None \<Rightarrow> Inl Panic | Some root' \<Rightarrow> Inr root')"
proof -
  have E: "ze_hasher E = H" "ze_db E = prefix_db H u64_max_value" using assms(5) by (simp_all add: over_store_def)
  obtain r c d where f: "trie_cache_flush (env_trie E) (env_account E) sh160_bytes (zs_acc_cache s, zs_db s) = (r, (c, d))"
    by (metis prod.exhaust)
  have upd: "tt_update (env_trie E) = linea_trie_update H (ze_keccak E) (prefix_db H u64_max_value)"
    by (simp add: linea_trie_def E)
  have us: "flush_updates (zk_account_enc H (ze_keccak E)) sh160_bytes (tc_cache (zs_acc_cache s))
      (sorted_list_of_set (tc_dirty (zs_acc_cache s))) = Inr us" using assms(9) by (simp add: E)
  have walk: "nodes_collide (flush_nodes H (ze_keccak E) traces db root us) \<or>
    (\<exists>r t' s'. linea_trie_update H (ze_keccak E) (prefix_db H u64_max_value) us (zk_new root, db) = (r, (t', s')) \<and>
      (case flush_root H traces db root (sort_updates us) of
         None \<Rightarrow> r = Inl Panic
       | Some root' \<Rightarrow> (\<exists>rs. r = Inr rs) \<and> smt_root_hash t' = root'))"
    by (rule update_walks [OF assms(1-4,10)]) (rule flush_updates_decode [OF assms(1) us])
  consider "nodes_collide (flush_nodes H (ze_keccak E) traces db root us)"
    | q t' s' where "linea_trie_update H (ze_keccak E) (prefix_db H u64_max_value) us (zk_new root, db) = (q, (t', s'))"
      "case flush_root H traces db root (sort_updates us) of
         None \<Rightarrow> q = Inl Panic
       | Some root' \<Rightarrow> (\<exists>rs. q = Inr rs) \<and> smt_root_hash t' = root'" using walk by blast
  then show ?thesis
  proof cases
    case 2
    show ?thesis
    proof (cases "flush_root H traces db root (sort_updates us)")
      case None
      then have "r = Inl Panic" using f 2 assms(6,7,9) by (simp add: trie_cache_flush_def Let_def upd)
      then show ?thesis using f None by (simp add: flush_def)
    next
      case (Some root')
      then obtain rs where q: "q = Inr rs" "smt_root_hash t' = root'" using 2(2) by auto
      have "length rs = length (sorted_list_of_set (tc_dirty (zs_acc_cache s)))"
        using linea_cached.update_success [of H "ze_keccak E" "ze_debug E" "prefix_db H u64_max_value" us "(zk_new root, db)" rs "(t', s')"]
          2(1) q flush_updates_ok(1) [OF assms(9)] by (simp add: linea_trie_def)
      then have "tc_raw c = t'" "r \<noteq> Inl Panic"
        using f 2(1) q assms(6,7,9) by (auto simp: trie_cache_flush_def Let_def upd split: prod.splits if_splits)
      then show ?thesis
        using f Some q
        by (auto simp: flush_def Let_def trie_cache_root_hash_def linea_trie_def linea_trie_root_hash_def zk_top_root_hash_def
            split: failure.split sum.split)
    qed
  qed blast
qed

text \<open>C4: the flush of a block. Over the store of a block whose traces tell the writes of the dirty
  accounts truthfully, \<open>flush\<close> works through the accounts in descending order of their addresses.
  Each write starts at the root that the write before it reached. When every one of these roots
  is where some trace of the account starts, the flush returns the root that the last write
  reaches. When one of them is not, or the first is not a node of the store, the flush panics. The
  exception is that two different nodes of those involved have the same hash.\<close>

theorem flush_walks_traces:
  assumes "trie_hasher H" and "poe_v2_store H K debug traces codes proofs = Inr db"
    and "\<forall>tr\<in>set traces. wf_trace tr" "\<forall>tr\<in>set traces. \<exists>k. trie_hash H (trace_key tr) = Inr k"
    and "over_store H E" "zs_db s = db" "tc_raw (zs_acc_cache s) = zk_new root" "finite (tc_dirty (zs_acc_cache s))"
    and "flush_updates (env_account E) sh160_bytes (tc_cache (zs_acc_cache s)) (sorted_list_of_set (tc_dirty (zs_acc_cache s))) = Inr us"
    and "walk_told H traces (ms_index db) root (sort_updates us)"
  shows "nodes_collide (flush_nodes H (ze_keccak E) traces db root us) \<or>
    fst (flush E s) = (case flush_root H traces db root (sort_updates us) of None \<Rightarrow> Inl Panic | Some root' \<Rightarrow> Inr root')"
  by (rule flush_outcome [OF assms])

text \<open>
  The witness has the accounts 3 and 9, of which the trace tells the write of 9. When 9 alone is dirty,
  the flush returns; when both are, the write of 9 comes first and nothing is told of 3 at the
  root that it reaches.
\<close>

definition toy_poorer_bytes :: bytes where
  "toy_poorer_bytes = word_bytes 3 @ word_bytes 25 @ word_bytes 81008 @ word_bytes 1 @ word_bytes 7 @ word_bytes 3"

definition toy_flush_trace :: trace where
  "toy_flush_trace = Trace_Update (toy_write\<lparr>ut_key := sh160_bytes 9, ut_old_value := toy_poorer_bytes,
     ut_new_value := toy_account_bytes, ut_new_sub_root := 81066352\<rparr>)"

definition toy_flush_state :: "sh160 set \<Rightarrow> mem_store \<Rightarrow> mem_store zk_trie_state" where
  "toy_flush_state dirty db = \<lparr>zs_db = db, zs_acc_cache = \<lparr>tc_raw = zk_new 41355, tc_cache = [3 \<mapsto> toy_account, 9 \<mapsto> toy_account],
     tc_dirty = dirty\<rparr>, zs_storages = Map.empty\<rparr>"

lemma toy_short_hash: "n < 256 \<Longrightarrow> trie_hash toy_hash (sh160_bytes (word_of_nat n)) = Inr (word_of_nat n)"
proof -
  assume "n < 256"
  then have "length (sh160_bytes (word_of_nat n)) = 20" "word_of_bytes (sh160_bytes (word_of_nat n)) = word_of_nat n" "word_of_bytes [] = 0"
    by (simp_all add: word_of_bytes_def sh160_bytes_def be_nat_be_bytes unat_of_nat)
  then show ?thesis by (simp add: trie_hash_def toy_hash_def toy_word_def)
qed

lemma be_bytes_zero: "be_bytes n 0 = replicate n 0"
  by (induction n) (simp_all add: replicate_append_same)

lemma sh160_bytes_short: "n < 256 \<Longrightarrow> sh160_bytes (word_of_nat n) = replicate 19 0 @ [word_of_nat n]"
proof -
  assume "n < 256"
  moreover have "be_bytes (Suc 19) n = be_bytes 19 (n div 256) @ [word_of_nat n]" by (rule be_bytes.simps)
  ultimately show ?thesis by (simp add: sh160_bytes_def unat_of_nat be_bytes_zero)
qed

lemma list_less_append: "(xs @ ys < xs @ zs) = (ys < (zs :: bytes))" "(xs @ ys \<le> xs @ zs) = (ys \<le> (zs :: bytes))"
  by (induction xs) simp_all

lemma toy_flush_facts:
  "trie_hash toy_hash (sh160_bytes 9) = Inr 9" "trie_hash toy_hash (sh160_bytes 3) = Inr 3"
  "trie_hash toy_hash toy_account_bytes = Inr 810263"
  "sort_updates [(sh160_bytes 3, d), (sh160_bytes 9, d)] = [(sh160_bytes 9, d), (sh160_bytes 3, d)]"
proof -
  show "trie_hash toy_hash (sh160_bytes 9) = Inr 9" "trie_hash toy_hash (sh160_bytes 3) = Inr 3"
    using toy_short_hash [of 9] toy_short_hash [of 3] by simp_all
  show "trie_hash toy_hash toy_account_bytes = Inr 810263"
    by (simp add: toy_account_bytes_def trie_hash_def toy_hash_def toy_word_def drop_append take_append)
  have "sh160_bytes 3 \<le> sh160_bytes 9"
    using sh160_bytes_short [of 3] sh160_bytes_short [of 9] by (simp add: list_less_append word_le_nat_alt)
  then show "sort_updates [(sh160_bytes 3, d), (sh160_bytes 9, d)] = [(sh160_bytes 9, d), (sh160_bytes 3, d)]"
    using sh160_bytes_short [of 3] sh160_bytes_short [of 9] by (simp add: sort_updates_def list_less_append)
qed

lemma toy_flush_block:
  obtains db where "poe_v2_store toy_hash (\<lambda>_. 7) (\<lambda>_. []) [toy_flush_trace] [] [] = Inr db"
    "mem_view toy_hash db 41355 \<noteq> None" "level_map_get (ms_index db) 81067353 k = None"
    "\<forall>tr\<in>set [toy_flush_trace]. wf_trace tr" "\<forall>tr\<in>set [toy_flush_trace]. \<exists>k. trie_hash toy_hash (trace_key tr) = Inr k"
proof -
  have facts: "\<forall>tr\<in>set [toy_flush_trace]. wf_trace tr" "\<forall>tr\<in>set [toy_flush_trace]. \<exists>k. trie_hash toy_hash (trace_key tr) = Inr k"
    using toy_flush_facts(1) by (simp_all add: toy_flush_trace_def toy_write_def wf_trace_def)
  have top: "trace_top toy_hash toy_flush_trace = 41355" by (simp add: trace_top_def toy_flush_trace_def toy_write_def)
  obtain p i where k: "k = (p, i)" by (cases k)
  obtain st where st: "mem_store_from_traces toy_hash [toy_flush_trace] = Inr st"
    "level_map_get (ms_index st) 81067353 (p, i) = None"
    using toy.from_traces_ok [OF _ facts] top by auto
  then have db: "poe_v2_store toy_hash (\<lambda>_. 7) (\<lambda>_. []) [toy_flush_trace] [] [] = Inr (mem_add_codes (\<lambda>_. 7) [] st)"
    by (simp add: poe_v2_store_def)
  have "top_of toy_hash 3 40352 \<in> set (trace_stored toy_hash toy_flush_trace)"
    by (simp add: trace_stored_def Let_def toy_flush_trace_def toy_write_def top_of_def next_free_value_word)
  from poe_store_nodes(2) [OF toy_trie_hasher db facts _ this]
  have "ms_nodes (mem_add_codes (\<lambda>_. 7) [] st) 41355 \<noteq> None" by simp
  then have "mem_view toy_hash (mem_add_codes (\<lambda>_. 7) [] st) 41355 \<noteq> None"
    by (auto simp: mem_view_def map_add_def split: option.splits)
  moreover have "level_map_get (ms_index (mem_add_codes (\<lambda>_. 7) [] st)) 81067353 k = None" using st(2) by (simp add: mem_add_codes_def k)
  ultimately show thesis using that [OF db] facts by blast
qed

lemma toy_flush_walk:
  assumes "level_map_get (ms_index db) 81067353 (u64_max_value, 3) = None"
  shows "walk_root toy_hash [toy_flush_trace] 41355 [(sh160_bytes 9, toy_account_bytes)] = Some 81067353"
    "walk_root toy_hash [toy_flush_trace] 41355 [(sh160_bytes 9, toy_account_bytes), (sh160_bytes 3, toy_account_bytes)] = None"
    "walk_told toy_hash [toy_flush_trace] (ms_index db) 41355 [(sh160_bytes 9, toy_account_bytes)]"
    "walk_told toy_hash [toy_flush_trace] (ms_index db) 41355 [(sh160_bytes 9, toy_account_bytes), (sh160_bytes 3, toy_account_bytes)]"
proof -
  have f: "ut_new_value toy_write = word_bytes 4" "ut_prior_updated_leaf toy_write = toy_leaf 2" "ut_new_next_free_node toy_write = 3"
    "ut_old_sub_root toy_write = 40352" by (simp_all add: toy_write_def)
  have reached: "reached_root toy_hash toy_flush_trace = 81067353"
    by (simp add: reached_root_def reached_sub_root_def last_leaf_def toy_flush_trace_def f toy_flush_facts toy_write_root proof_leaf_def toy_leaf_def)
  have at: "trace_at toy_hash [toy_flush_trace] 41355 9 = Some toy_flush_trace" "trace_at toy_hash [toy_flush_trace] 81067353 3 = None"
    by (simp_all add: trace_at_def trace_top_def trace_hkey_def toy_flush_trace_def f toy_flush_facts)
  have honest: "honest_trace toy_hash toy_flush_trace"
    by (simp add: honest_trace_def toy_flush_trace_def f toy_flush_facts toy_write_root proof_leaf_def toy_leaf_def)
  have told: "write_told toy_flush_trace (sh160_bytes 9) toy_account_bytes"
    using word_bytes_ok(2) [of 3] by (simp add: toy_flush_trace_def toy_account_bytes_def)
  show "walk_root toy_hash [toy_flush_trace] 41355 [(sh160_bytes 9, toy_account_bytes)] = Some 81067353"
    "walk_root toy_hash [toy_flush_trace] 41355 [(sh160_bytes 9, toy_account_bytes), (sh160_bytes 3, toy_account_bytes)] = None"
    "walk_told toy_hash [toy_flush_trace] (ms_index db) 41355 [(sh160_bytes 9, toy_account_bytes)]"
    "walk_told toy_hash [toy_flush_trace] (ms_index db) 41355 [(sh160_bytes 9, toy_account_bytes), (sh160_bytes 3, toy_account_bytes)]"
    using assms by (simp_all add: toy_flush_facts at reached honest told)
qed

theorem flush_walks_traces_witness:
  "\<exists>db. poe_v2_store toy_hash (\<lambda>_. 7) (\<lambda>_. []) [toy_flush_trace] [] [] = Inr db \<and>
     (nodes_collide (flush_nodes toy_hash (\<lambda>_. 7) [toy_flush_trace] db 41355 [(sh160_bytes 9, toy_account_bytes)]) \<or>
      fst (flush toy_env (toy_flush_state {9} db)) = Inr 81067353) \<and>
     (nodes_collide (flush_nodes toy_hash (\<lambda>_. 7) [toy_flush_trace] db 41355 [(sh160_bytes 3, toy_account_bytes), (sh160_bytes 9, toy_account_bytes)]) \<or>
      fst (flush toy_env (toy_flush_state {3, 9} db)) = Inl Panic)"
proof -
  obtain db where db: "poe_v2_store toy_hash (\<lambda>_. 7) (\<lambda>_. []) [toy_flush_trace] [] [] = Inr db"
    "mem_view toy_hash db 41355 \<noteq> None" "level_map_get (ms_index db) 81067353 (u64_max_value, 3) = None"
    "\<forall>tr\<in>set [toy_flush_trace]. wf_trace tr" "\<forall>tr\<in>set [toy_flush_trace]. \<exists>k. trie_hash toy_hash (trace_key tr) = Inr k"
    by (rule toy_flush_block)
  have enc: "encode_cached (env_account toy_env) [3 \<mapsto> toy_account, 9 \<mapsto> toy_account] a = Inr toy_account_bytes" if "a = 3 \<or> a = 9" for a :: sh160
    using that
    by (auto simp: encode_cached_def zk_account_enc_def zk_account_to_bytes_def toy_env_def trie_hasher.zk_account_default_ok [OF toy_trie_hasher] toy_account_def toy_account_bytes_def)
  have dirty: "sorted_list_of_set {3, 9 :: sh160} = [3, 9]" by simp
  have s: "zs_db (toy_flush_state d db) = db" "tc_raw (zs_acc_cache (toy_flush_state d db)) = zk_new 41355" for d
    by (simp_all add: toy_flush_state_def)
  have one: "flush_updates (env_account toy_env) sh160_bytes (tc_cache (zs_acc_cache (toy_flush_state {9} db)))
      (sorted_list_of_set (tc_dirty (zs_acc_cache (toy_flush_state {9} db)))) = Inr [(sh160_bytes 9, toy_account_bytes)]"
    and two: "flush_updates (env_account toy_env) sh160_bytes (tc_cache (zs_acc_cache (toy_flush_state {3, 9} db)))
      (sorted_list_of_set (tc_dirty (zs_acc_cache (toy_flush_state {3, 9} db)))) =
      Inr [(sh160_bytes 3, toy_account_bytes), (sh160_bytes 9, toy_account_bytes)]"
    by (simp_all add: flush_updates_def toy_flush_state_def enc dirty del: fun_upd_apply)
  note law = flush_walks_traces [OF toy_trie_hasher db(1,4,5) toy_block(3) s]
  have sort: "sort_updates [(sh160_bytes 9, toy_account_bytes)] = [(sh160_bytes 9, toy_account_bytes)]" by (simp add: sort_updates_def)
  note walk = toy_flush_walk [OF db(3)]
  have "nodes_collide (flush_nodes toy_hash (\<lambda>_. 7) [toy_flush_trace] db 41355 [(sh160_bytes 9, toy_account_bytes)]) \<or>
      fst (flush toy_env (toy_flush_state {9} db)) = Inr 81067353"
    using law [OF _ one] walk db(2) by (simp add: sort flush_root_def toy_flush_state_def toy_env_def)
  moreover have "nodes_collide (flush_nodes toy_hash (\<lambda>_. 7) [toy_flush_trace] db 41355 [(sh160_bytes 3, toy_account_bytes), (sh160_bytes 9, toy_account_bytes)]) \<or>
      fst (flush toy_env (toy_flush_state {3, 9} db)) = Inl Panic"
    using law [OF _ two] walk db(2) by (simp add: toy_flush_facts flush_root_def toy_flush_state_def toy_env_def)
  ultimately show ?thesis using db(1) by blast
qed

end
