(* ===== verification/Block_Run.thy ===== *)
theory Block_Run
  imports State_Spec Block_Flush
begin

text \<open>
  The execution of a block on the zk trie, from the traces to the outcome of \<open>execute_v2\<close>. The EVM
  is a client of the state database for every transaction; what it answers and writes is the map
  of accounts of \<open>State_Spec\<close>, and where the flush leads is the walk of \<open>Block_Flush\<close>.
\<close>

section \<open>The updates of a specification\<close>

definition spec_updates :: "mem_store zk_env \<Rightarrow> state_spec \<Rightarrow> (string, (bytes \<times> bytes) list) result" where
  "spec_updates E S = map_result (\<lambda>a. bind_result (bind_result (ss_accounts S a) (zk_account_to_bytes (ze_hasher E) (ze_keccak E)))
     (\<lambda>data. Inr (sh160_bytes a, data))) (sorted_list_of_set (ss_dirty S))"

lemma map_result_cong: "(\<And>x. x \<in> set xs \<Longrightarrow> f x = g x) \<Longrightarrow> map_result f xs = map_result g xs"
  by (induction xs) simp_all

lemma spec_updates_flush:
  assumes "state_rel E db raw s S"
  shows "flush_updates (env_account E) sh160_bytes (tc_cache (zs_acc_cache s)) (sorted_list_of_set (tc_dirty (zs_acc_cache s))) =
    spec_updates E S"
proof -
  have dirty: "tc_dirty (zs_acc_cache s) = ss_dirty S" "finite (ss_dirty S)" "ss_dirty S \<subseteq> dom (tc_cache (zs_acc_cache s))"
    and acc: "account E s = ss_accounts S" using assms by (simp_all add: state_rel_def)
  have "encode_cached (env_account E) (tc_cache (zs_acc_cache s)) a =
      bind_result (ss_accounts S a) (zk_account_to_bytes (ze_hasher E) (ze_keccak E))" if mem: "a \<in> ss_dirty S" for a
  proof -
    obtain v where v: "tc_cache (zs_acc_cache s) a = Some v" using dirty(3) mem by blast
    then have "account E s a = Inr v" by (simp add: account_def current_value_def)
    then have "ss_accounts S a = Inr v" by (simp add: acc)
    with v show ?thesis by (simp add: encode_cached_def zk_account_enc_def)
  qed
  then show ?thesis
    unfolding flush_updates_def spec_updates_def dirty(1) using dirty(2) by (intro map_result_cong) simp
qed

section \<open>Transactions\<close>

text \<open>
  The builder of the EVM library keeps a state \<open>'x\<close> of its own beside the state database. A
  transaction is a client of the database that ends with an error or the builder's next state.
\<close>

definition client_commit ::
  "(state_call \<Rightarrow> ('t, statedb_error, answer) comp) \<Rightarrow> ('x \<Rightarrow> 'i \<Rightarrow> (string + 'x) client) \<Rightarrow> 'i \<Rightarrow> ('x \<times> 't, string, unit) comp" where
  "client_commit call tx i = (\<lambda>(x, s).
     case run_client call (tx x i) s of
       (Inl e, s') \<Rightarrow> (Inl e, (x, s'))
     | (Inr (Inl e), s') \<Rightarrow> (Inl (Fail e), (x, s'))
     | (Inr (Inr x'), s') \<Rightarrow> (Inr (), (x', s')))"

text \<open>What is relied on: the builder uses the state through its calls and its flush only.\<close>

definition over_state ::
  "'s zk_env \<Rightarrow> (statedb_error \<Rightarrow> string) \<Rightarrow> (linea \<Rightarrow> block_hash_cache \<Rightarrow> 'h \<Rightarrow> (string, 'x) result) \<Rightarrow>
   ('x \<Rightarrow> 'i \<Rightarrow> (string + 'x) client) \<Rightarrow> ('s zk_trie_state, 'x \<times> 's zk_trie_state, 'h, 'i, 'w, 'k) block_builder \<Rightarrow> bool" where
  "over_state E debug start tx B \<longleftrightarrow>
     (\<forall>engine s hashes h. bb_new B engine s hashes h = bind_result (start engine hashes h) (\<lambda>x. Inr (x, s))) \<and>
     (\<forall>i. bb_commit B i = client_commit (run_call E) tx i) \<and>
     (\<forall>x s. bb_flush_state B (x, s) = (case flush E s of (r, s') \<Rightarrow> (map_err debug r, (x, s'))))"

context state_interface begin

lemma commit_all_follows:
  "rel s S \<Longrightarrow> commit_all (client_commit call tx) txs (x, s) = (r, (y, s')) \<Longrightarrow>
   commit_all (client_commit spec tx) txs (x, S) = (q, (z, S')) \<Longrightarrow> r = q \<and> y = z \<and> rel s' S'"
proof (induction txs arbitrary: x s S)
  case (Cons i txs)
  obtain o1 o2 :: "(string, string + 'a) result" and s1 S1 where run:
    "run_client call (tx x i) s = (o1, s1)" "run_client spec (tx x i) S = (o2, S1)" by (metis prod.exhaust)
  from client_follows [OF Cons.prems(1) run] have same: "o1 = o2" and rel: "rel s1 S1" by simp_all
  show ?case
    using Cons.prems(2,3) rel run Cons.IH [of s1 S1] unfolding same
    by (auto simp: client_commit_def bindc_def unwrapc_def split: sum.splits failure.splits)
qed simp

end

section \<open>The execution of a block\<close>

lemma flush_follows:
  assumes "trie_hasher H" and "poe_v2_store H K debug traces codes proofs = Inr db"
    and "\<forall>tr\<in>set traces. wf_trace tr" "\<forall>tr\<in>set traces. \<exists>k. trie_hash H (trace_key tr) = Inr k"
    and "over_store H E" "state_rel E db (zk_new root) s S"
    and "spec_updates E S = Inr us" "walk_told H traces (ms_index db) root (sort_updates us)"
  shows "nodes_collide (flush_nodes H (ze_keccak E) traces db root us) \<or>
    fst (flush E s) = (case flush_root H traces db root (sort_updates us) of None \<Rightarrow> Inl Panic | Some root' \<Rightarrow> Inr root')"
proof -
  have facts: "zs_db s = db" "tc_raw (zs_acc_cache s) = zk_new root" "finite (tc_dirty (zs_acc_cache s))"
    using assms(6) by (simp_all add: state_rel_def)
  have "flush_updates (env_account E) sh160_bytes (tc_cache (zs_acc_cache s)) (sorted_list_of_set (tc_dirty (zs_acc_cache s))) = Inr us"
    using spec_updates_flush [OF assms(6)] assms(7) by simp
  from flush_outcome [OF assms(1-5) facts this assms(8)] show ?thesis .
qed

text \<open>The outcome of \<open>execute_v2\<close>, from the traces of the block. Whatever clients of the state
  database the transactions are, the execution fails as they fail over the map of accounts that
  starts with the accounts at the first trace. When they all commit and the traces tell the writes
  of the accounts they changed truthfully, the execution succeeds exactly when the walk along the
  traces with the encoded changed accounts, in descending order of their addresses, does not end
  early, and panics otherwise. The exception is that two different nodes of those involved have
  the same hash.\<close>

theorem block_execution_outcome:
  assumes "trie_hasher H" and "poe_v2_store H K debug traces codes proofs = Inr db"
    and "\<forall>tr\<in>set traces. wf_trace tr" "\<forall>tr\<in>set traces. \<exists>k. trie_hash H (trace_key tr) = Inr k"
    and "over_store H E" "over_state E show_err start tx B" "new_from_trace H db (hd traces) = (Inr s :: (string, mem_store zk_trie_state) result)"
    and "start engine Map.empty (rb_header block) = Inr x" "preprocess_txs inner engine (rb_transactions block) = Inr txs"
  shows "case commit_all (client_commit (spec_call E db) tx) txs (x, \<lparr>ss_accounts = account E s, ss_dirty = {}\<rparr>) of
      (Inl e, _) \<Rightarrow> execute_v2 H B inner engine db traces block = Inl e
    | (Inr _, (y, S)) \<Rightarrow>
        \<forall>us. spec_updates E S = Inr us \<and> walk_told H traces (ms_index db) (trace_top H (hd traces)) (sort_updates us) \<longrightarrow>
          nodes_collide (flush_nodes H (ze_keccak E) traces db (trace_top H (hd traces)) us) \<or>
          execute_v2 H B inner engine db traces block =
            (if flush_root H traces db (trace_top H (hd traces)) (sort_updates us) = None then Inl Panic else Inr ())"
proof -
  let ?root = "trace_top H (hd traces)" and ?S = "\<lparr>ss_accounts = account E s, ss_dirty = {}\<rparr>"
  obtain st where "mem_store_from_traces H traces = Inr st" using assms(2) by (rule poe_v2_storeE)
  then have "traces \<noteq> []" by (auto simp: mem_store_from_traces_def level_map_from_traces_def bind_result_ok_iff)
  then have hd: "index traces 0 = (Inr (hd traces) :: (string, trace) result)" by (simp add: hd_conv_nth)
  have top: "trace_old_top_hash H (hd traces) = (Inr ?root :: (string, sh256) result)"
    by (simp add: trace_old_top_hash_def trace_old_top_node_def trace_top_def trie_hasher.node_top_node_ok [OF assms(1)] split: prod.split)
  have s: "s = \<lparr>zs_db = db, zs_acc_cache = trie_cache_new (zk_new ?root), zs_storages = Map.empty\<rparr>"
    using assms(7) by (auto simp: trie_hasher.node_top_node_ok [OF assms(1)] new_from_trace_def trace_top_def split: prod.splits)
  have rel: "state_rel E db (zk_new ?root) s ?S"
    by (simp add: state_rel_def slots_rel_def) (simp add: s trie_cache_new_def)
  have commit: "bb_commit B = client_commit (run_call E) tx"
    and flush: "bb_flush_state B (y, t) = (case flush E t of (r, t') \<Rightarrow> (map_err show_err r, (y, t')))" for y t
    using assms(6) by (auto simp: over_state_def)
  obtain r y s' q z S where run: "commit_all (client_commit (run_call E) tx) txs (x, s) = (r, (y, s'))"
    "commit_all (client_commit (spec_call E db) tx) txs (x, ?S) = (q, (z, S))" by (metis prod.exhaust)
  from state_interface.commit_all_follows [OF zk_state_interface [OF assms(5)] rel run] have same: "r = q" "y = z" and end_rel: "state_rel E db (zk_new ?root) s' S" by auto
  have exec: "execute_v2 H B inner engine db traces block =
      (case q of Inl e \<Rightarrow> Inl e | Inr _ \<Rightarrow> bind_result (map_err show_err (fst (flush E s'))) (\<lambda>_. Inr ()))"
    using assms(6-9) hd top run(1) same
    by (simp add: execute_v2_def over_state_def commit bindc_def split: sum.split prod.split)
  note end_flush = flush_follows [OF assms(1-5) end_rel]
  show ?thesis
    using run(2) exec end_flush by (auto split: sum.split option.splits)
qed

text \<open>
  The account 9 had a balance of 25 and gets 10 and 5, and the flush writes what the trace tells. A
  transaction that pays nothing is an error.
\<close>

definition paying_tx :: "nat \<Rightarrow> nat \<Rightarrow> (string + nat) client" where
  "paying_tx n v = (if v = 0 then Return (Inl ''no value'') else Ask (Call_Get_Nonce 9) (\<lambda>r. case r of
     Inr (Nonce k) \<Rightarrow> if k = 3 then Ask (Call_Add_Balance 9 (of_nat v)) (\<lambda>_. Return (Inr (Suc n))) else Return (Inl ''nonce'')
   | _ \<Rightarrow> Return (Inl ''state'')))"

definition paying_builder :: "(mem_store zk_trie_state, nat \<times> mem_store zk_trie_state, unit, nat, unit, unit) block_builder" where
  "paying_builder = \<lparr>bb_new = (\<lambda>engine s hashes h. Inr (0, s)), bb_commit = client_commit (run_call toy_env) paying_tx,
     bb_flush_state = (\<lambda>(x, s). case flush toy_env s of (r, s') \<Rightarrow> (map_err (\<lambda>_. []) r, (x, s'))),
     bb_withdrawal = (\<lambda>ws. returnc ()), bb_finalize = returnc ()\<rparr>"

definition paying_block :: "nat list \<Rightarrow> (unit, nat, unit) raw_block" where
  "paying_block vs = \<lparr>rb_header = (), rb_transactions = map (\<lambda>v. \<lparr>tx_type = 0, tx_v = 27, tx_rest = v\<rparr>) vs, rb_withdrawals = None\<rparr>"

lemma paying_block_txs:
  "preprocess_txs (\<lambda>tx. Some (tx_rest tx)) (linea_new 59144) (rb_transactions (paying_block vs)) = (Inr vs :: (string, nat list) result)"
proof -
  have "preprocess_txs_loop (\<lambda>tx. Some (tx_rest tx)) c (map (\<lambda>v. \<lparr>tx_type = 0, tx_v = 27, tx_rest = v\<rparr>) vs) out =
      (Inr (out @ vs) :: (string, nat list) result)" for c out
    by (induction vs arbitrary: out) (simp_all add: fix_v_def)
  then show ?thesis by (simp add: preprocess_txs_def paying_block_def linea_new_def as_u64_def)
qed

lemma toy_poorer_decoded: "decode_value (env_account toy_env) toy_poorer_bytes = Inr (toy_account\<lparr>za_balance := 25\<rparr>)"
proof -
  have "zk_account_from_bytes H K toy_poorer_bytes = Inr (toy_account\<lparr>za_balance := 25\<rparr>)" for H K
    by (simp add: zk_account_from_bytes_def toy_poorer_bytes_def toy_account_def word_at_def slice_range_def as_u64_def)
  then show ?thesis
    using word_bytes_ok(2) [of 3] by (simp add: decode_value_def zk_account_enc_def) (simp add: toy_poorer_bytes_def)
qed

lemma toy_account_encoded: "zk_account_to_bytes (ze_hasher toy_env) (ze_keccak toy_env) toy_account = Inr toy_account_bytes"
  by (simp add: zk_account_to_bytes_def toy_env_def trie_hasher.zk_account_default_ok [OF toy_trie_hasher] toy_account_def toy_account_bytes_def)

lemma paying_runs:
  assumes "accounts 9 = Inr (toy_account\<lparr>za_balance := 25\<rparr>)"
  shows "commit_all (client_commit (spec_call toy_env db) paying_tx) [10, 5] (0, \<lparr>ss_accounts = accounts, ss_dirty = {}\<rparr>) =
      (Inr (), (2, \<lparr>ss_accounts = accounts(9 := Inr toy_account), ss_dirty = {9}\<rparr>))"
    and "\<exists>S. commit_all (client_commit (spec_call toy_env db) paying_tx) [10, 0] (0, \<lparr>ss_accounts = accounts, ss_dirty = {}\<rparr>) =
      (Inl Panic, (1, S))"
    and "spec_updates toy_env \<lparr>ss_accounts = accounts(9 := Inr toy_account), ss_dirty = {9}\<rparr> = Inr [(sh160_bytes 9, toy_account_bytes)]"
proof -
  have toy: "ze_add_assign toy_env x y = Inr (x + y)" "toy_account\<lparr>za_balance := 40\<rparr> = toy_account" "za_nonce toy_account = 3" for x y
    by (simp_all add: toy_env_def toy_account_def)
  note spec = client_commit_def paying_tx_def answering_def bindc_def returnc_def spec_access_def spec_balance_def spec_read_def
    unwrapc_def assms toy
  show "commit_all (client_commit (spec_call toy_env db) paying_tx) [10, 5] (0, \<lparr>ss_accounts = accounts, ss_dirty = {}\<rparr>) =
      (Inr (), (2, \<lparr>ss_accounts = accounts(9 := Inr toy_account), ss_dirty = {9}\<rparr>))"
    "\<exists>S. commit_all (client_commit (spec_call toy_env db) paying_tx) [10, 0] (0, \<lparr>ss_accounts = accounts, ss_dirty = {}\<rparr>) =
      (Inl Panic, (1, S))"
    by (simp_all add: spec)
  show "spec_updates toy_env \<lparr>ss_accounts = accounts(9 := Inr toy_account), ss_dirty = {9}\<rparr> = Inr [(sh160_bytes 9, toy_account_bytes)]"
    by (simp add: spec_updates_def toy_account_encoded)
qed

lemma paying_over_state: "over_state toy_env (\<lambda>_. []) (\<lambda>_ _ _. Inr 0) paying_tx paying_builder"
  by (simp add: over_state_def paying_builder_def)

end
