(* ===== verification/Pob_Generator.thy ===== *)
theory Pob_Generator
  imports Block_Executor
begin

text \<open>
  The generation of a proof of block: \<open>fetch_prestate\<close> and \<open>generate_pob\<close> of
  \<open>src/common/linea/src/block_executor.rs\<close>. The accounts a block touches are fetched with their
  state from the execution client, the block is run once against them, and the nodes and block
  hashes that run had to fetch are added. The client answers over the state of the network \<open>'q\<close>,
  so that a retried request may be answered differently.
\<close>

section \<open>The prestate of a block\<close>

text \<open>
  \<open>fetch_prestate\<close> merges the accounts that the transactions touch: the codes by hash, the first
  one kept, and for every address the set of storage keys. The requests list the addresses and
  the keys in ascending order. A touched account is its address, code and storage keys.
\<close>

type_synonym touched = "sh160 \<times> bytes \<times> sh256 list"

definition merge_account ::
  "keccak \<Rightarrow> touched \<Rightarrow> (sh160 \<rightharpoonup> sh256 set) \<times> (sh256 \<rightharpoonup> bytes) \<Rightarrow> (sh160 \<rightharpoonup> sh256 set) \<times> (sh256 \<rightharpoonup> bytes)" where
  "merge_account K = (\<lambda>(addr, code, keys) (unique, codes).
     let h = K code;
         codes = (case codes h of Some _ \<Rightarrow> codes | None \<Rightarrow> codes(h \<mapsto> code));
         old = (case unique addr of Some ks \<Rightarrow> ks | None \<Rightarrow> {})
     in (unique(addr \<mapsto> old \<union> set keys), codes))"

definition merge_prestate ::
  "keccak \<Rightarrow> touched list option list \<Rightarrow> (sh160 \<rightharpoonup> sh256 set) \<times> (sh256 \<rightharpoonup> bytes)" where
  "merge_prestate K txs =
     fold (\<lambda>tx m. case tx of Some result \<Rightarrow> fold (merge_account K) result m | None \<Rightarrow> m) txs (Map.empty, Map.empty)"

definition fetch_requests :: "(sh160 \<rightharpoonup> sh256 set) \<Rightarrow> (sh160 \<times> sh256 list) list" where
  "fetch_requests unique =
     map (\<lambda>a. (a, sorted_list_of_set (the (unique a)))) (sorted_list_of_set (dom unique))"

record ('q, 'h, 't, 'w, 'x, 'p) execution_client =
  ec_trace_prestate :: "'x \<Rightarrow> ('q, string, touched list option list) comp"
  ec_get_block :: "'x \<Rightarrow> ('q, string, ('h, 't, 'w) raw_block) comp"
  ec_fetch_states :: "(sh160 \<times> sh256 list) list \<Rightarrow> u64 \<Rightarrow> ('q, string, 'p) comp"
  ec_prev_state_root :: "u64 \<Rightarrow> ('q, string, sh256) comp"

text \<open>
  The number of the previous block is computed before the test for the genesis block, and wraps
  around there. \<open>from_proof\<close> is the library's constructor of a proof of block.
\<close>

definition fetch_prestate ::
  "keccak \<Rightarrow> ('h \<Rightarrow> su256) \<Rightarrow> ('q, 'h, 't, 'w, 'x, 'p) execution_client \<Rightarrow>
   (u64 \<Rightarrow> ('h, 't, 'w) raw_block \<Rightarrow> sh256 \<Rightarrow> (sh256 \<rightharpoonup> bytes) \<Rightarrow> 'p \<Rightarrow> ('h, 't, 'w, 'n) pob) \<Rightarrow> u64 \<Rightarrow> 'x \<Rightarrow>
   ('q, string, ('h, 't, 'w, 'n) pob) comp" where
  "fetch_prestate K header_number C from_proof chain_id block =
     bindc (ec_trace_prestate C block) (\<lambda>txs.
     case merge_prestate K txs of (unique, codes) \<Rightarrow>
     bindc (ec_get_block C block) (\<lambda>blk.
     let fetch_reqs = fetch_requests unique in
     bindc (lift_result (as_u64 (header_number (rb_header blk)))) (\<lambda>number.
     let prev_block = number - 1 in
     bindc (ec_fetch_states C fetch_reqs prev_block) (\<lambda>states.
     bindc (if number > 0 then ec_prev_state_root C prev_block else returnc 0) (\<lambda>prev_state_root.
       returnc (from_proof chain_id blk prev_state_root codes states))))))"

section \<open>Running the block once\<close>

text \<open>
  The state trie over a collector of nodes that asks the client at the parent block for what the
  database lacks, and what the run left in the collector and in the fetcher of block hashes,
  both shared with the builder. \<open>pc_parent\<close> is the library's subtraction
  \<open>header.number - SU64::from(1)\<close>.
\<close>

record ('m, 'd, 'b, 'h, 'n) pob_collector =
  pc_database :: 'm
  pc_parent :: "'h \<Rightarrow> (string, u64) result"
  pc_trie_state :: "u64 \<Rightarrow> sh256 \<Rightarrow> 'm \<Rightarrow> 'd"
  pc_nodes :: "'b \<Rightarrow> 'n list"
  pc_block_hashes :: "'b \<Rightarrow> block_hash_cache"

text \<open>Here, unlike in \<open>execute\<close>, a failing commit is an error.\<close>

fun commit_each :: "('i \<Rightarrow> ('b, string, unit) comp) \<Rightarrow> 'i list \<Rightarrow> ('b, string, unit) comp" where
  "commit_each commit [] = returnc ()"
| "commit_each commit (tx # txs) = bindc (commit tx) (\<lambda>_. commit_each commit txs)"

definition fill_pob ::
  "('m, 'n) node_resume \<Rightarrow> ('m, 'd, 'b, 'h, 'n) pob_collector \<Rightarrow> ('d, 'b, 'h, 'i, 'w, 'k) block_builder \<Rightarrow>
   ('t transaction \<Rightarrow> 'i option) \<Rightarrow> linea \<Rightarrow> ('h, 't, 'w, 'n) pob \<Rightarrow> (string, ('h, 't, 'w, 'n) pob) result" where
  "fill_pob R G B inner engine pob =
     (let db = resume_db R pob (pc_database G); header = rb_header (pob_block pob) in
      bind_result (pc_parent G header) (\<lambda>parent.
      let statedb = pc_trie_state G parent (pob_prev_state_root pob) db in
      bind_result (bb_new B engine statedb Map.empty header) (\<lambda>builder.
      bind_result (preprocess_txs inner engine (rb_transactions (pob_block pob))) (\<lambda>txs.
      case bindc (commit_each (bb_commit B) txs) (\<lambda>_. bb_flush_state B) builder of
        (Inl e, b) \<Rightarrow> Inl e
      | (Inr root, b) \<Rightarrow> Inr (pob\<lparr>pob_mpt_nodes := pob_mpt_nodes pob @ pc_nodes G b,
            pob_block_hashes := pob_block_hashes pob ++ pc_block_hashes G b\<rparr>)))))"

definition generate_pob ::
  "keccak \<Rightarrow> ('h \<Rightarrow> su256) \<Rightarrow> ('q, 'h, 't, 'w, 'x, 'p) execution_client \<Rightarrow>
   (u64 \<Rightarrow> ('h, 't, 'w) raw_block \<Rightarrow> sh256 \<Rightarrow> (sh256 \<rightharpoonup> bytes) \<Rightarrow> 'p \<Rightarrow> ('h, 't, 'w, 'n) pob) \<Rightarrow>
   ('m, 'n) node_resume \<Rightarrow> ('m, 'd, 'b, 'h, 'n) pob_collector \<Rightarrow> ('d, 'b, 'h, 'i, 'w, 'k) block_builder \<Rightarrow>
   ('t transaction \<Rightarrow> 'i option) \<Rightarrow> linea \<Rightarrow> 'x \<Rightarrow> ('q \<times> nat list, string, ('h, 't, 'w, 'n) pob) comp" where
  "generate_pob K header_number C from_proof R G B inner engine block =
     bindc (retry 3 (bindc (lift_result (as_u64 (sg_chain_id (signer engine)))) (\<lambda>chain_id.
              fetch_prestate K header_number C from_proof chain_id block))) (\<lambda>pob.
       lift_result (fill_pob R G B inner engine pob))"

section \<open>The merged prestate\<close>

text \<open>All touched accounts, in the order of the transactions.\<close>

definition touched_accounts :: "touched list option list \<Rightarrow> touched list" where
  "touched_accounts txs = concat (map (\<lambda>tx. case tx of Some result \<Rightarrow> result | None \<Rightarrow> []) txs)"

definition touched_keys :: "touched list \<Rightarrow> sh160 \<Rightarrow> sh256 set" where
  "touched_keys ts a = {k. \<exists>code keys. (a, code, keys) \<in> set ts \<and> k \<in> set keys}"

lemma merge_prestate_flat: "merge_prestate K txs = fold (merge_account K) (touched_accounts txs) (Map.empty, Map.empty)"
proof -
  have "fold (\<lambda>tx m. case tx of Some result \<Rightarrow> fold (merge_account K) result m | None \<Rightarrow> m) txs m =
      fold (merge_account K) (touched_accounts txs) m" for m
    by (induction txs arbitrary: m) (auto simp: touched_accounts_def split: option.split)
  then show ?thesis by (simp add: merge_prestate_def)
qed

lemma touched_keys_Cons:
  "touched_keys ((a, code, keys) # ts) b = (if b = a then set keys \<union> touched_keys ts b else touched_keys ts b)"
  by (auto simp: touched_keys_def)

lemma merged_keys:
  "fst (fold (merge_account K) ts (u, c)) a =
     (if a \<in> fst ` set ts then Some ((case u a of Some ks \<Rightarrow> ks | None \<Rightarrow> {}) \<union> touched_keys ts a) else u a)"
proof (induction ts arbitrary: u c)
  case (Cons t ts)
  obtain b code keys where t: "t = (b, code, keys)" by (cases t)
  obtain u' c' where m: "merge_account K t (u, c) = (u', c')" by fastforce
  then have u': "u' a = (if a = b then Some ((case u b of Some ks \<Rightarrow> ks | None \<Rightarrow> {}) \<union> set keys) else u a)"
    by (auto simp: t merge_account_def Let_def)
  have none: "a \<notin> fst ` set ts \<Longrightarrow> touched_keys ts a = {}" by (force simp: touched_keys_def)
  show ?case
    using Cons [of u' c'] none by (cases "a \<in> fst ` set ts"; simp add: t m [unfolded t] touched_keys_Cons u'; blast)
qed simp

lemma merged_codes:
  "snd (fold (merge_account K) ts (u, c)) h =
     (case c h of Some code \<Rightarrow> Some code | None \<Rightarrow> map_option (\<lambda>t. fst (snd t)) (find (\<lambda>t. K (fst (snd t)) = h) ts))"
proof (induction ts arbitrary: u c)
  case (Cons t ts)
  obtain b code keys where t: "t = (b, code, keys)" by (cases t)
  obtain u' c' where m: "merge_account K t (u, c) = (u', c')" by fastforce
  then have c': "c' h = (if h = K code \<and> c h = None then Some code else c h)"
    by (auto simp: t merge_account_def Let_def split: option.splits)
  show ?case
    using Cons [of u' c'] by (auto simp: t m [unfolded t] c' split: option.splits)
qed (simp split: option.split)

section \<open>What a retried request returns\<close>

lemma retry_loop_returns:
  "retry_loop i n error f (s, sl) = (Inr x, (s', sl')) \<Longrightarrow> (\<exists>s0. f s0 = (Inr x, s')) \<and> length sl' < length sl + n"
proof (induction n arbitrary: i error s sl)
  case (Suc n)
  obtain r t where f: "f s = (r, t)" by fastforce
  show ?case
  proof (cases r)
    case (Inr y)
    then show ?thesis using Suc.prems f by auto
  next
    case (Inl e)
    show ?thesis
    proof (cases e)
      case (Fail e')
      then have "retry_loop (Suc i) n (Some e') f (t, sl @ [(i + 1) * 300]) = (Inr x, (s', sl'))"
        using Suc.prems f Inl by simp
      from Suc.IH [OF this] show ?thesis by simp
    qed (use Suc.prems f Inl in simp)
  qed
qed (simp split: option.splits)

lemma retry_returns: "retry n f (s, []) = (Inr x, (s', sl)) \<Longrightarrow> (\<exists>s0. f s0 = (Inr x, s')) \<and> length sl < n"
  using retry_loop_returns [of 0 n None f s "[]" x s' sl] by (simp add: retry_def)

lemma commit_each_ok: "fst (commit_each commit txs b) = Inr () \<Longrightarrow> commit_all commit txs b = commit_each commit txs b"
proof (induction txs arbitrary: b)
  case (Cons tx txs)
  obtain r b' where c: "commit tx b = (r, b')" by fastforce
  then show ?case using Cons by (cases r) (auto simp: bindc_def unwrapc_def)
qed simp

section \<open>What the generator guarantees\<close>

text \<open>The requests for a block's prestate list every account that a transaction touches once, in
  ascending order of the addresses, with all its touched storage keys in ascending order; the
  codes have, under each hash, the first touched code with that hash.\<close>

theorem prestate_requests:
  "fetch_requests (fst (merge_prestate K txs)) =
     map (\<lambda>a. (a, sorted_list_of_set (touched_keys (touched_accounts txs) a)))
       (sorted_list_of_set (fst ` set (touched_accounts txs))) \<and>
   snd (merge_prestate K txs) h =
     map_option (\<lambda>(addr, code, keys). code) (find (\<lambda>(addr, code, keys). K code = h) (touched_accounts txs))"
proof -
  let ?ts = "touched_accounts txs"
  have u: "fst (merge_prestate K txs) a = (if a \<in> fst ` set ?ts then Some (touched_keys ?ts a) else None)" for a
    by (simp add: merge_prestate_flat merged_keys)
  then have "dom (fst (merge_prestate K txs)) = fst ` set ?ts" by (auto simp: dom_def)
  then have "fetch_requests (fst (merge_prestate K txs)) =
      map (\<lambda>a. (a, sorted_list_of_set (touched_keys ?ts a))) (sorted_list_of_set (fst ` set ?ts))"
    by (simp add: fetch_requests_def u)
  then show ?thesis
    by (simp add: merge_prestate_flat merged_codes case_prod_unfold)
qed

lemma fetch_prestate_returns:
  assumes "fetch_prestate K header_number C from_proof chain_id x q = (Inr pob, q')"
  shows "\<exists>txs q1 blk q2 states q3 root. ec_trace_prestate C x q = (Inr txs, q1) \<and> ec_get_block C x q1 = (Inr blk, q2) \<and>
    ec_fetch_states C (fetch_requests (fst (merge_prestate K txs))) (ucast (header_number (rb_header blk)) - 1) q2 = (Inr states, q3) \<and>
    (if header_number (rb_header blk) = 0 then root = 0 \<and> q' = q3
     else ec_prev_state_root C (ucast (header_number (rb_header blk)) - 1) q3 = (Inr root, q')) \<and>
    pob = from_proof chain_id blk root (snd (merge_prestate K txs)) states"
proof -
  obtain txs q1 blk q2 number states q3 root where r: "ec_trace_prestate C x q = (Inr txs, q1)" "ec_get_block C x q1 = (Inr blk, q2)"
    "as_u64 (header_number (rb_header blk)) = (Inr number :: (string, u64) result)"
    "ec_fetch_states C (fetch_requests (fst (merge_prestate K txs))) (number - 1) q2 = (Inr states, q3)"
    "(if number > 0 then ec_prev_state_root C (number - 1) else returnc 0) q3 = (Inr root, q')"
    "pob = from_proof chain_id blk root (snd (merge_prestate K txs)) states"
    using assms by (auto simp: fetch_prestate_def bindc_ok_iff Let_def case_prod_beta)
  have n: "number = ucast (header_number (rb_header blk))" "number = 0 \<longleftrightarrow> header_number (rb_header blk) = 0"
    using r(3) by (auto simp: as_u64_def word_unat_eq_iff unsigned_ucast_eq take_bit_nat_eq_self split: if_splits)
  have "(if header_number (rb_header blk) = 0 then root = 0 \<and> q' = q3
     else ec_prev_state_root C (number - 1) q3 = (Inr root, q'))"
    using r(5) n(2) by (cases "number = 0") (auto simp: word_neq_0_conv)
  then show ?thesis using r(1,2,4,6) n(1) by blast
qed

text \<open>C34: a generated proof of block is for the engine's own chain, after at most two retries. It is the
  one fetched from the client, for the block that the client returned, with the prestate of the
  parent block and its state root; all transactions were committed once over that prestate, and
  only nodes and block hashes that this run had to fetch were added. For the genesis block the
  prestate asked for is that of the block with the largest number.\<close>

theorem generated_pob:
  assumes "generate_pob K header_number C from_proof R G B inner engine x (q, []) = (Inr pob, (q', slept))"
  shows "\<exists>chain_id txs blk states root fetched parent builder is b b' new_root q0 q1 q2 q3.
    ucast chain_id = ln_chain_id engine \<and> length slept \<le> 2 \<and>
    ec_trace_prestate C x q0 = (Inr txs, q1) \<and> ec_get_block C x q1 = (Inr blk, q2) \<and>
    ec_fetch_states C (fetch_requests (fst (merge_prestate K txs))) (ucast (header_number (rb_header blk)) - 1) q2 = (Inr states, q3) \<and>
    (if header_number (rb_header blk) = 0 then root = 0
     else ec_prev_state_root C (ucast (header_number (rb_header blk)) - 1) q3 = (Inr root, q')) \<and>
    fetched = from_proof chain_id blk root (snd (merge_prestate K txs)) states \<and>
    (pc_parent G (rb_header (pob_block fetched)) = Inr parent \<and>
      bb_new B engine (pc_trie_state G parent (pob_prev_state_root fetched) (resume_db R fetched (pc_database G))) Map.empty
        (rb_header (pob_block fetched)) = Inr builder \<and>
      preprocess_txs inner engine (rb_transactions (pob_block fetched)) = Inr is \<and>
      commit_all (bb_commit B) is builder = (Inr (), b) \<and> bb_flush_state B b = (Inr new_root, b') \<and>
      pob = fetched\<lparr>pob_mpt_nodes := pob_mpt_nodes fetched @ pc_nodes G b',
        pob_block_hashes := pob_block_hashes fetched ++ pc_block_hashes G b'\<rparr>)"
proof -
  obtain fetched where f: "retry 3 (bindc (lift_result (as_u64 (sg_chain_id (signer engine)))) (\<lambda>chain_id.
      fetch_prestate K header_number C from_proof chain_id x)) (q, []) = (Inr fetched, (q', slept))"
    "fill_pob R G B inner engine fetched = Inr pob"
    using assms by (auto simp: generate_pob_def bindc_ok_iff)
  obtain q0 chain_id where c: "as_u64 (ln_chain_id engine) = (Inr chain_id :: (string, u64) result)"
    "fetch_prestate K header_number C from_proof chain_id x q0 = (Inr fetched, q')" "length slept \<le> 2"
    using retry_returns [OF f(1)] by (auto simp: bindc_ok_iff)
  have id: "ucast chain_id = ln_chain_id engine"
    using c(1) by (auto simp: as_u64_def word_unat_eq_iff unsigned_ucast_eq take_bit_nat_eq_self split: if_splits)
  obtain txs q1 blk q2 states q3 root where p: "ec_trace_prestate C x q0 = (Inr txs, q1)" "ec_get_block C x q1 = (Inr blk, q2)"
    "ec_fetch_states C (fetch_requests (fst (merge_prestate K txs))) (ucast (header_number (rb_header blk)) - 1) q2 = (Inr states, q3)"
    "if header_number (rb_header blk) = 0 then root = 0 \<and> q' = q3
     else ec_prev_state_root C (ucast (header_number (rb_header blk)) - 1) q3 = (Inr root, q')"
    "fetched = from_proof chain_id blk root (snd (merge_prestate K txs)) states"
    using fetch_prestate_returns [OF c(2)] by blast
  obtain parent builder "is" where n: "pc_parent G (rb_header (pob_block fetched)) = Inr parent"
    "bb_new B engine (pc_trie_state G parent (pob_prev_state_root fetched) (resume_db R fetched (pc_database G))) Map.empty
       (rb_header (pob_block fetched)) = Inr builder"
    "preprocess_txs inner engine (rb_transactions (pob_block fetched)) = Inr is"
    "(case bindc (commit_each (bb_commit B) is) (\<lambda>_. bb_flush_state B) builder of
        (Inl e, b) \<Rightarrow> Inl e
      | (Inr root, b) \<Rightarrow> Inr (fetched\<lparr>pob_mpt_nodes := pob_mpt_nodes fetched @ pc_nodes G b,
            pob_block_hashes := pob_block_hashes fetched ++ pc_block_hashes G b\<rparr>)) = Inr pob"
    using f(2) by (auto simp: fill_pob_def Let_def bind_result_ok_iff)
  obtain r b' where run: "bindc (commit_each (bb_commit B) is) (\<lambda>_. bb_flush_state B) builder = (r, b')" by fastforce
  with n(4) obtain state_root where r: "r = Inr state_root" by (cases r) auto
  have pob: "pob = fetched\<lparr>pob_mpt_nodes := pob_mpt_nodes fetched @ pc_nodes G b',
        pob_block_hashes := pob_block_hashes fetched ++ pc_block_hashes G b'\<rparr>"
    using n(4) run r by simp
  obtain b where "commit_each (bb_commit B) is builder = (Inr (), b)" "bb_flush_state B b = (Inr state_root, b')"
    using run r by (auto simp: bindc_ok_iff)
  moreover from this(1) have "commit_all (bb_commit B) is builder = (Inr (), b)"
    using commit_each_ok [of "bb_commit B" "is" builder] by simp
  moreover have "if header_number (rb_header blk) = 0 then root = 0
     else ec_prev_state_root C (ucast (header_number (rb_header blk)) - 1) q3 = (Inr root, q')"
    using p(4) by (auto split: if_splits)
  ultimately show ?thesis
    using id c(3) p(1-3,5) n(1-3) pob by (intro exI conjI) assumption+
qed

text \<open>A client that is down for one call, a block with one transaction and the counting builder.\<close>

definition flaky_client :: "(nat, unit, nat, unit, unit, unit) execution_client" where
  "flaky_client = \<lparr>
     ec_trace_prestate = (\<lambda>x q. if q = 0 then (Inl (Fail ''down''), 1) else (Inr [Some [(7, [1], [3, 2])]], q)),
     ec_get_block = (\<lambda>x q. (Inr \<lparr>rb_header = (), rb_transactions = [\<lparr>tx_type = 0, tx_v = 27, tx_rest = 10\<rparr>], rb_withdrawals = None\<rparr>, q)),
     ec_fetch_states = (\<lambda>reqs n q. (Inr (), q)),
     ec_prev_state_root = (\<lambda>n q. (Inr 77, q))\<rparr>"

definition plain_pob ::
  "u64 \<Rightarrow> (unit, nat, unit) raw_block \<Rightarrow> sh256 \<Rightarrow> (sh256 \<rightharpoonup> bytes) \<Rightarrow> unit \<Rightarrow> (unit, nat, unit, nat) pob" where
  "plain_pob chain_id blk root codes states = \<lparr>pob_block = blk, pob_chain_id = chain_id, pob_prev_state_root = root,
     pob_block_hashes = Map.empty, pob_mpt_nodes = [100], pob_codes = []\<rparr>"

definition nat_collector :: "(nat, nat, nat, unit, nat) pob_collector" where
  "nat_collector = \<lparr>pc_database = 0, pc_parent = (\<lambda>_. Inr 4), pc_trie_state = (\<lambda>parent root db. db),
     pc_nodes = (\<lambda>b. [b]), pc_block_hashes = (\<lambda>b. [3 \<mapsto> 9])\<rparr>"

definition nat_resume :: "(nat, nat) node_resume" where
  "nat_resume = \<lparr>nr_resume_node = (\<lambda>n d. d + n), nr_resume_code = (\<lambda>c d. d + length c), nr_commit = id, nr_fork = id\<rparr>"

theorem generated_pob_witness:
  "\<exists>pob. generate_pob (\<lambda>_. 0) (\<lambda>_. 5) flaky_client plain_pob nat_resume nat_collector counting_builder (\<lambda>tx. Some (tx_rest tx))
      (linea_new 59144) () (0, []) = (Inr pob, (1, [300])) \<and>
    pob_mpt_nodes pob = [100, 110] \<and> (\<exists>chain_id :: u64. ucast chain_id = ln_chain_id (linea_new 59144))"
proof -
  have "\<exists>pob. generate_pob (\<lambda>_. 0) (\<lambda>_. 5) flaky_client plain_pob nat_resume nat_collector counting_builder (\<lambda>tx. Some (tx_rest tx))
      (linea_new 59144) () (0, []) = (Inr pob, (1, [300])) \<and> pob_mpt_nodes pob = [100, 110]"
    by (simp add: generate_pob_def retry_def fetch_prestate_def flaky_client_def plain_pob_def fill_pob_def nat_collector_def
        nat_resume_def counting_builder_def resume_db_def preprocess_txs_def fix_v_def as_u64_def linea_new_def bindc_def
        Let_def case_prod_unfold numeral_3_eq_3)
  then obtain pob where pob: "generate_pob (\<lambda>_. 0) (\<lambda>_. 5) flaky_client plain_pob nat_resume nat_collector counting_builder
      (\<lambda>tx. Some (tx_rest tx)) (linea_new 59144) () (0, []) = (Inr pob, (1, [300]))" "pob_mpt_nodes pob = [100, 110]" by blast
  with generated_pob [OF pob(1)] show ?thesis by blast
qed

end
