(* ===== verification/Verifier_Client.thy ===== *)
theory Verifier_Client
  imports Prelude
begin

text \<open>
  The client of the verifier contract: \<open>src/common/linea/src/verifier.rs\<close>. The solidity encoder,
  the RPC calls, the transaction sender and the SGX quote library are the fields of
  \<open>verifier\<close>; what is modelled is which call is made with which arguments and how its answer
  is read.
\<close>

section \<open>State\<close>

datatype sol_arg = SolAddress sh160 | SolHash sh256 | SolUint su256 | SolBytes bytes

text \<open>
  \<open>vf_call\<close> is \<open>eth_call\<close> to the contract, \<open>vf_send\<close> sends a transaction and waits for it: no
  receipt when it was aborted. \<open>vf_debug\<close> formats an RPC error.
\<close>

record ('e, 'k) verifier =
  vf_encode :: "string \<Rightarrow> sol_arg list \<Rightarrow> bytes"
  vf_to :: sh160
  vf_call :: "sh160 \<Rightarrow> bytes \<Rightarrow> ('e, su256) result"
  vf_send :: "'k \<Rightarrow> sh160 \<Rightarrow> bytes \<Rightarrow> ('e, sh256 option) result"
  vf_debug :: "'e \<Rightarrow> string"

record 'q quote_lib =
  ql_generate :: "bytes \<Rightarrow> (string, 'q) result"
  ql_mr_enclave :: "'q \<Rightarrow> sh256"
  ql_mr_signer :: "'q \<Rightarrow> sh256"
  ql_to_bytes :: "'q \<Rightarrow> bytes"

text \<open>\<open>new\<close>: the sender of transactions is made for the chain, with a time after which it resends.\<close>

definition verifier_new ::
  "(string \<Rightarrow> sol_arg list \<Rightarrow> bytes) \<Rightarrow> ('e \<Rightarrow> string) \<Rightarrow> (u64 \<Rightarrow> nat \<Rightarrow> 'k \<Rightarrow> sh160 \<Rightarrow> bytes \<Rightarrow> ('e, sh256 option) result) \<Rightarrow>
   u64 \<Rightarrow> (sh160 \<Rightarrow> bytes \<Rightarrow> ('e, su256) result) \<Rightarrow> nat \<Rightarrow> sh160 \<Rightarrow> ('e, 'k) verifier" where
  "verifier_new encode debug tx_sender chain_id el resend_timeout contract =
     \<lparr>vf_encode = encode, vf_to = contract, vf_call = el, vf_send = tx_sender chain_id resend_timeout, vf_debug = debug\<rparr>"

section \<open>Calls\<close>

definition contract_call :: "('e, 'k) verifier \<Rightarrow> string \<Rightarrow> sol_arg list \<Rightarrow> ('e, su256) result" where
  "contract_call V f args = vf_call V (vf_to V) (vf_encode V f args)"

definition attest_validity_seconds :: "('e, 'k) verifier \<Rightarrow> ('e, u64) result" where
  "attest_validity_seconds V = bind_result (contract_call V ''attestValiditySeconds'' []) as_u64"

definition prover_status :: "('e, 'k) verifier \<Rightarrow> sh160 \<Rightarrow> ('e, u64) result" where
  "prover_status V addr = bind_result (contract_call V ''attestedProvers'' [SolAddress addr]) as_u64"

definition verify_mrenclave :: "('e, 'k) verifier \<Rightarrow> sh256 \<Rightarrow> (string, bool) result" where
  "verify_mrenclave V mrenclave =
     bind_result (map_err (vf_debug V) (contract_call V ''verifyMrEnclave'' [SolHash mrenclave])) (\<lambda>val.
       Inr (val \<noteq> 0))"

definition verify_mrsigner :: "('e, 'k) verifier \<Rightarrow> sh256 \<Rightarrow> (string, bool) result" where
  "verify_mrsigner V mrsigner =
     bind_result (map_err (vf_debug V) (contract_call V ''verifyMrSigner'' [SolHash mrsigner])) (\<lambda>val.
       Inr (val \<noteq> 0))"

definition send_tx :: "('e, 'k) verifier \<Rightarrow> 'k \<Rightarrow> bytes \<Rightarrow> (string, sh256) result" where
  "send_tx V signer data =
     bind_result (map_err (vf_debug V) (vf_send V signer (vf_to V) data)) (\<lambda>receipt.
       ok_or ''tx aborted'' receipt)"

definition submit_attestation_report :: "('e, 'k) verifier \<Rightarrow> 'k \<Rightarrow> sh160 \<Rightarrow> bytes \<Rightarrow> (string, sh256) result" where
  "submit_attestation_report V relay prover report =
     send_tx V relay (vf_encode V ''submitAttestationReport'' [SolAddress prover, SolBytes report])"

definition verify_report_on_chain :: "('e, 'k) verifier \<Rightarrow> sh160 \<Rightarrow> bytes \<Rightarrow> ('e, bool) result" where
  "verify_report_on_chain V prover report =
     bind_result (contract_call V ''verifyAttestation'' [SolAddress prover, SolBytes report]) (\<lambda>val.
     bind_result (as_u64 val) (\<lambda>n. Inr (n = 1)))"

text \<open>\<open>tstd\<close> is the feature flag; the answer of the check on chain is not looked at.\<close>

definition report_data :: "sh160 \<Rightarrow> bytes" where
  "report_data prover_key = replicate 44 0 @ be_bytes 20 (unat prover_key)"

definition generate_prover_report ::
  "bool \<Rightarrow> 'q quote_lib \<Rightarrow> (sh256 \<Rightarrow> bool \<Rightarrow> bool \<Rightarrow> sh256 \<Rightarrow> string) \<Rightarrow> ('e, 'k) verifier \<Rightarrow> sh160 \<Rightarrow> bool \<Rightarrow>
   (string, bytes) result" where
  "generate_prover_report tstd Q not_trusted V prover_key check_report_metadata =
     (if tstd then
        bind_result (ql_generate Q (report_data prover_key)) (\<lambda>quote.
        bind_result
          (if check_report_metadata then
             bind_result (verify_mrenclave V (ql_mr_enclave Q quote)) (\<lambda>pass_mrenclave.
             bind_result (verify_mrsigner V (ql_mr_signer Q quote)) (\<lambda>pass_mrsigner.
               if \<not> pass_mrenclave \<or> \<not> pass_mrsigner
               then Inl (Fail (not_trusted (ql_mr_enclave Q quote) pass_mrenclave pass_mrsigner (ql_mr_signer Q quote)))
               else Inr ()))
           else Inr ()) (\<lambda>_.
        let data = ql_to_bytes Q quote in
        bind_result (map_err (vf_debug V) (verify_report_on_chain V prover_key data)) (\<lambda>_.
          Inr data)))
      else Inl (Fail ''fail to generate attestation report''))"

definition commit_batch :: "('e, 'k) verifier \<Rightarrow> 'k \<Rightarrow> su256 \<Rightarrow> bytes \<Rightarrow> (string, sh256) result" where
  "commit_batch V relay batch_id report =
     send_tx V relay (vf_encode V ''commitBatch'' [SolUint batch_id, SolBytes report])"

text \<open>The address is the last 20 bytes of the answer.\<close>

definition recover_poe :: "('e, 'k) verifier \<Rightarrow> bytes \<Rightarrow> ('e, sh160) result" where
  "recover_poe V poe =
     bind_result (contract_call V ''recoverPoe'' [SolBytes poe]) (\<lambda>val.
       Inr (of_nat (be_nat (drop 12 (word_bytes val)))))"

definition l2_chain_id :: "('e, 'k) verifier \<Rightarrow> ('e, u64) result" where
  "l2_chain_id V = bind_result (contract_call V ''layer2ChainId'' []) as_u64"

section \<open>Properties\<close>

lemma length_report_data [simp]: "length (report_data k) = 64"
  by (simp add: report_data_def)

lemma report_data_key: "be_nat (drop 44 (report_data k)) = unat k"
proof -
  have "unat k < 256 ^ 20" using unsigned_less [of k, where ?'a = nat] by simp
  then show ?thesis by (simp add: report_data_def be_nat_be_bytes del: power_numeral)
qed

text \<open>A report with checked metadata comes from an enclave and a signer that the contract trusts.\<close>

lemma generated_report_trusted:
  assumes "generate_prover_report tstd Q msg V k True = Inr data"
  shows "\<exists>q. tstd \<and> ql_generate Q (report_data k) = Inr q \<and> data = ql_to_bytes Q q \<and>
    verify_mrenclave V (ql_mr_enclave Q q) = Inr True \<and> verify_mrsigner V (ql_mr_signer Q q) = Inr True"
  using assms
  by (auto simp: generate_prover_report_def bind_result_ok_iff Let_def split: if_splits)

text \<open>A report that the contract finds invalid is returned all the same.\<close>

lemma generated_report_unverified:
  assumes "ql_generate Q (report_data k) = Inr q" "verify_report_on_chain V k (ql_to_bytes Q q) = Inr b"
  shows "generate_prover_report True Q msg V k False = Inr (ql_to_bytes Q q)"
  using assms by (simp add: generate_prover_report_def)

lemma recover_poe_low: "contract_call V ''recoverPoe'' [SolBytes poe] = Inr w \<Longrightarrow> recover_poe V poe = Inr (ucast w)"
proof -
  assume "contract_call V ''recoverPoe'' [SolBytes poe] = Inr w"
  moreover have "drop 12 (word_bytes w) = be_bytes 20 (unat w)"
    using drop_be_bytes [of 12 20 "unat w"] by (simp add: word_bytes_def)
  moreover have "(of_nat (unat w mod 256 ^ 20) :: sh160) = ucast w"
    by (simp add: word_unat_eq_iff unat_of_nat unsigned_ucast_eq take_bit_eq_mod)
  ultimately show ?thesis by (simp add: recover_poe_def be_nat_be_bytes del: power_numeral)
qed

section \<open>What a report shows\<close>

text \<open>A report generated with the check of its metadata is a quote over the prover's address, from an
  enclave and a signer that the contract has confirmed, and the contract could be asked about the
  report; without the SGX feature there is no report.\<close>

theorem report_metadata_trusted:
  assumes "generate_prover_report tstd Q msg V k True = Inr data"
  shows "tstd \<and> (\<exists>q answer. ql_generate Q (report_data k) = Inr q \<and> data = ql_to_bytes Q q \<and>
    verify_mrenclave V (ql_mr_enclave Q q) = Inr True \<and> verify_mrsigner V (ql_mr_signer Q q) = Inr True \<and>
    verify_report_on_chain V k data = Inr answer)"
  using assms by (auto simp: generate_prover_report_def bind_result_ok_iff Let_def split: if_splits)

text \<open>The contract of the witnesses answers every call with its argument \<open>w\<close>.\<close>

definition const_verifier :: "su256 \<Rightarrow> (string, unit) verifier" where
  "const_verifier w = \<lparr>vf_encode = (\<lambda>_ _. []), vf_to = 1, vf_call = (\<lambda>_ _. Inr w), vf_send = (\<lambda>_ _ _. Inr None), vf_debug = id\<rparr>"

definition echo_quotes :: "bytes quote_lib" where
  "echo_quotes = \<lparr>ql_generate = Inr, ql_mr_enclave = (\<lambda>_. 5), ql_mr_signer = (\<lambda>_. 6), ql_to_bytes = id\<rparr>"

theorem report_metadata_trusted_witness:
  "\<exists>data. generate_prover_report True echo_quotes (\<lambda>_ _ _ _. []) (const_verifier 1) 77 True = Inr data \<and>
     verify_mrenclave (const_verifier 1) 5 = Inr True"
proof -
  have "generate_prover_report True echo_quotes (\<lambda>_ _ _ _. []) (const_verifier 1) 77 True = Inr (report_data 77)"
    by (simp add: generate_prover_report_def echo_quotes_def const_verifier_def verify_mrenclave_def verify_mrsigner_def
        contract_call_def verify_report_on_chain_def as_u64_def)
  from this report_metadata_trusted [OF this] show ?thesis by (auto simp: echo_quotes_def)
qed

text \<open>The answer of the check on chain is not looked at. A report that the contract calls invalid is
  returned like a valid one.\<close>

theorem invalid_report_returned:
  assumes "ql_generate Q (report_data k) = Inr q" "verify_report_on_chain V k (ql_to_bytes Q q) = Inr False"
  shows "generate_prover_report True Q msg V k False = Inr (ql_to_bytes Q q)"
  by (rule generated_report_unverified [OF assms])

theorem invalid_report_returned_witness:
  "generate_prover_report True echo_quotes (\<lambda>_ _ _ _. []) (const_verifier 0) 77 False = Inr (report_data 77)"
proof -
  have "ql_generate echo_quotes (report_data 77) = Inr (report_data 77)"
    "verify_report_on_chain (const_verifier 0) 77 (ql_to_bytes echo_quotes (report_data 77)) = Inr False"
    by (simp_all add: echo_quotes_def verify_report_on_chain_def contract_call_def const_verifier_def as_u64_def)
  from invalid_report_returned [OF this] show ?thesis by (simp add: echo_quotes_def)
qed

end
