(* ===== verification/Batch_Task.thy ===== *)
theory Batch_Task
  imports Prelude
begin

text \<open>
  The subscription to batches submitted on chain: \<open>src/common/linea/src/batch_task.rs\<close>. The log
  subscriber is a library: it calls the handler with the logs of a range of blocks.
\<close>

section \<open>Data\<close>

record batch_task =
  bt_data_hash :: sh256
  bt_blocks :: "u64 list"

record log =
  lg_transaction_hash :: sh256
  lg_topics :: "sh256 list"

text \<open>\<open>(start..=end).collect()\<close>\<close>

definition u64_range :: "u64 \<Rightarrow> u64 \<Rightarrow> u64 list" where
  "u64_range s e = map of_nat [unat s..<Suc (unat e)]"

section \<open>The handler\<close>

definition batch_of_log :: "log \<Rightarrow> (string, sh256 \<times> u64 \<times> u64) result" where
  "batch_of_log l =
     bind_result (index (lg_topics l) 2) (\<lambda>start_block.
     bind_result (index (lg_topics l) 3) (\<lambda>end_block.
     bind_result (index (lg_topics l) 1) (\<lambda>data_hash.
     bind_result (as_u64 start_block) (\<lambda>start_block.
     bind_result (as_u64 end_block) (\<lambda>end_block.
       Inr (data_hash, start_block, end_block))))))"

text \<open>
  The loop over the logs: a log of another transaction replaces the task, a log of the same
  transaction overwrites its fields. Only after the loop is the task handed over.
\<close>

fun batch_loop :: "log list \<Rightarrow> batch_task \<Rightarrow> sh256 option \<Rightarrow> (string, batch_task) result" where
  "batch_loop [] task tmp_tx = Inr task"
| "batch_loop (l # logs) task tmp_tx =
     (let (current_tx, tmp_tx) = (case tmp_tx of
            Some h \<Rightarrow> (h, Some h)
          | None \<Rightarrow> (lg_transaction_hash l, Some (lg_transaction_hash l))) in
      bind_result (batch_of_log l) (\<lambda>(data_hash, start_block, end_block).
        if lg_transaction_hash l \<noteq> current_tx
        then batch_loop logs \<lparr>bt_data_hash = data_hash, bt_blocks = u64_range start_block end_block\<rparr>
               (Some (lg_transaction_hash l))
        else batch_loop logs (task\<lparr>bt_data_hash := data_hash, bt_blocks := u64_range start_block end_block\<rparr>) tmp_tx))"

text \<open>The handler's effect is the task it hands to the callback.\<close>

definition batch_handler :: "log list \<Rightarrow> (string, batch_task) result" where
  "batch_handler logs = batch_loop logs \<lparr>bt_data_hash = 0, bt_blocks = []\<rparr> None"

section \<open>The subscription\<close>

text \<open>
  The log subscriber polls the chain from block 0 on and calls the handler with the logs that
  match; \<open>poll\<close> is the library's \<open>subscribe\<close>, with the state \<open>'s\<close> of what the callback does.
\<close>

record batch_task_subscriber_config =
  bs_tag :: string
  bs_contract :: sh160
  bs_max_block :: u64
  bs_wait_block :: u64

record log_filter =
  fi_address :: "sh160 list"
  fi_topics :: "sh256 list list"

record 'b batch_task_subscriber =
  bs_subscriber :: 'b
  bs_cfg :: batch_task_subscriber_config

definition batch_task_subscriber_new ::
  "(u64 \<Rightarrow> u64 \<Rightarrow> 'b) \<Rightarrow> batch_task_subscriber_config \<Rightarrow> 'b batch_task_subscriber" where
  "batch_task_subscriber_new subscriber cfg =
     \<lparr>bs_subscriber = subscriber (bs_max_block cfg) (bs_wait_block cfg), bs_cfg = cfg\<rparr>"

definition batch_subscribe ::
  "('b \<Rightarrow> string \<Rightarrow> u64 \<Rightarrow> log_filter \<Rightarrow> (log list \<Rightarrow> ('s, string, unit) comp) \<Rightarrow> ('s, 'e, unit) comp) \<Rightarrow> (string \<Rightarrow> sh256) \<Rightarrow>
   'b batch_task_subscriber \<Rightarrow> (batch_task \<Rightarrow> ('s, string, unit) comp) \<Rightarrow> ('s, 'e, unit) comp" where
  "batch_subscribe poll encode_eventsig sub f =
     (let log_filter = \<lparr>fi_address = [bs_contract (bs_cfg sub)],
            fi_topics = [[encode_eventsig ''DataSubmitted(bytes32,uint256,uint256)'']]\<rparr>;
          handler = (\<lambda>logs. bindc (lift_result (batch_handler logs)) f)
      in poll (bs_subscriber sub) (bs_tag (bs_cfg sub)) 0 log_filter handler)"

section \<open>Properties\<close>

lemma set_u64_range: "set (u64_range s e) = {b. s \<le> b \<and> b \<le> e}"
proof (intro set_eqI iffI)
  fix b assume "b \<in> set (u64_range s e)"
  then obtain n where n: "b = of_nat n" "unat s \<le> n" "n \<le> unat e" by (auto simp: u64_range_def)
  moreover have "n < 2 ^ 64" using n(3) unsigned_less [of e, where ?'a = nat] by (simp del: unsigned_less)
  ultimately show "b \<in> {b. s \<le> b \<and> b \<le> e}" by (simp add: word_le_nat_alt unat_of_nat)
next
  fix b assume "b \<in> {b. s \<le> b \<and> b \<le> e}"
  then show "b \<in> set (u64_range s e)"
    by (auto simp: u64_range_def word_le_nat_alt less_Suc_eq_le intro!: image_eqI [of _ _ "unat b"] simp del: upt_Suc)
qed

lemma length_u64_range: "length (u64_range s e) = Suc (unat e) - unat s"
  by (simp add: u64_range_def del: upt_Suc)

lemma distinct_u64_range: "distinct (u64_range s e)"
proof -
  have "inj_on (of_nat :: nat \<Rightarrow> u64) {unat s..<Suc (unat e)}"
  proof (rule inj_onI)
    fix x y assume x: "x \<in> {unat s..<Suc (unat e)}" "y \<in> {unat s..<Suc (unat e)}" "(of_nat x :: u64) = of_nat y"
    then have "x < 2 ^ 64" "y < 2 ^ 64" using unsigned_less [of e, where ?'a = nat] by (auto simp del: unsigned_less)
    moreover have "unat (of_nat x :: u64) = unat (of_nat y :: u64)" using x(3) by simp
    ultimately show "x = y" by (simp add: unat_of_nat)
  qed
  then show ?thesis by (simp add: u64_range_def distinct_map del: upt_Suc)
qed

definition task_of :: "sh256 \<times> u64 \<times> u64 \<Rightarrow> batch_task" where
  "task_of = (\<lambda>(h, s, e). \<lparr>bt_data_hash = h, bt_blocks = u64_range s e\<rparr>)"

lemma batch_loop_last:
  assumes "\<forall>l\<in>set logs. \<exists>b. batch_of_log l = Inr b"
  shows "batch_loop logs task tmp =
    Inr (if logs = [] then task else task_of (projr (batch_of_log (last logs))))"
  using assms
proof (induction logs arbitrary: task tmp)
  case (Cons l logs)
  then obtain h s e where b: "batch_of_log l = Inr (h, s, e)" by auto
  have upd: "task\<lparr>bt_data_hash := h, bt_blocks := u64_range s e\<rparr> = task_of (h, s, e)"
    by (cases task) (simp add: task_of_def)
  have new: "\<lparr>bt_data_hash = h, bt_blocks = u64_range s e\<rparr> = task_of (h, s, e)" by (simp add: task_of_def)
  have "\<exists>tmp'. batch_loop (l # logs) task tmp = batch_loop logs (task_of (h, s, e)) tmp'"
    using b by (cases tmp) (auto simp: upd new)
  then show ?case using Cons b by auto
qed simp

section \<open>What the handler delivers\<close>

text \<open>C38: the handler delivers one task, whatever the number of logs: that of the last log, with all block
  numbers from its start to its end, both included, each once; the tasks of the other logs are
  lost, and without logs it delivers a task without blocks. The logs are ones that can be decoded.\<close>

theorem handler_delivers_last_task:
  assumes "list_all (\<lambda>l. batch_of_log l = Inr (f l)) logs"
  shows "case batch_handler logs of
      Inl _ \<Rightarrow> False
    | Inr task \<Rightarrow> distinct (bt_blocks task) \<and>
       (case f (last logs) of (data_hash, s, e) \<Rightarrow>
          bt_data_hash task = (if logs = [] then 0 else data_hash) \<and>
          set (bt_blocks task) = (if logs = [] then {} else {b. s \<le> b \<and> b \<le> e}))"
proof -
  have "\<forall>l\<in>set logs. \<exists>b. batch_of_log l = Inr b" using assms unfolding list_all_iff by blast
  note loop = batch_loop_last [OF this]
  show ?thesis
  proof (cases "logs = []")
    case True
    then show ?thesis by (simp add: batch_handler_def split: prod.split)
  next
    case False
    then have "batch_of_log (last logs) = Inr (f (last logs))" using assms by (simp add: list_all_iff)
    then show ?thesis
      using False by (simp add: batch_handler_def loop task_of_def set_u64_range distinct_u64_range split: prod.split)
  qed
qed

theorem handler_delivers_last_task_witness:
  "let l1 = \<lparr>lg_transaction_hash = 1, lg_topics = [0, 11, 3, 4]\<rparr>; l2 = \<lparr>lg_transaction_hash = 2, lg_topics = [0, 12, 7, 9]\<rparr>
   in case batch_handler [l1, l2] of Inl _ \<Rightarrow> False
      | Inr task \<Rightarrow> bt_data_hash task = 12 \<and> set (bt_blocks task) = {b. 7 \<le> b \<and> b \<le> 9}"
proof -
  let ?l1 = "\<lparr>lg_transaction_hash = 1, lg_topics = [0, 11, 3, 4]\<rparr>" and ?l2 = "\<lparr>lg_transaction_hash = 2, lg_topics = [0, 12, 7, 9]\<rparr>"
  let ?f = "\<lambda>l. (lg_topics l ! 1, ucast (lg_topics l ! 2) :: u64, ucast (lg_topics l ! 3) :: u64)"
  have "list_all (\<lambda>l. batch_of_log l = Inr (?f l)) [?l1, ?l2]"
    by (simp add: batch_of_log_def as_u64_def)
  from handler_delivers_last_task [OF this] show ?thesis by (auto split: sum.splits)
qed

end
