(* ===== verification/Prover_Monitor.thy ===== *)
theory Prover_Monitor
  imports Prelude
begin

text \<open>
  The prover's signing key and the loop that keeps it attested: \<open>src/common/linea/src/prover.rs\<close>.
  Key generation, the contract calls and the clocks are the inputs of a round of the loop; the
  loop is a step relation on the prover and the loop's variables, labelled with what it did.
  Seconds are \<open>u64\<close>, whose additions wrap around; the monotonic clock is a number of
  nanoseconds.
\<close>

section \<open>State\<close>

record 'k prover =
  pr_prvkey :: 'k
  pr_attested :: bool

definition prover_new :: "'k \<Rightarrow> 'k prover" where
  "prover_new k = \<lparr>pr_prvkey = k, pr_attested = False\<rparr>"

definition update_prvkey :: "'k \<Rightarrow> 'k prover \<Rightarrow> 'k prover" where
  "update_prvkey new p = p\<lparr>pr_prvkey := new, pr_attested := True\<rparr>"

definition get_prvkey :: "'k prover \<Rightarrow> 'k" where [simp]: "get_prvkey p = pr_prvkey p"

definition is_attested :: "'k prover \<Rightarrow> bool" where [simp]: "is_attested p = pr_attested p"

text \<open>
  \<open>wait_attested\<close> polls until the process stops or the flag is set: a poll is whether the sleep
  reports the process alive and the flag afterwards. \<open>None\<close> when the polls given do not decide.
\<close>

fun wait_attested_loop :: "(bool \<times> bool) list \<Rightarrow> bool option" where
  "wait_attested_loop [] = None"
| "wait_attested_loop ((alive, attested) # polls) =
     (if \<not> alive then Some False else if attested then Some True else wait_attested_loop polls)"

definition wait_attested :: "bool \<Rightarrow> (bool \<times> bool) list \<Rightarrow> bool option" where
  "wait_attested attested polls = (if attested then Some True else wait_attested_loop polls)"

record 'k monitor =
  mo_prover :: "'k prover"
  mo_last_submit :: "nat option"
  mo_submit_cooldown :: u64
  mo_staging_key :: "'k option"

definition monitor_start :: "'k prover \<Rightarrow> 'k monitor" where
  "monitor_start p = \<lparr>mo_prover = p, mo_last_submit = None, mo_submit_cooldown = 180, mo_staging_key = None\<rparr>"

text \<open>What a round of the loop asks of its environment.\<close>

record 'k round_input =
  ri_account :: "'k \<Rightarrow> sh160"
  ri_prover_status :: "sh160 \<Rightarrow> (string, u64) result"
  ri_validity_seconds :: "(string, u64) result"
  ri_now_secs :: u64
  ri_time :: nat
  ri_new_key :: 'k
  ri_report :: "'k \<Rightarrow> (string, bytes) result"
  ri_submit :: "sh160 \<Rightarrow> bytes \<Rightarrow> (string, sh256) result"
  ri_submit_time :: nat

text \<open>What a round did, and the milliseconds it sleeps before the next.\<close>

datatype 'k action =
    Status_Failed
  | Fresh                   \<comment> \<open>attested, nothing staged\<close>
  | Installed 'k            \<comment> \<open>the staged key is now the prover's\<close>
  | Report_Failed
  | Submit_Failed
  | Submitted 'k
  | Waiting

section \<open>A round\<close>

text \<open>Lines 95 to 103: the cooldown follows a short validity, the flag the contract.\<close>

definition monitor_observe :: "u64 \<Rightarrow> u64 \<Rightarrow> u64 \<Rightarrow> 'k monitor \<Rightarrow> 'k monitor" where
  "monitor_observe attested_time attested_validity_secs now m =
     (let m = (if attested_validity_secs < mo_submit_cooldown m
               then m\<lparr>mo_submit_cooldown := attested_validity_secs div 2\<rparr> else m);
          attested = attested_time + attested_validity_secs > now
      in if mo_staging_key m = None then m\<lparr>mo_prover := (mo_prover m)\<lparr>pr_attested := attested\<rparr>\<rparr> else m)"

text \<open>Lines 121 to 157: a new key and its report, once the last submission is old enough.\<close>

definition monitor_attest ::
  "'k round_input \<Rightarrow> 'k monitor \<Rightarrow> (string, 'k action \<times> u64) result \<times> 'k monitor" where
  "monitor_attest i m =
     (if (case mo_last_submit m of
            Some last_submit \<Rightarrow> ri_time i > last_submit + unat (mo_submit_cooldown m) * 1000000000
          | None \<Rightarrow> True)
      then (case ri_report i (ri_new_key i) of
              Inl (Fail _) \<Rightarrow> (Inr (Report_Failed, 1000), m)
            | Inl Panic \<Rightarrow> (Inl Panic, m)
            | Inr report \<Rightarrow>
               (case ri_submit i (ri_account i (ri_new_key i)) report of
                  Inl (Fail _) \<Rightarrow> (Inr (Submit_Failed, 1000), m)
                | Inl Panic \<Rightarrow> (Inl Panic, m)
                | Inr _ \<Rightarrow> (Inr (Submitted (ri_new_key i), 5000),
                    m\<lparr>mo_last_submit := Some (ri_submit_time i), mo_staging_key := Some (ri_new_key i)\<rparr>)))
      else (Inr (Waiting, 5000), m))"

definition monitor_round ::
  "'k round_input \<Rightarrow> 'k monitor \<Rightarrow> (string, 'k action \<times> u64) result \<times> 'k monitor" where
  "monitor_round i m =
     (let prvkey = (case mo_staging_key m of Some k \<Rightarrow> k | None \<Rightarrow> pr_prvkey (mo_prover m));
          prover = ri_account i prvkey in
      case ri_prover_status i prover of
        Inl (Fail _) \<Rightarrow> (Inr (Status_Failed, 1000), m)
      | Inl Panic \<Rightarrow> (Inl Panic, m)
      | Inr attested_time \<Rightarrow>
      (case ri_validity_seconds i of
        Inl (Fail _) \<Rightarrow> (Inr (Status_Failed, 1000), m)
      | Inl Panic \<Rightarrow> (Inl Panic, m)
      | Inr attested_validity_secs \<Rightarrow>
      let m = monitor_observe attested_time attested_validity_secs (ri_now_secs i) m;
          need_attestation = attested_time + attested_validity_secs div 2 < ri_now_secs i in
      if \<not> need_attestation then
        (let pause = min 60 (attested_validity_secs div 2) * 1000 in
         case mo_staging_key m of
           Some k \<Rightarrow> (Inr (Installed k, pause),
             m\<lparr>mo_staging_key := None, mo_prover := update_prvkey k (mo_prover m)\<rparr>)
         | None \<Rightarrow> (Inr (Fresh, pause), m))
      else monitor_attest i m))"

section \<open>The loop\<close>

inductive monitor_step :: "'k monitor \<Rightarrow> 'k round_input \<times> 'k action \<Rightarrow> 'k monitor \<Rightarrow> bool" where
  round: "monitor_round i m = (Inr (a, pause), m') \<Longrightarrow> monitor_step m (i, a) m'"

inductive monitor_run :: "'k monitor \<Rightarrow> ('k round_input \<times> 'k action) list \<Rightarrow> 'k monitor \<Rightarrow> bool" where
  run_refl: "monitor_run m [] m"
| run_step: "monitor_run m es m' \<Longrightarrow> monitor_step m' e m'' \<Longrightarrow> monitor_run m (es @ [e]) m''"

inductive_cases monitor_stepE: "monitor_step m (i, a) m'"
inductive_cases monitor_run_NilE: "monitor_run m [] m'"

inductive_simps monitor_step_simps: "monitor_step m (i, a) m'"

lemma monitor_observe_simps [simp]:
  "mo_staging_key (monitor_observe t v now m) = mo_staging_key m"
  "pr_prvkey (mo_prover (monitor_observe t v now m)) = pr_prvkey (mo_prover m)"
  "mo_last_submit (monitor_observe t v now m) = mo_last_submit m"
  "mo_submit_cooldown (monitor_observe t v now m) = (if v < mo_submit_cooldown m then v div 2 else mo_submit_cooldown m)"
  by (simp_all add: monitor_observe_def Let_def)

lemma monitor_attest_cases:
  assumes "monitor_attest i m = (Inr (a, pause), m')"
  shows "(a \<in> {Report_Failed, Submit_Failed, Waiting} \<and> m' = m) \<or>
    (a = Submitted (ri_new_key i) \<and>
     m' = m\<lparr>mo_last_submit := Some (ri_submit_time i), mo_staging_key := Some (ri_new_key i)\<rparr> \<and>
     (\<exists>report h. ri_report i (ri_new_key i) = Inr report \<and> ri_submit i (ri_account i (ri_new_key i)) report = Inr h))"
  using assms by (auto simp: monitor_attest_def split: if_splits sum.splits failure.splits)

text \<open>A round's effect, by its action.\<close>

lemma step_cases:
  assumes "monitor_step m (i, a) m'"
  obtains
    (failed) "a = Status_Failed" "m' = m"
  | (fresh) "a = Fresh" "mo_staging_key m = None" "mo_staging_key m' = None"
      "pr_prvkey (mo_prover m') = pr_prvkey (mo_prover m)" "mo_last_submit m' = mo_last_submit m"
  | (installed) k t v where "a = Installed k" "mo_staging_key m = Some k" "mo_staging_key m' = None"
      "mo_prover m' = \<lparr>pr_prvkey = k, pr_attested = True\<rparr>" "mo_last_submit m' = mo_last_submit m"
      "ri_prover_status i (ri_account i k) = Inr t" "ri_validity_seconds i = Inr v"
      "ri_now_secs i \<le> t + v div 2"
  | (other) "a \<in> {Report_Failed, Submit_Failed, Waiting}" "mo_staging_key m' = mo_staging_key m"
      "pr_prvkey (mo_prover m') = pr_prvkey (mo_prover m)" "mo_last_submit m' = mo_last_submit m"
  | (submitted) report h where "a = Submitted (ri_new_key i)" "mo_staging_key m' = Some (ri_new_key i)"
      "pr_prvkey (mo_prover m') = pr_prvkey (mo_prover m)" "mo_last_submit m' = Some (ri_submit_time i)"
      "ri_report i (ri_new_key i) = Inr report" "ri_submit i (ri_account i (ri_new_key i)) report = Inr h"
proof -
  obtain pause where r: "monitor_round i m = (Inr (a, pause), m')" using assms by (rule monitor_stepE)
  let ?k = "case mo_staging_key m of Some k \<Rightarrow> k | None \<Rightarrow> pr_prvkey (mo_prover m)"
  show thesis
  proof (cases "ri_prover_status i (ri_account i ?k)")
    case (Inl e)
    then show thesis using r failed by (cases e) (simp_all add: monitor_round_def)
  next
    case t: (Inr t)
    show thesis
    proof (cases "ri_validity_seconds i")
      case (Inl e)
      then show thesis using r t failed by (cases e) (simp_all add: monitor_round_def)
    next
      case v: (Inr v)
      show thesis
      proof (cases "t + v div 2 < ri_now_secs i")
        case False
        then show thesis
          using r t v fresh installed
          by (cases "mo_staging_key m") (auto simp: monitor_round_def Let_def update_prvkey_def split: if_splits)
      next
        case True
        then have "monitor_attest i (monitor_observe t v (ri_now_secs i) m) = (Inr (a, pause), m')"
          using r t v by (simp add: monitor_round_def Let_def)
        from monitor_attest_cases [OF this] show thesis
          using other submitted by auto
      qed
    qed
  qed
qed

section \<open>What the loop guarantees\<close>

definition submitted_keys :: "('k round_input \<times> 'k action) list \<Rightarrow> 'k set" where
  "submitted_keys es = {k. \<exists>i. (i, Submitted k) \<in> set es}"

definition installed_keys :: "('k round_input \<times> 'k action) list \<Rightarrow> 'k set" where
  "installed_keys es = {k. \<exists>i. (i, Installed k) \<in> set es}"

lemma keys_snoc [simp]:
  "submitted_keys (es @ [(i, a)]) = submitted_keys es \<union> (case a of Submitted k \<Rightarrow> {k} | _ \<Rightarrow> {})"
  "installed_keys (es @ [(i, a)]) = installed_keys es \<union> (case a of Installed k \<Rightarrow> {k} | _ \<Rightarrow> {})"
  by (auto simp: submitted_keys_def installed_keys_def split: action.splits)

text \<open>
  The invariant of the loop: a staged key has been submitted, the prover's key is the one it
  started with or one that was submitted and then installed, and every installed key was
  submitted before.
\<close>

definition monitor_inv :: "'k \<Rightarrow> ('k round_input \<times> 'k action) list \<Rightarrow> 'k monitor \<Rightarrow> bool" where
  "monitor_inv k0 es m \<longleftrightarrow>
     (\<forall>k. mo_staging_key m = Some k \<longrightarrow> k \<in> submitted_keys es \<and> mo_last_submit m \<noteq> None) \<and>
     pr_prvkey (mo_prover m) \<in> insert k0 (installed_keys es) \<and>
     installed_keys es \<subseteq> submitted_keys es"

lemma monitor_inv_start: "monitor_inv (pr_prvkey p) [] (monitor_start p)"
  by (simp add: monitor_inv_def monitor_start_def installed_keys_def)

lemma monitor_inv_step:
  assumes "monitor_inv k0 es m" "monitor_step m (i, a) m'"
  shows "monitor_inv k0 (es @ [(i, a)]) m'"
  using assms(2,1)
  by (cases rule: step_cases) (auto simp: monitor_inv_def)

lemma monitor_run_inv:
  assumes "monitor_run (monitor_start p) es m"
  shows "monitor_inv (pr_prvkey p) es m"
  using assms
proof (induction "monitor_start p" es m rule: monitor_run.induct)
  case run_refl
  show ?case by (rule monitor_inv_start)
next
  case (run_step es m' e m'')
  obtain i a where "e = (i, a)" by (cases e)
  then show ?case using run_step monitor_inv_step by metis
qed

text \<open>The prover's key changes in no other round than an installation.\<close>

lemma key_changes_only_installed:
  assumes "monitor_step m (i, a) m'" "pr_prvkey (mo_prover m') \<noteq> pr_prvkey (mo_prover m)"
  shows "a = Installed (pr_prvkey (mo_prover m'))"
  using assms by (cases rule: step_cases) auto

text \<open>Between two submissions the loop waits for the cooldown.\<close>

lemma submit_after_cooldown:
  assumes "monitor_step m (i, Submitted k) m'" "mo_last_submit m = Some t"
    "ri_validity_seconds i = Inr v"
  shows "ri_time i > t + unat (if v < mo_submit_cooldown m then v div 2 else mo_submit_cooldown m) * 1000000000"
  using assms
  by (auto simp: monitor_step_simps monitor_round_def monitor_attest_def Let_def
      split: sum.splits failure.splits if_splits option.splits)

lemma wait_attested_iff:
  "wait_attested attested polls = Some True \<longleftrightarrow>
     attested \<or> (\<exists>n<length polls. snd (polls ! n) \<and> (\<forall>k\<le>n. fst (polls ! k)))"
proof -
  have loop: "wait_attested_loop polls = Some True \<longleftrightarrow> (\<exists>n<length polls. snd (polls ! n) \<and> (\<forall>k\<le>n. fst (polls ! k)))"
  proof (induction polls)
    case (Cons p polls)
    have "(\<exists>n<length (p # polls). snd ((p # polls) ! n) \<and> (\<forall>k\<le>n. fst ((p # polls) ! k))) \<longleftrightarrow>
        fst p \<and> (snd p \<or> (\<exists>n<length polls. snd (polls ! n) \<and> (\<forall>k\<le>n. fst (polls ! k))))" (is "?l \<longleftrightarrow> ?r")
    proof
      assume ?l
      then obtain n where n: "n < length (p # polls)" "snd ((p # polls) ! n)" "\<forall>k\<le>n. fst ((p # polls) ! k)" by blast
      from n(3) have "fst p" by force
      moreover have "\<forall>k\<le>j. fst (polls ! k)" if "n = Suc j" for j using n(3) that by force
      ultimately show ?r using n(1,2) by (cases n) auto
    next
      assume r: ?r
      show ?l
      proof (cases "snd p")
        case True
        then show ?thesis using r by (intro exI [of _ 0]) simp
      next
        case False
        then obtain n where "n < length polls" "snd (polls ! n)" "\<forall>k\<le>n. fst (polls ! k)" using r by blast
        then show ?thesis using r by (intro exI [of _ "Suc n"]) (auto simp: nth_Cons split: nat.split)
      qed
    qed
    then show ?case using Cons by (cases p) simp
  qed simp
  then show ?thesis by (simp add: wait_attested_def)
qed

section \<open>The signing key\<close>

text \<open>C35: whatever the loop has done, the key that the prover signs with is the one it was made with, or
  one that an earlier round has submitted with a report to the contract and a later round has
  installed.\<close>

theorem signing_key_was_submitted:
  assumes "monitor_run (monitor_start p) es m"
  shows "pr_prvkey (mo_prover m) = pr_prvkey p \<or>
    (\<exists>xs ys zs i j. es = xs @ (i, Submitted (pr_prvkey (mo_prover m))) # ys @ (j, Installed (pr_prvkey (mo_prover m))) # zs)"
  using assms
proof (induction "monitor_start p" es m rule: monitor_run.induct)
  case run_refl
  show ?case by (simp add: monitor_start_def)
next
  case (run_step es m' e m'')
  obtain i a where e: "e = (i, a)" by (cases e)
  have inv: "monitor_inv (pr_prvkey p) es m'" using run_step.hyps(1) by (rule monitor_run_inv)
  show ?case
  proof (cases "pr_prvkey (mo_prover m'') = pr_prvkey (mo_prover m')")
    case True
    with run_step.hyps(2) show ?thesis
    proof (elim disjE exE)
      fix xs ys zs i j
      assume "es = xs @ (i, Submitted (pr_prvkey (mo_prover m'))) # ys @ (j, Installed (pr_prvkey (mo_prover m'))) # zs"
      then have "es @ [e] = xs @ (i, Submitted (pr_prvkey (mo_prover m''))) # ys @ (j, Installed (pr_prvkey (mo_prover m''))) # (zs @ [e])"
        using True by simp
      then show ?thesis by blast
    qed simp
  next
    case False
    let ?k = "pr_prvkey (mo_prover m'')"
    have a: "a = Installed ?k" using run_step.hyps(3) False by (intro key_changes_only_installed [of m' i]) (simp_all add: e)
    have "mo_staging_key m' = Some ?k"
      using run_step.hyps(3) unfolding e a by (cases rule: step_cases) auto
    then have "?k \<in> submitted_keys es" using inv by (simp add: monitor_inv_def)
    then obtain j xs ys where "es = xs @ (j, Submitted ?k) # ys" by (auto simp: submitted_keys_def dest: split_list)
    then have "es @ [e] = xs @ (j, Submitted ?k) # ys @ (i, Installed ?k) # []" by (simp add: e a)
    then show ?thesis by blast
  qed
qed

text \<open>The rounds of the witness: key 2 is submitted at second 1000, and attested when it is looked at
  at second 1010.\<close>

definition first_round :: "nat round_input" where
  "first_round = \<lparr>ri_account = of_nat, ri_prover_status = (\<lambda>_. Inr 0), ri_validity_seconds = Inr 600, ri_now_secs = 1000,
     ri_time = 5, ri_new_key = 2, ri_report = (\<lambda>_. Inr [1]), ri_submit = (\<lambda>_ _. Inr 0), ri_submit_time = 6\<rparr>"

definition second_round :: "nat round_input" where
  "second_round = first_round\<lparr>ri_prover_status := (\<lambda>a. if a = 2 then Inr 1005 else Inr 0), ri_now_secs := 1010, ri_new_key := 3\<rparr>"

theorem signing_key_was_submitted_witness:
  "\<exists>m. monitor_run (monitor_start (prover_new 1)) [(first_round, Submitted 2), (second_round, Installed 2)] m \<and>
     pr_prvkey (mo_prover m) = 2 \<and>
     (\<exists>xs ys zs i j. [(first_round, Submitted 2), (second_round, Installed 2)] =
        xs @ (i, Submitted (2 :: nat)) # ys @ (j, Installed 2) # zs)"
proof -
  obtain m1 where 1: "monitor_step (monitor_start (prover_new 1)) (first_round, Submitted 2) m1" "mo_staging_key m1 = Some 2"
    by (simp add: monitor_step_simps monitor_round_def monitor_start_def prover_new_def first_round_def monitor_attest_def
        monitor_observe_def Let_def word_less_nat_alt)
  then obtain m2 where 2: "monitor_step m1 (second_round, Installed 2) m2" "pr_prvkey (mo_prover m2) = 2"
    by (simp add: monitor_step_simps monitor_round_def second_round_def first_round_def update_prvkey_def Let_def word_less_nat_alt)
  have run: "monitor_run (monitor_start (prover_new 1)) ([] @ [(first_round, Submitted 2)] @ [(second_round, Installed 2)]) m2"
    using run_step [OF run_step [OF run_refl 1(1)] 2(1)] by simp
  from signing_key_was_submitted [OF run] 2(2) run show ?thesis
    by (intro exI [of _ m2]) (simp add: prover_new_def)
qed

text \<open>C36: a round that changes the signing key installs the key that was staged, and it does so only after
  the contract reported for this key's address an attestation of which less than half the validity
  has passed.\<close>

theorem key_change_is_attested:
  assumes "monitor_step m (i, a) m'" and "pr_prvkey (mo_prover m') \<noteq> pr_prvkey (mo_prover m)"
  shows "\<exists>t v. a = Installed (pr_prvkey (mo_prover m')) \<and> mo_staging_key m = Some (pr_prvkey (mo_prover m')) \<and>
    ri_prover_status i (ri_account i (pr_prvkey (mo_prover m'))) = Inr t \<and> ri_validity_seconds i = Inr v \<and>
    ri_now_secs i \<le> t + v div 2 \<and> pr_attested (mo_prover m') \<and> mo_staging_key m' = None"
  using assms(1)
proof (cases rule: step_cases)
  case (installed k t v)
  then show ?thesis by (intro exI [of _ t] exI [of _ v]) simp
qed (use assms(2) in auto)

theorem key_change_is_attested_witness:
  "\<exists>t v. ri_prover_status second_round 2 = Inr t \<and> ri_validity_seconds second_round = Inr v \<and> ri_now_secs second_round \<le> t + v div 2"
proof -
  let ?m = "(monitor_start (prover_new 1))\<lparr>mo_staging_key := Some 2\<rparr>"
  obtain m2 where "monitor_step ?m (second_round, Installed 2) m2" "pr_prvkey (mo_prover m2) = 2"
    by (simp add: monitor_step_simps monitor_round_def second_round_def first_round_def update_prvkey_def monitor_start_def
        Let_def word_less_nat_alt)
  then show ?thesis
    using key_change_is_attested [of ?m second_round "Installed 2" m2]
    by (simp add: monitor_start_def prover_new_def first_round_def second_round_def)
qed

text \<open>A round submits again only when the cooldown since the last submission has passed, where the
  cooldown is 180 seconds or half of a shorter validity that the contract has reported.\<close>

theorem submissions_respect_cooldown:
  assumes "monitor_step m (i, Submitted k) m'" "mo_last_submit m = Some t" "ri_validity_seconds i = Inr v"
  shows "t + unat (if v < mo_submit_cooldown m then v div 2 else mo_submit_cooldown m) * 1000000000 < ri_time i"
  by (rule submit_after_cooldown [OF assms])

theorem submissions_respect_cooldown_witness:
  "\<exists>m'. monitor_step ((monitor_start (prover_new 1))\<lparr>mo_last_submit := Some 7\<rparr>)
      (first_round\<lparr>ri_time := 180000000008\<rparr>, Submitted 2) m' \<and> 7 + unat (180 :: u64) * 1000000000 < (180000000008 :: nat)"
proof -
  have step: "\<exists>m'. monitor_step ((monitor_start (prover_new 1))\<lparr>mo_last_submit := Some 7\<rparr>)
      (first_round\<lparr>ri_time := 180000000008\<rparr>, Submitted 2) m'"
    by (simp add: monitor_step_simps monitor_round_def monitor_start_def prover_new_def first_round_def monitor_attest_def
        monitor_observe_def Let_def word_less_nat_alt)
  then show ?thesis
    using submissions_respect_cooldown [of "(monitor_start (prover_new 1))\<lparr>mo_last_submit := Some 7\<rparr>"
        "first_round\<lparr>ri_time := 180000000008\<rparr>" 2 _ 7 600]
    by (auto simp: first_round_def monitor_start_def word_less_nat_alt)
qed

section \<open>Progress\<close>

text \<open>The rounds that neither stage nor install a key.\<close>

definition idle :: "'k action \<Rightarrow> bool" where
  "idle a \<longleftrightarrow> a \<in> {Status_Failed, Report_Failed, Submit_Failed, Waiting}"

lemma idle_keeps_staged: "monitor_step m (i, a) m' \<Longrightarrow> idle a \<Longrightarrow> mo_staging_key m' = mo_staging_key m"
  by (erule step_cases) (auto simp: idle_def)

lemma idle_run_keeps_staged:
  "monitor_run m es m' \<Longrightarrow> list_all (\<lambda>(i, a). idle a) es \<Longrightarrow> mo_staging_key m' = mo_staging_key m"
proof (induction rule: monitor_run.induct)
  case (run_step m es m' e m'')
  then show ?case using idle_keeps_staged [of m' "fst e" "snd e" m''] by (cases e) simp
qed simp

lemma attested_round_installs:
  assumes "mo_staging_key m = Some k" "ri_prover_status j (ri_account j k) = Inr t" "ri_validity_seconds j = Inr v"
    "ri_now_secs j \<le> t + v div 2"
  shows "\<exists>m'. monitor_step m (j, Installed k) m' \<and> mo_prover m' = \<lparr>pr_prvkey = k, pr_attested = True\<rparr> \<and> mo_staging_key m' = None"
  using assms by (simp add: monitor_step_simps monitor_round_def Let_def update_prvkey_def not_less)

lemma due_round_submits:
  assumes "ri_prover_status i (ri_account i (case mo_staging_key m of Some k \<Rightarrow> k | None \<Rightarrow> pr_prvkey (mo_prover m))) = Inr t"
    "ri_validity_seconds i = Inr v" "t + v div 2 < ri_now_secs i"
    "case mo_last_submit m of Some l \<Rightarrow> l + unat (mo_submit_cooldown m) * 1000000000 < ri_time i | None \<Rightarrow> True"
    "ri_report i (ri_new_key i) = Inr report" "ri_submit i (ri_account i (ri_new_key i)) report = Inr h"
  shows "\<exists>m'. monitor_step m (i, Submitted (ri_new_key i)) m' \<and> mo_staging_key m' = Some (ri_new_key i)"
proof -
  let ?o = "monitor_observe t v (ri_now_secs i) m"
  have "unat (mo_submit_cooldown ?o) \<le> unat (mo_submit_cooldown m)"
    by (auto simp: word_less_nat_alt unat_div dest: div_le_dividend [of _ 2, THEN le_less_trans] intro: less_imp_le)
  then have "mo_last_submit m = Some l \<Longrightarrow> l + unat (mo_submit_cooldown ?o) * 1000000000 < ri_time i" for l
    using assms(4) by (auto intro: le_less_trans add_left_mono mult_right_mono)
  then have "monitor_attest i ?o = (Inr (Submitted (ri_new_key i), 5000),
      ?o\<lparr>mo_last_submit := Some (ri_submit_time i), mo_staging_key := Some (ri_new_key i)\<rparr>)"
    using assms(5,6) by (simp add: monitor_attest_def del: monitor_observe_simps(4) split: option.split)
  then show ?thesis using assms(1-3) by (simp add: monitor_step_simps monitor_round_def Let_def)
qed

text \<open>C37: progress. When the key in use has lost half of its attestation, the cooldown has passed and the report
  of a new key is accepted by the relay, the round stages this key; and after any number of rounds
  that fail or wait, the first round in which the contract reports the new key as freshly attested
  installs it and marks the prover as attested.\<close>

theorem attested_key_is_installed:
  assumes "ri_prover_status i (ri_account i (case mo_staging_key m of Some k \<Rightarrow> k | None \<Rightarrow> pr_prvkey (mo_prover m))) = Inr t"
    and "ri_validity_seconds i = Inr v" "t + v div 2 < ri_now_secs i"
    and "case mo_last_submit m of Some l \<Rightarrow> l + unat (mo_submit_cooldown m) * 1000000000 < ri_time i | None \<Rightarrow> True"
    and "ri_report i (ri_new_key i) = Inr report" "ri_submit i (ri_account i (ri_new_key i)) report = Inr h"
    and "ri_prover_status j (ri_account j (ri_new_key i)) = Inr t'" "ri_validity_seconds j = Inr v'"
    and "ri_now_secs j \<le> t' + v' div 2"
  shows "\<exists>m1. monitor_step m (i, Submitted (ri_new_key i)) m1 \<and>
    (\<forall>es m2. monitor_run m1 es m2 \<and> list_all (\<lambda>(i, a). idle a) es \<longrightarrow>
      (\<exists>m3. monitor_step m2 (j, Installed (ri_new_key i)) m3 \<and>
        mo_prover m3 = \<lparr>pr_prvkey = ri_new_key i, pr_attested = True\<rparr> \<and> mo_staging_key m3 = None))"
proof -
  obtain m1 where "monitor_step m (i, Submitted (ri_new_key i)) m1" "mo_staging_key m1 = Some (ri_new_key i)"
    using due_round_submits [OF assms(1-6)] by blast
  then show ?thesis
    using attested_round_installs [OF _ assms(7-9)] idle_run_keeps_staged by metis
qed

theorem attested_key_is_installed_witness:
  "\<exists>m1 m3. monitor_step (monitor_start (prover_new 1)) (first_round, Submitted 2) m1 \<and>
     monitor_step m1 (second_round, Installed 2) m3 \<and> mo_prover m3 = \<lparr>pr_prvkey = 2, pr_attested = True\<rparr>"
proof -
  have "\<exists>m1. monitor_step (monitor_start (prover_new 1)) (first_round, Submitted (ri_new_key first_round)) m1 \<and>
    (\<forall>es m2. monitor_run m1 es m2 \<and> list_all (\<lambda>(i, a). idle a) es \<longrightarrow>
      (\<exists>m3. monitor_step m2 (second_round, Installed (ri_new_key first_round)) m3 \<and>
        mo_prover m3 = \<lparr>pr_prvkey = ri_new_key first_round, pr_attested = True\<rparr> \<and> mo_staging_key m3 = None))"
    by (rule attested_key_is_installed [where t = 0 and v = 600 and report = "[1]" and h = 0 and t' = 1005 and v' = 600])
      (simp_all add: first_round_def second_round_def monitor_start_def prover_new_def word_less_nat_alt word_le_nat_alt)
  moreover have "ri_new_key first_round = 2" by (simp add: first_round_def)
  ultimately obtain m1 where m1: "monitor_step (monitor_start (prover_new 1)) (first_round, Submitted 2) m1"
    "\<forall>es m2. monitor_run m1 es m2 \<and> list_all (\<lambda>(i, a). idle a) es \<longrightarrow>
      (\<exists>m3. monitor_step m2 (second_round, Installed 2) m3 \<and> mo_prover m3 = \<lparr>pr_prvkey = 2, pr_attested = True\<rparr> \<and>
        mo_staging_key m3 = None)"
    by auto
  from m1(2) [rule_format, of "[]" m1] m1(1) show ?thesis by (auto intro: run_refl)
qed

end
