(* ===== verification/Configuration.thy ===== *)
theory Configuration
  imports Shomei_Client
begin

text \<open>
  The configuration and the command line: \<open>src/apps/prover/src/types.rs\<close>, with the values that
  \<open>apps.rs\<close> derives from them. The JSON decoder, the file system and the argument parser are
  libraries; keys are of type \<open>'k\<close>.
\<close>

section \<open>The configuration\<close>

definition default_wait_block :: u64 where "default_wait_block = 5"
definition default_max_block :: u64 where "default_max_block = 10"

record server_config =
  sc_tls :: string
  sc_body_limit :: nat
  sc_workers :: nat

record rollup_config =
  ro_endpoint :: string
  ro_contract :: sh160
  ro_wait_block :: u64
  ro_max_block :: u64

text \<open>The two numbers may be missing in the file.\<close>

definition rollup_config_of :: "string \<Rightarrow> sh160 \<Rightarrow> u64 option \<Rightarrow> u64 option \<Rightarrow> rollup_config" where
  "rollup_config_of endpoint contract wait_block max_block =
     \<lparr>ro_endpoint = endpoint, ro_contract = contract,
      ro_wait_block = (case wait_block of Some n \<Rightarrow> n | None \<Rightarrow> default_wait_block),
      ro_max_block = (case max_block of Some n \<Rightarrow> n | None \<Rightarrow> default_max_block)\<rparr>"

record 'k verifier_config =
  vc_endpoint :: string
  vc_contract :: sh160
  vc_relay_account :: 'k

record 'k config =
  cf_server :: server_config
  cf_l2 :: string
  cf_rollup :: rollup_config
  cf_verifier :: "'k verifier_config"
  cf_shomei :: shomei_config

section \<open>The command line\<close>

record args =
  ar_executable :: string
  ar_port :: nat
  ar_cfg :: string

definition args_default :: args where
  "args_default = \<lparr>ar_executable = [], ar_port = 18400, ar_cfg = ''config/prover.json''\<rparr>"

text \<open>\<open>str::parse\<close> of a \<open>u32\<close>: an optional plus sign and at least one digit, without overflow.\<close>

definition digit :: "char \<Rightarrow> nat option" where
  "digit c = (let n = of_char c :: nat in if 48 \<le> n \<and> n \<le> 57 then Some (n - 48) else None)"

fun parse_digits :: "nat \<Rightarrow> string \<Rightarrow> nat option" where
  "parse_digits acc [] = Some acc"
| "parse_digits acc (c # cs) =
     (case digit c of
        Some d \<Rightarrow> if acc * 10 + d < 2 ^ 32 then parse_digits (acc * 10 + d) cs else None
      | None \<Rightarrow> None)"

definition parse_u32 :: "string \<Rightarrow> nat option" where
  "parse_u32 s = (case s of
      [] \<Rightarrow> None
    | c # cs \<Rightarrow> if c = CHR ''+'' then (if cs = [] then None else parse_digits 0 cs) else parse_digits 0 s)"

text \<open>
  The options as the argument parser yields them: a short option with the value that \<open>value()\<close>
  would return, or a parse error.
\<close>

datatype opt = Opt_Short char "string option" | Opt_Other string | Opt_Error

fun args_loop :: "opt list \<Rightarrow> args \<Rightarrow> (string, args) result" where
  "args_loop [] out = Inr out"
| "args_loop (Opt_Error # opts) out = Inl Panic"
| "args_loop (Opt_Other _ # opts) out = args_loop opts out"
| "args_loop (Opt_Short c v # opts) out =
     (if c = CHR ''p'' then
        bind_result (unwrap_option v) (\<lambda>v. bind_result (unwrap_option (parse_u32 v)) (\<lambda>n.
          args_loop opts (out\<lparr>ar_port := n\<rparr>)))
      else if c = CHR ''c'' then
        bind_result (unwrap_option v) (\<lambda>v. args_loop opts (out\<lparr>ar_cfg := v\<rparr>))
      else args_loop opts out)"

definition from_args :: "(string list \<Rightarrow> opt list) \<Rightarrow> string list \<Rightarrow> (string, args) result" where
  "from_args parse args =
     (case args of
        [] \<Rightarrow> Inl Panic
      | exe # rest \<Rightarrow> args_loop (parse rest) (args_default\<lparr>ar_executable := exe\<rparr>))"

section \<open>What the application derives\<close>

text \<open>Loading the configuration: both the file and its decoding are unwrapped.\<close>

definition load_config ::
  "(string \<Rightarrow> (string, bytes) result) \<Rightarrow> (bytes \<Rightarrow> (string, 'k config) result) \<Rightarrow> args \<Rightarrow> (string, 'k config) result" where
  "load_config read_file from_slice args =
     bind_result (unwrap (read_file (ar_cfg args))) (\<lambda>data. unwrap (from_slice data))"

record rpc_server_config =
  rs_listen_addr :: string
  rs_tls_cert :: bytes
  rs_tls_key :: bytes
  rs_http_max_body_length :: "nat option"
  rs_ws_frame_size :: nat
  rs_threads :: nat
  rs_max_idle_secs :: "nat option"

definition rpc_server_config_of ::
  "(string \<Rightarrow> (string, bytes) result) \<Rightarrow> args \<Rightarrow> 'k config \<Rightarrow> (string, rpc_server_config) result" where
  "rpc_server_config_of read_file args cfg =
     (let path = sc_tls (cf_server cfg) in
      bind_result
        (if path = [] then Inr ([], [])
         else bind_result (unwrap (read_file (path @ ''.crt''))) (\<lambda>cert.
              bind_result (unwrap (read_file (path @ ''.key''))) (\<lambda>key. Inr (cert, key)))) (\<lambda>(tls_cert, tls_key).
      Inr \<lparr>rs_listen_addr = ''0.0.0.0:'' @ show_nat (ar_port args), rs_tls_cert = tls_cert, rs_tls_key = tls_key,
           rs_http_max_body_length = Some (sc_body_limit (cf_server cfg)), rs_ws_frame_size = 64 * 2 ^ 10,
           rs_threads = sc_workers (cf_server cfg), rs_max_idle_secs = Some 60\<rparr>))"

section \<open>Properties of the command line\<close>

text \<open>The values given for a short option, in order; none for an option without one.\<close>

definition opt_values :: "char \<Rightarrow> opt list \<Rightarrow> string option list" where
  "opt_values c opts = List.map_filter (\<lambda>opt. case opt of Opt_Short d v \<Rightarrow> if d = c then Some v else None | _ \<Rightarrow> None) opts"

lemma opt_values_simps [simp]:
  "opt_values c [] = []"
  "opt_values c (Opt_Short d v # opts) = (if d = c then v # opt_values c opts else opt_values c opts)"
  "opt_values c (Opt_Other x # opts) = opt_values c opts" "opt_values c (Opt_Error # opts) = opt_values c opts"
  by (simp_all add: opt_values_def map_filter_simps)

definition opts_ok :: "opt list \<Rightarrow> bool" where
  "opts_ok opts \<longleftrightarrow> Opt_Error \<notin> set opts \<and> None \<notin> set (opt_values (CHR ''c'') opts) \<and>
     list_all (\<lambda>v. Option.bind v parse_u32 \<noteq> None) (opt_values (CHR ''p'') opts)"

lemma args_loop_spec:
  "args_loop opts out =
     (if opts_ok opts
      then Inr (out\<lparr>ar_port := last (ar_port out # map (\<lambda>v. the (parse_u32 (the v))) (opt_values (CHR ''p'') opts)),
                    ar_cfg := last (ar_cfg out # map the (opt_values (CHR ''c'') opts))\<rparr>)
      else Inl Panic)"
proof (induction opts arbitrary: out)
  case (Cons opt opts)
  show ?case
  proof (cases opt)
    case (Opt_Short c v)
    then show ?thesis
      by (cases v; cases "c = CHR ''p''"; cases "c = CHR ''c''"; cases "parse_u32 (the v)")
        (auto simp: Cons opts_ok_def)
  qed (simp_all add: Cons opts_ok_def)
qed (simp add: opts_ok_def)

lemma parse_digits_snoc:
  "parse_digits acc (cs @ [c]) =
     Option.bind (parse_digits acc cs) (\<lambda>n. Option.bind (digit c) (\<lambda>d. if n * 10 + d < 2 ^ 32 then Some (n * 10 + d) else None))"
  by (induction acc cs rule: parse_digits.induct) (auto split: option.split)

lemma digit_char: "d < 10 \<Longrightarrow> digit (char_of (48 + d)) = Some d"
  by (simp add: digit_def Let_def)

lemma parse_digits_show_nat: "parse_digits 0 (show_nat n) = (if n < 2 ^ 32 then Some n else None)"
proof (induction n rule: show_nat.induct)
  case (1 n)
  show ?case
  proof (cases "n < 10")
    case True
    then show ?thesis by (simp add: show_nat.simps [of n] digit_char)
  next
    case False
    then have "n div 10 * 10 + n mod 10 = n" "show_nat n = show_nat (n div 10) @ [char_of (48 + n mod 10)]"
      by (simp_all add: show_nat.simps [of n])
    then show ?thesis using 1 False by (auto simp: parse_digits_snoc digit_char)
  qed
qed

lemma show_nat_digits: "show_nat n \<noteq> [] \<and> hd (show_nat n) \<noteq> CHR ''+''"
proof (induction n rule: show_nat.induct)
  case (1 n)
  have "char_of (48 + d :: nat) \<noteq> CHR ''+''" if "d < 10" for d
  proof
    assume "char_of (48 + d) = CHR ''+''"
    with digit_char [OF that] have "digit (CHR ''+'') = Some d" by (simp only:)
    then show False by (simp add: digit_def)
  qed
  then show ?case using 1 by (cases "n < 10") (simp_all add: show_nat.simps [of n] hd_append)
qed

section \<open>What the command line determines\<close>

text \<open>The arguments. The first word is the executable, the last \<open>-p\<close> and the last \<open>-c\<close> decide, other
  options are skipped, and the defaults stand when there is none; a parse error, an option without
  value or a port that is no 32-bit number panics, also when a later one is right.\<close>

theorem args_of_command_line:
  "from_args parse words =
     (case words of
        [] \<Rightarrow> Inl Panic
      | exe # rest \<Rightarrow>
          let ports = opt_values (CHR ''p'') (parse rest); cfgs = opt_values (CHR ''c'') (parse rest) in
          if Opt_Error \<in> set (parse rest) \<or> None \<in> set cfgs \<or> list_ex (\<lambda>v. Option.bind v parse_u32 = None) ports then Inl Panic
          else Inr \<lparr>ar_executable = exe, ar_port = last (18400 # map (\<lambda>v. the (parse_u32 (the v))) ports),
                    ar_cfg = last (''config/prover.json'' # map the cfgs)\<rparr>)"
  by (auto simp: from_args_def args_loop_spec opts_ok_def args_default_def Let_def list_ex_iff list_all_iff split: list.split)

text \<open>The port. A number printed as the listening address prints it is read back by \<open>-p\<close>, and exactly the
  numbers below \<open>2 ^ 32\<close> are; so a server started with that option listens on that port.\<close>

theorem port_roundtrip:
  "parse_u32 (show_nat n) = (if n < 2 ^ 32 then Some n else None) \<and>
   bind_result (from_args (\<lambda>words. [Opt_Short (CHR ''p'') (Some (show_nat n))]) [exe]) (\<lambda>args.
     rpc_server_config_of read_file args cfg) =
   (if n < 2 ^ 32 then rpc_server_config_of read_file (args_default\<lparr>ar_executable := exe, ar_port := n\<rparr>) cfg else Inl Panic)"
proof -
  have "parse_u32 (show_nat n) = parse_digits 0 (show_nat n)"
    using show_nat_digits [of n] by (auto simp: parse_u32_def split: list.split)
  then show ?thesis by (simp add: parse_digits_show_nat from_args_def args_loop_spec opts_ok_def)
qed

end
