(* ===== verification/Prover_App.thy ===== *)
theory Prover_App
  imports Zk_Proving Pob_Generator Verifier_Client Batch_Task Prover_Monitor Configuration "HOL-Library.Multiset"
begin

text \<open>
  The application: \<open>src/apps/prover/src/apps.rs\<close> and \<open>types.rs\<close>. \<open>generate_poe\<close> proves the blocks of
  a task and checks each state root, \<open>prove\<close> is the RPC entry, \<open>generate_poe_v2\<close> the variant on
  the zk trie. The proof of execution (\<open>Poe\<close>), the L2 client and the thread pool are libraries.
\<close>

section \<open>Proving a batch\<close>

text \<open>
  \<open>poe_handle\<close> is the closure run for a block: it generates the proof of block, executes it and
  returns the executed block with its proof of execution.
\<close>

record ('c, 'p, 'k) poe_lib =
  pl_single_block :: "sh256 \<Rightarrow> sh256 \<Rightarrow> sh256 \<Rightarrow> sh256 \<Rightarrow> 'p"
  pl_new_state_root :: "'p \<Rightarrow> sh256"
  pl_batch :: "sh256 \<Rightarrow> 'p list \<Rightarrow> (string, 'p) result"
  pl_sign :: "'c \<Rightarrow> 'k \<Rightarrow> 'p \<Rightarrow> 'p"

text \<open>
  The closure: \<open>generate_pob\<close> and \<open>execute\<close> come from the block executor, \<open>state_hash\<close> and the
  two state roots are read from the proof of block before it is executed.
\<close>

definition poe_handle ::
  "('c, 'p, 'k) poe_lib \<Rightarrow> (u64 \<Rightarrow> (string, ('h, 't, 'w, 'n) pob) result) \<Rightarrow> (('h, 't, 'w, 'n) pob \<Rightarrow> (string, 'b) result) \<Rightarrow>
   (('h, 't, 'w, 'n) pob \<Rightarrow> sh256) \<Rightarrow> ('h \<Rightarrow> sh256) \<Rightarrow> u64 \<Rightarrow> (string, 'b \<times> 'p) result" where
  "poe_handle P gen_pob exec state_hash header_state_root blk =
     bind_result (gen_pob blk) (\<lambda>pob.
     let state_hash = state_hash pob;
         prev_state_root = pob_prev_state_root pob;
         withdrawal_root = 0;
         expect_state_root = header_state_root (rb_header (pob_block pob)) in
     bind_result (exec pob) (\<lambda>block.
       Inr (block, pl_single_block P state_hash prev_state_root expect_state_root withdrawal_root)))"

text \<open>
  The parallel run. \<open>parallel\<close> is the thread pool's: given a closure, the blocks and the number of
  threads it runs the closure on every block; its result is the runs in the order in which they
  reach the lock of the map. There each puts its outcome under its number; a closure that panics
  has not got so far.
\<close>

type_synonym 'r pool = "(u64 \<Rightarrow> (string, 'r) result) \<Rightarrow> u64 list \<Rightarrow> nat \<Rightarrow> (u64 \<times> (string, 'r) result) list"

definition batch_results :: "(u64 \<times> (string, 'r) result) list \<Rightarrow> (u64 \<rightharpoonup> (string, 'r) result)" where
  "batch_results finished =
     fold (\<lambda>(blk, result) m. if result = Inl Panic then m else m(blk \<mapsto> result)) finished Map.empty"

text \<open>The collected outcomes in ascending order of the block numbers.\<close>

fun collect_poes ::
  "('p \<Rightarrow> sh256) \<Rightarrow> ('b \<Rightarrow> sh256) \<Rightarrow> ('b \<Rightarrow> sh256 \<Rightarrow> string) \<Rightarrow> (string, 'b \<times> 'p) result list \<Rightarrow> 'p list \<Rightarrow>
   (string, 'p list) result" where
  "collect_poes new_root block_root mismatch [] poes = Inr poes"
| "collect_poes new_root block_root mismatch (r # rs) poes =
     bind_result r (\<lambda>(block, poe).
       if new_root poe \<noteq> block_root block then Inl (Fail (mismatch block (new_root poe)))
       else collect_poes new_root block_root mismatch rs (poes @ [poe]))"

definition generate_poe ::
  "('c, 'p, 'k) poe_lib \<Rightarrow> ('b \<times> 'p) pool \<Rightarrow> (u64 \<Rightarrow> (string, 'b \<times> 'p) result) \<Rightarrow> ('b \<Rightarrow> sh256) \<Rightarrow>
   ('b \<Rightarrow> sh256 \<Rightarrow> string) \<Rightarrow> (nat \<Rightarrow> nat \<Rightarrow> string) \<Rightarrow> 'k \<Rightarrow> 'c \<Rightarrow> batch_task \<Rightarrow> (string, 'p) result" where
  "generate_poe P parallel handle block_root mismatch task_failed prover_key chain_id task =
     (let batch_result = batch_results (parallel handle (bt_blocks task) 8);
          finished = card (dom batch_result) in
      if finished \<noteq> length (bt_blocks task)
      then Inl (Fail (task_failed (length (bt_blocks task)) finished))
      else
        let results = map (\<lambda>b. the (batch_result b)) (sorted_list_of_set (dom batch_result)) in
        bind_result (collect_poes (pl_new_state_root P) block_root mismatch results []) (\<lambda>poes.
        bind_result (pl_batch P (bt_data_hash task) poes) (\<lambda>poe.
          Inr (pl_sign P chain_id prover_key poe))))"

definition submit_poe ::
  "('e, 'k) verifier \<Rightarrow> ('p \<Rightarrow> bytes) \<Rightarrow> 'k \<Rightarrow> batch_task \<Rightarrow> 'p \<Rightarrow> (string, unit) result" where
  "submit_poe V encode relay_account task poe =
     (if bt_blocks task = [] then Inl Panic
      else bind_result (commit_batch V relay_account (ucast (last (bt_blocks task))) (encode poe)) (\<lambda>_. Inr ()))"

definition execute_task ::
  "(string, 'c) result \<Rightarrow> ('c \<Rightarrow> batch_task \<Rightarrow> (string, 'p) result) \<Rightarrow> (batch_task \<Rightarrow> 'p \<Rightarrow> (string, unit) result) \<Rightarrow>
   batch_task \<Rightarrow> (string, unit) result" where
  "execute_task chain_id gen submit task =
     bind_result chain_id (\<lambda>chain_id.
     bind_result (gen chain_id task) (\<lambda>poe. submit task poe))"

text \<open>The RPC method \<open>prove\<close>: a range of blocks with a zero data hash.\<close>

datatype rpc_error = ClientError string | ServerError string | UnknownError string

definition prove ::
  "(u64 \<Rightarrow> u64 \<Rightarrow> string) \<Rightarrow> (string, 'c) result \<Rightarrow> ('c \<Rightarrow> batch_task \<Rightarrow> (string, 'p) result) \<Rightarrow> u64 \<Rightarrow> u64 \<Rightarrow>
   (rpc_error, 'p) result" where
  "prove invalid_range chain_id gen start_block end_block =
     (if end_block < start_block then Inl (Fail (ClientError (invalid_range start_block end_block)))
      else bind_result (map_err ServerError chain_id) (\<lambda>chain_id.
        map_err ClientError (gen chain_id \<lparr>bt_data_hash = 0, bt_blocks = u64_range start_block end_block\<rparr>)))"

text \<open>
  The RPC method \<open>test\<close> runs a block on the zk trie. The answer of the state manager is
  unwrapped, the other failures are RPC errors.
\<close>

definition api_test ::
  "(u64 \<Rightarrow> u64 \<Rightarrow> (string, state_merkle_proof_resp) result) \<Rightarrow> (string, u64) result \<Rightarrow> (u64 \<Rightarrow> (string, 'b) result) \<Rightarrow>
   (u64 \<Rightarrow> state_merkle_proof_resp \<Rightarrow> 'b \<Rightarrow> (string, unit) result) \<Rightarrow> u64 \<Rightarrow> (rpc_error, unit) result" where
  "api_test prove_range chain_id get_block gen_v2 block_number =
     bind_result (unwrap (prove_range block_number block_number)) (\<lambda>result.
     bind_result (map_err ServerError chain_id) (\<lambda>chain_id.
     bind_result (map_err UnknownError (get_block block_number)) (\<lambda>block.
       map_err ClientError (gen_v2 chain_id result block))))"

section \<open>Starting the application\<close>

text \<open>
  The context that the RPC methods share, and the libraries that the getters of \<open>App\<close> call: the
  file system, the JSON decoder, the clients of an endpoint, the chain id of a client, the sender
  of transactions and the RPC server. The execution clients are of type \<open>'c\<close>, a server is of
  type \<open>'s\<close>.
\<close>

record ('c, 'e, 'k) build_context =
  bx_cfg :: "'k config"
  bx_prover :: "'k prover"
  bx_verifier :: "('e, 'k) verifier"
  bx_l2 :: 'c
  bx_shomei :: "'c shomei"

record ('c, 'e, 'k, 's) app_env =
  ae_read_file :: "string \<Rightarrow> (string, bytes) result"
  ae_from_slice :: "bytes \<Rightarrow> (string, 'k config) result"
  ae_client :: "string \<Rightarrow> (string, 'c) result"
  ae_chain_id :: "'c \<Rightarrow> (string, u64) result"
  ae_verifier :: "'c \<Rightarrow> u64 \<Rightarrow> nat \<Rightarrow> sh160 \<Rightarrow> ('e, 'k) verifier"
  ae_gen_key :: 'k
  ae_server :: "rpc_server_config \<Rightarrow> ('c, 'e, 'k) build_context \<Rightarrow> (string, 's) result"

text \<open>The getters: what each one builds from the configuration, unwrapping what its library returns.\<close>

definition rollup_client :: "('c, 'e, 'k, 's) app_env \<Rightarrow> 'k config \<Rightarrow> (string, 'c) result" where
  "rollup_client E cfg = unwrap (ae_client E (ro_endpoint (cf_rollup cfg)))"

definition verifier_client :: "('c, 'e, 'k, 's) app_env \<Rightarrow> 'k config \<Rightarrow> (string, 'c) result" where
  "verifier_client E cfg = unwrap (ae_client E (vc_endpoint (cf_verifier cfg)))"

definition l2_client :: "('c, 'e, 'k, 's) app_env \<Rightarrow> 'k config \<Rightarrow> (string, 'c) result" where
  "l2_client E cfg = unwrap (ae_client E (cf_l2 cfg))"

definition app_verifier :: "('c, 'e, 'k, 's) app_env \<Rightarrow> 'k config \<Rightarrow> (string, ('e, 'k) verifier) result" where
  "app_verifier E cfg =
     bind_result (verifier_client E cfg) (\<lambda>el.
     bind_result (unwrap (ae_chain_id E el)) (\<lambda>chain_id.
       Inr (ae_verifier E el chain_id 45 (vc_contract (cf_verifier cfg)))))"

definition app_build_context ::
  "'k config \<Rightarrow> 'k prover \<Rightarrow> ('e, 'k) verifier \<Rightarrow> 'c \<Rightarrow> 'c shomei \<Rightarrow> ('c, 'e, 'k) build_context" where
  "app_build_context cfg prover verifier l2 shomei =
     \<lparr>bx_cfg = cfg, bx_prover = prover, bx_verifier = verifier, bx_l2 = l2, bx_shomei = shomei\<rparr>"

definition app_server ::
  "('c, 'e, 'k, 's) app_env \<Rightarrow> args \<Rightarrow> 'k config \<Rightarrow> ('c, 'e, 'k) build_context \<Rightarrow> (string, 's) result" where
  "app_server E args cfg build_ctx =
     bind_result (rpc_server_config_of (ae_read_file E) args cfg) (\<lambda>server_cfg.
       unwrap (ae_server E server_cfg build_ctx))"

text \<open>
  \<open>run\<close> evaluates the getters in this order and then serves: the monitor of the key and the
  batch subscription are commented out there.
\<close>

definition app_run ::
  "('c, 'e, 'k, 's) app_env \<Rightarrow> (string list \<Rightarrow> opt list) \<Rightarrow> string list \<Rightarrow> (string, 's) result" where
  "app_run E parse words =
     bind_result (from_args parse words) (\<lambda>args.
     bind_result (load_config (ae_read_file E) (ae_from_slice E) args) (\<lambda>cfg.
     bind_result (rollup_client E cfg) (\<lambda>rollup_el.
     bind_result (app_verifier E cfg) (\<lambda>verifier.
     let prover = prover_new (ae_gen_key E) in
     bind_result (l2_client E cfg) (\<lambda>l2.
     bind_result (shomei_new (ae_client E) (cf_shomei cfg)) (\<lambda>shomei.
       app_server E args cfg (app_build_context cfg prover verifier l2 shomei)))))))"

section \<open>Properties of a batch\<close>

definition panicked :: "('e, 'a) result \<Rightarrow> bool" where
  "panicked r \<longleftrightarrow> r = Inl Panic"

text \<open>
  What is relied on: the closure is run once for every entry of the list, in any order, or not at
  all when the pool is shut down before.
\<close>

definition runs_each :: "'r pool \<Rightarrow> bool" where
  "runs_each parallel \<longleftrightarrow> (\<forall>f blocks n. mset (parallel f blocks n) \<subseteq># mset (map (\<lambda>b. (b, f b)) blocks))"

lemma runs_eachD:
  "runs_each parallel \<Longrightarrow> x \<in> set (parallel f blocks n) \<Longrightarrow> fst x \<in> set blocks \<and> snd x = f (fst x)"
  unfolding runs_each_def by (metis (no_types, lifting) fst_conv imageE list.set_map mset_subset_eqD set_mset_mset snd_conv)

text \<open>The map does not depend on the order, since equal numbers have equal outcomes.\<close>

lemma batch_results_lookup:
  assumes "\<forall>(b, r)\<in>set finished. r = handle b"
  shows "batch_results finished b = (if b \<in> fst ` set finished \<and> \<not> panicked (handle b) then Some (handle b) else None)"
proof -
  have "fold (\<lambda>(blk, result) m. if result = Inl Panic then m else m(blk \<mapsto> result)) finished m b =
      (if b \<in> fst ` set finished \<and> \<not> panicked (handle b) then Some (handle b) else m b)" for m
    using assms
  proof (induction finished arbitrary: m)
    case (Cons x finished)
    then show ?case by (cases x) (auto simp: panicked_def)
  qed simp
  then show ?thesis by (simp add: batch_results_def)
qed

lemma batch_finished:
  assumes "runs_each parallel"
    and "card (dom (batch_results (parallel handle blocks n))) = length blocks"
  shows "distinct blocks" "b \<in> set blocks \<Longrightarrow> batch_results (parallel handle blocks n) b = Some (handle b)"
    "dom (batch_results (parallel handle blocks n)) = set blocks"
proof -
  let ?m = "batch_results (parallel handle blocks n)"
  have "\<forall>(b, r)\<in>set (parallel handle blocks n). r = handle b" using runs_eachD [OF assms(1)] by fastforce
  note m = batch_results_lookup [OF this]
  have sub: "dom ?m \<subseteq> set blocks" using runs_eachD [OF assms(1)] by (auto simp: m dom_def split: if_splits)
  then have "length blocks \<le> card (set blocks)" using assms(2) by (metis card_mono List.finite_set)
  then have len: "card (set blocks) = length blocks" using card_length [of blocks] by simp
  then show "distinct blocks" by (rule card_distinct)
  show dom: "dom ?m = set blocks" using sub assms(2) len by (intro card_subset_eq) simp_all
  show "?m b = Some (handle b)" if "b \<in> set blocks"
  proof -
    have "b \<in> dom ?m" using that dom by simp
    then show ?thesis by (auto simp: m split: if_splits)
  qed
qed

lemma collect_poes_ok_iff:
  "collect_poes new_root block_root mismatch rs poes = Inr out \<longleftrightarrow>
     (\<exists>bps. rs = map Inr bps \<and> (\<forall>(b, p)\<in>set bps. new_root p = block_root b) \<and> out = poes @ map snd bps)"
proof (induction rs arbitrary: poes)
  case (Cons r rs)
  show ?case
  proof
    assume "collect_poes new_root block_root mismatch (r # rs) poes = Inr out"
    then obtain b p where bp: "r = Inr (b, p)" "new_root p = block_root b"
      "collect_poes new_root block_root mismatch rs (poes @ [p]) = Inr out"
      by (cases r) (auto split: if_splits)
    then obtain bps where "rs = map Inr bps" "\<forall>(b, p)\<in>set bps. new_root p = block_root b"
      "out = (poes @ [p]) @ map snd bps" using Cons by blast
    then show "\<exists>bps. r # rs = map Inr bps \<and> (\<forall>(b, p)\<in>set bps. new_root p = block_root b) \<and> out = poes @ map snd bps"
      using bp by (intro exI [of _ "(b, p) # bps"]) simp
  next
    assume "\<exists>bps. r # rs = map Inr bps \<and> (\<forall>(b, p)\<in>set bps. new_root p = block_root b) \<and> out = poes @ map snd bps"
    then obtain bps where bps: "r # rs = map Inr bps" "\<forall>(b, p)\<in>set bps. new_root p = block_root b"
      "out = poes @ map snd bps" by (elim exE conjE) (rule that)
    then obtain b p bps' where c: "bps = (b, p) # bps'" by (cases bps) auto
    then have "collect_poes new_root block_root mismatch rs (poes @ [p]) = Inr out"
      using bps by (subst Cons) (auto intro!: exI [of _ bps'])
    then show "collect_poes new_root block_root mismatch (r # rs) poes = Inr out" using bps c by simp
  qed
qed auto

text \<open>
  A proof of a batch is signed only when no block is listed twice, every block was executed, and
  every block's state root is the one the proof claims; the proofs are batched in ascending
  order of the block numbers.
\<close>

lemma generate_poe_ok:
  assumes "runs_each parallel" "generate_poe P parallel handle block_root mismatch task_failed key chain task = Inr poe"
  shows "distinct (bt_blocks task) \<and>
    (\<exists>bps batch. map handle (sort (bt_blocks task)) = map Inr bps \<and>
      (\<forall>(b, p)\<in>set bps. pl_new_state_root P p = block_root b) \<and>
      pl_batch P (bt_data_hash task) (map snd bps) = Inr batch \<and> poe = pl_sign P chain key batch)"
proof -
  let ?m = "batch_results (parallel handle (bt_blocks task) 8)"
  have fin: "card (dom ?m) = length (bt_blocks task)"
    using assms(2) by (auto simp: generate_poe_def Let_def split: if_splits)
  note all_done = batch_finished [OF assms(1) fin]
  have sorted: "sorted_list_of_set (dom ?m) = sort (bt_blocks task)"
    using all_done(1) by (simp add: all_done(3) sorted_list_of_set_sort_remdups distinct_remdups_id)
  have map: "map (\<lambda>b. the (?m b)) (sort (bt_blocks task)) = map handle (sort (bt_blocks task))"
    using all_done(2) by simp
  obtain poes batch where p: "collect_poes (pl_new_state_root P) block_root mismatch (map handle (sort (bt_blocks task))) [] = Inr poes"
    "pl_batch P (bt_data_hash task) poes = Inr batch" "poe = pl_sign P chain key batch"
    using assms(2) fin by (auto simp: generate_poe_def Let_def sorted map bind_result_ok_iff)
  then show ?thesis using all_done(1) by (auto simp: collect_poes_ok_iff)
qed

lemma prove_invalid_range:
  "end_block < start_block \<Longrightarrow> prove msg chain gen start_block end_block = Inl (Fail (ClientError (msg start_block end_block)))"
  by (simp add: prove_def)

section \<open>What the application guarantees\<close>

text \<open>C39: a signed proof of a batch, for every order in which the threads finish and however many blocks a shutdown leaves undone. No block is listed twice, every block was executed without error, the
  state root that each proof claims is that of the executed block, and what is signed, for this
  chain and key, is the batch of the proofs in ascending order of the blocks under the task's
  data hash.\<close>

theorem signed_batch_is_checked:
  assumes "runs_each parallel" "generate_poe P parallel handle block_root mismatch task_failed key chain task = Inr poe"
  shows "distinct (bt_blocks task) \<and>
    (\<exists>bps batch. map handle (sort (bt_blocks task)) = map Inr bps \<and>
      list_all (\<lambda>(b, p). pl_new_state_root P p = block_root b) bps \<and>
      pl_batch P (bt_data_hash task) (map snd bps) = Inr batch \<and> poe = pl_sign P chain key batch)"
  using generate_poe_ok [OF assms] by (simp add: list_all_iff)

definition list_poe :: "(u64, sh256 list, sh256) poe_lib" where
  "list_poe = \<lparr>pl_single_block = (\<lambda>h prev new w. [new]), pl_new_state_root = hd, pl_batch = (\<lambda>h ps. Inr (h # concat ps)),
     pl_sign = (\<lambda>chain key p. ucast chain # key # p)\<rparr>"

text \<open>The pool of the witness finishes the blocks in the reverse order.\<close>

theorem signed_batch_is_checked_witness:
  "generate_poe list_poe (\<lambda>f blocks n. rev (map (\<lambda>b. (b, f b)) blocks)) (\<lambda>blk. Inr (ucast blk * 10, [ucast blk * 10])) (\<lambda>b. b)
     (\<lambda>_ _. []) (\<lambda>_ _. []) 3 59144 \<lparr>bt_data_hash = 4, bt_blocks = [8, 7]\<rparr> = Inr [59144, 3, 4, 70, 80] \<and> distinct [8 :: u64, 7]"
proof -
  let ?h = "\<lambda>blk :: u64. (Inr (ucast blk * 10, [ucast blk * 10]) :: (string, sh256 \<times> sh256 list) result)"
  let ?pool = "\<lambda>f blocks (n :: nat). rev (map (\<lambda>b :: u64. (b, f b :: (string, sh256 \<times> sh256 list) result)) blocks)"
  have each: "runs_each ?pool" by (simp add: runs_each_def)
  have dom: "dom (batch_results (?pool ?h [8, 7] 8)) = {7, 8}" by (auto simp: batch_results_def)
  have "sorted_list_of_set {7, 8 :: u64} = [7, 8]" by (simp add: insort_key.simps)
  then have "generate_poe list_poe ?pool ?h (\<lambda>b. b) (\<lambda>_ _. []) (\<lambda>_ _. []) 3 59144 \<lparr>bt_data_hash = 4, bt_blocks = [8, 7]\<rparr> = Inr [59144, 3, 4, 70, 80]"
    using dom by (simp add: generate_poe_def list_poe_def batch_results_def)
  from this signed_batch_is_checked [OF each this] show ?thesis by simp
qed

text \<open>C40: starting. Every failure while the application starts is a panic, no error is reported; an application
  that serves has read its arguments and its configuration, listens on the port that the arguments
  give on all addresses, and its RPC methods sign with the key generated at the start, which has
  not been attested.\<close>

theorem startup_panics_or_serves:
  "case app_run E parse words of
     Inl e \<Rightarrow> e = Panic
   | Inr server \<Rightarrow> \<exists>args cfg server_cfg ctx. from_args parse words = Inr args \<and>
       load_config (ae_read_file E) (ae_from_slice E) args = Inr cfg \<and> ae_server E server_cfg ctx = Inr server \<and>
       rs_listen_addr server_cfg = ''0.0.0.0:'' @ show_nat (ar_port args) \<and> bx_cfg ctx = cfg \<and>
       bx_prover ctx = \<lparr>pr_prvkey = ae_gen_key E, pr_attested = False\<rparr>"
proof (cases "app_run E parse words")
  case (Inl e)
  have args: "from_args parse words = Inl e \<Longrightarrow> e = Panic" for e
    by (auto simp: from_args_def args_loop_spec split: list.splits if_splits)
  have cfg: "load_config (ae_read_file E) (ae_from_slice E) a = Inl e \<Longrightarrow> e = Panic" for a e
    by (auto simp: load_config_def bind_result_def split: sum.splits dest: unwrap_errorD)
  have "shomei_new (ae_client E) c = Inl e \<Longrightarrow> e = Panic" for c and e :: "string failure"
    by (auto simp: shomei_new_def bind_result_def split: sum.splits dest: unwrap_errorD)
  moreover have "rpc_server_config_of (ae_read_file E) a c = Inl e \<Longrightarrow> e = Panic" for a and e :: "string failure" and c
    by (auto simp: rpc_server_config_of_def bind_result_def Let_def split: sum.splits if_splits dest: unwrap_errorD)
  ultimately have "e = Panic"
    using Inl args cfg unfolding app_run_def rollup_client_def verifier_client_def l2_client_def app_verifier_def app_server_def Let_def bind_result_def
    by (auto split: sum.splits dest: unwrap_errorD)
  then show ?thesis using Inl by simp
next
  case (Inr server)
  then obtain args cfg server_cfg ctx where r: "from_args parse words = Inr args"
    "load_config (ae_read_file E) (ae_from_slice E) args = Inr cfg"
    "rpc_server_config_of (ae_read_file E) args cfg = Inr server_cfg" "ae_server E server_cfg ctx = Inr server"
    "bx_cfg ctx = cfg" "bx_prover ctx = prover_new (ae_gen_key E)"
    by (auto simp: app_run_def app_server_def app_build_context_def bind_result_ok_iff Let_def)
  then have "rs_listen_addr server_cfg = ''0.0.0.0:'' @ show_nat (ar_port args)"
    by (auto simp: rpc_server_config_of_def bind_result_ok_iff Let_def)
  with r Inr show ?thesis by (auto simp: prover_new_def)
qed

end
