(* ===== verification/Rpc_Outcome.thy ===== *)
theory Rpc_Outcome
  imports Block_Run Prover_App
begin

text \<open>
  The two RPC methods end to end. \<open>test\<close> runs a block on the zk trie: its outcome is composed of
  the fetches, the transactions over the map of accounts and the walk of the flush. \<open>prove\<close> signs
  a range of blocks: what is signed is composed of the proofs of block, their executions and the
  comparison of the roots.
\<close>

section \<open>The method test\<close>

text \<open>What \<open>generate_poe_v2\<close> fetches and builds before it executes the block.\<close>

definition block_fetched ::
  "hasher \<Rightarrow> keccak \<Rightarrow> (zk_error \<Rightarrow> string) \<Rightarrow> (trace list \<Rightarrow> u64 \<Rightarrow> (string, merkle_account_proof list) result) \<Rightarrow>
   (sh160 list \<Rightarrow> u64 \<Rightarrow> (string, bytes list) result) \<Rightarrow> ('h \<Rightarrow> su256) \<Rightarrow> state_merkle_proof_resp \<Rightarrow> ('h, 't, 'w) raw_block \<Rightarrow>
   trace list \<Rightarrow> mem_store \<Rightarrow> bool" where
  "block_fetched H K debug fetch_proofs get_codes header_number resp block traces db \<longleftrightarrow>
     (\<exists>number proofs addrs codes. index (sp_zk_state_merkle_proof resp) 0 = (Inr traces :: (string, trace list) result) \<and>
        as_u64 (header_number (rb_header block)) = (Inr number :: (string, u64) result) \<and>
        fetch_proofs traces (number - 1) = Inr proofs \<and> code_addresses H K traces [] = Inr addrs \<and>
        get_codes addrs (number - 1) = Inr codes \<and> poe_v2_store H K debug traces codes proofs = Inr db)"

lemma generate_poe_v2_fetched:
  assumes "block_fetched H K debug fetch_proofs get_codes header_number resp block traces db"
  shows "generate_poe_v2 H K debug fetch_proofs get_codes header_number exec chain_id resp block =
    exec (linea_new (ucast chain_id)) db traces block"
proof -
  obtain number proofs addrs codes where f: "index (sp_zk_state_merkle_proof resp) 0 = (Inr traces :: (string, trace list) result)"
    "as_u64 (header_number (rb_header block)) = (Inr number :: (string, u64) result)"
    "fetch_proofs traces (number - 1) = Inr proofs" "code_addresses H K traces [] = Inr addrs"
    "get_codes addrs (number - 1) = Inr codes" "poe_v2_store H K debug traces codes proofs = Inr db"
    using assms unfolding block_fetched_def by blast
  then show ?thesis by (simp add: generate_poe_v2_def Let_def)
qed

lemma generate_poe_v2_unfetched:
  assumes "generate_poe_v2 H K debug fetch_proofs get_codes header_number exec chain_id resp block = Inr ()"
  shows "\<exists>traces db. block_fetched H K debug fetch_proofs get_codes header_number resp block traces db"
  using assms by (auto simp: generate_poe_v2_def block_fetched_def bind_result_ok_iff Let_def)

text \<open>The accounts at the first trace, as far as the traces tell them.\<close>

definition told_accounts :: "mem_store zk_env \<Rightarrow> hasher \<Rightarrow> trace list \<Rightarrow> (sh160 \<Rightarrow> (string, zk_state_account) result) \<Rightarrow> bool" where
  "told_accounts E H traces accounts \<longleftrightarrow> (\<forall>a k tr. trie_hash H (sh160_bytes a) = Inr k \<and>
     trace_at H traces (trace_top H (hd traces)) k = Some tr \<longrightarrow> accounts a = decode_value (env_account E) (prior_value tr))"

text \<open>C1: the outcome of the RPC method \<open>test\<close>, composed. When the state manager and the execution client answer,
  there is a map of accounts that has the decoded value of the last trace for every account traced
  at the root of the first trace, such that the method fails as the transactions, which may be any clients
  of the state database, fail over this map. When they all commit and the traces tell the writes of the changed
  accounts truthfully, the method succeeds exactly when the walk along the traces with the
  encoded changed accounts, in descending order of their addresses, does not end early, and panics
  otherwise. The exception is that two different nodes of those involved have the same hash.\<close>

theorem rpc_test_outcome:
  assumes "trie_hasher H" and "\<forall>tr\<in>set traces. wf_trace tr" "\<forall>tr\<in>set traces. \<exists>k. trie_hash H (trace_key tr) = Inr k"
    and "prove_range n n = Inr resp" "chain = Inr chain_id" "get_block n = Inr block"
    and "block_fetched H K debug fetch_proofs get_codes header_number resp block traces db"
    and "over_store H E" "over_state E show_err start tx B"
    and "start (linea_new (ucast chain_id)) Map.empty (rb_header block) = Inr x"
    and "preprocess_txs inner (linea_new (ucast chain_id)) (rb_transactions block) = Inr txs"
  shows "\<exists>accounts. told_accounts E H traces accounts \<and>
    (let outcome = api_test prove_range chain get_block
           (generate_poe_v2 H K debug fetch_proofs get_codes header_number (execute_v2 H B inner)) n in
     case commit_all (client_commit (spec_call E db) tx) txs (x, \<lparr>ss_accounts = accounts, ss_dirty = {}\<rparr>) of
       (Inl e, _) \<Rightarrow> outcome = map_err ClientError (Inl e)
     | (Inr _, (y, S)) \<Rightarrow>
         \<forall>us. spec_updates E S = Inr us \<and> walk_told H traces (ms_index db) (trace_top H (hd traces)) (sort_updates us) \<longrightarrow>
           nodes_collide (flush_nodes H (ze_keccak E) traces db (trace_top H (hd traces)) us) \<or>
           outcome = (if flush_root H traces db (trace_top H (hd traces)) (sort_updates us) = None then Inl Panic else Inr ()))"
proof -
  obtain codes proofs where db: "poe_v2_store H K debug traces codes proofs = Inr db"
    using assms(7) unfolding block_fetched_def by blast
  define s where "s = \<lparr>zs_db = db, zs_acc_cache = (trie_cache_new (zk_new (trace_top H (hd traces))) :: acc_cache), zs_storages = Map.empty\<rparr>"
  have s: "new_from_trace H db (hd traces) = (Inr s :: (string, mem_store zk_trie_state) result)"
    by (simp add: s_def new_from_trace_def trie_hasher.node_top_node_ok [OF assms(1)] trace_top_def split: prod.split)
  have tells: "tells H traces db" by (rule poe_v2_store_tells(1) [OF assms(1) db assms(2,3)])
  have told: "told_accounts E H traces (account E s)"
    unfolding told_accounts_def using account_told [OF tells assms(8)] by (simp add: s_def trie_cache_new_def)
  have "api_test prove_range chain get_block (generate_poe_v2 H K debug fetch_proofs get_codes header_number (execute_v2 H B inner)) n =
      map_err ClientError (execute_v2 H B inner (linea_new (ucast chain_id)) db traces block)"
    using assms(4-6) by (simp add: api_test_def generate_poe_v2_fetched [OF assms(7)])
  with told block_execution_outcome [OF assms(1) db assms(2,3,8,9) s assms(10,11)] show ?thesis
    unfolding Let_def by (intro exI [of _ "account E s"] conjI) (auto split: prod.split sum.split)
qed

text \<open>The witness runs a block of two payments, and a block whose second payment is an error.\<close>

definition paying_resp :: state_merkle_proof_resp where
  "paying_resp = toy_resp\<lparr>sp_zk_state_merkle_proof := [[toy_flush_trace]]\<rparr>"

definition paying_rpc :: "nat list \<Rightarrow> (rpc_error, unit) result" where
  "paying_rpc vs = api_test (\<lambda>_ _. Inr paying_resp) (Inr 59144) (\<lambda>_. Inr (paying_block vs))
     (generate_poe_v2 toy_hash (\<lambda>_. 7) (\<lambda>_. []) (\<lambda>_ _. Inr []) (\<lambda>_ _. Inr []) (\<lambda>_. 6)
       (execute_v2 toy_hash paying_builder (\<lambda>tx. Some (tx_rest tx)))) 6"

theorem rpc_test_outcome_witness:
  "\<exists>db. poe_v2_store toy_hash (\<lambda>_. 7) (\<lambda>_. []) [toy_flush_trace] [] [] = Inr db \<and>
     (nodes_collide (flush_nodes toy_hash (\<lambda>_. 7) [toy_flush_trace] db 41355 [(sh160_bytes 9, toy_account_bytes)]) \<or>
      paying_rpc [10, 5] = Inr ()) \<and> paying_rpc [10, 0] = Inl Panic"
proof -
  obtain db where db: "poe_v2_store toy_hash (\<lambda>_. 7) (\<lambda>_. []) [toy_flush_trace] [] [] = Inr db"
    "mem_view toy_hash db 41355 \<noteq> None" "level_map_get (ms_index db) 81067353 (u64_max_value, 3) = None"
    "\<forall>tr\<in>set [toy_flush_trace]. wf_trace tr" "\<forall>tr\<in>set [toy_flush_trace]. \<exists>k. trie_hash toy_hash (trace_key tr) = Inr k"
    by (rule toy_flush_block)
  have top: "trace_top toy_hash (hd [toy_flush_trace]) = 41355" by (simp add: trace_top_def toy_flush_trace_def toy_write_def)
  have at: "trace_at toy_hash [toy_flush_trace] 41355 9 = Some toy_flush_trace" "prior_value toy_flush_trace = toy_poorer_bytes"
    by (simp_all add: trace_at_def trace_top_def trace_hkey_def toy_flush_trace_def toy_write_def toy_flush_facts)
  have told: "accounts 9 = Inr (toy_account\<lparr>za_balance := 25\<rparr>)" if "told_accounts toy_env toy_hash [toy_flush_trace] accounts" for accounts
    using that toy_block(4) at unfolding told_accounts_def top toy_poorer_decoded [symmetric] by metis
  have fetched: "block_fetched toy_hash (\<lambda>_. 7) (\<lambda>_. []) (\<lambda>_ _. Inr []) (\<lambda>_ _. Inr []) (\<lambda>_. 6) paying_resp (paying_block vs)
      [toy_flush_trace] db" for vs
    using db(1) by (simp add: block_fetched_def paying_resp_def as_u64_def toy_flush_trace_def)
  have sort: "sort_updates [(sh160_bytes 9, toy_account_bytes)] = [(sh160_bytes 9, toy_account_bytes)]" by (simp add: sort_updates_def)
  note walk = toy_flush_walk(1,3) [OF db(3)]
  have txs: "preprocess_txs (\<lambda>tx. Some (tx_rest tx)) (linea_new (ucast (59144 :: u64))) (rb_transactions (paying_block vs)) =
      (Inr vs :: (string, nat list) result)" for vs
    using paying_block_txs [of vs] by simp
  have law: "\<exists>accounts. told_accounts toy_env toy_hash [toy_flush_trace] accounts \<and>
     (case commit_all (client_commit (spec_call toy_env db) paying_tx) vs (0, \<lparr>ss_accounts = accounts, ss_dirty = {}\<rparr>) of
       (Inl e, _) \<Rightarrow> paying_rpc vs = map_err ClientError (Inl e)
     | (Inr _, (y, S)) \<Rightarrow>
         \<forall>us. spec_updates toy_env S = Inr us \<and> walk_told toy_hash [toy_flush_trace] (ms_index db) 41355 (sort_updates us) \<longrightarrow>
           nodes_collide (flush_nodes toy_hash (ze_keccak toy_env) [toy_flush_trace] db 41355 us) \<or>
           paying_rpc vs = (if flush_root toy_hash [toy_flush_trace] db 41355 (sort_updates us) = None then Inl Panic else Inr ()))" for vs
    using rpc_test_outcome [where prove_range = "\<lambda>_ _. Inr paying_resp" and n = 6 and chain = "Inr 59144"
        and get_block = "\<lambda>_. Inr (paying_block vs)" and x = 0,
        OF toy_trie_hasher db(4,5) refl refl refl fetched toy_block(3) paying_over_state refl txs, unfolded Let_def top]
    unfolding paying_rpc_def .
  have keccak: "ze_keccak toy_env = (\<lambda>_. 7)" by (simp add: toy_env_def)
  obtain a where a: "told_accounts toy_env toy_hash [toy_flush_trace] a" by (rule law [THEN exE]) blast
  have "nodes_collide (flush_nodes toy_hash (\<lambda>_. 7) [toy_flush_trace] db 41355 [(sh160_bytes 9, toy_account_bytes)]) \<or> paying_rpc [10, 5] = Inr ()"
    using law [of "[10, 5]"] told paying_runs(1,3) walk db(2)
    by (auto simp: sort flush_root_def keccak simp del: walk_root.simps walk_told.simps commit_all.simps)
  moreover have "paying_rpc [10, 0] = Inl Panic"
    using law [of "[10, 0]"] told paying_runs(2) [of _ db] by (force simp del: commit_all.simps)
  ultimately show ?thesis using db(1) by blast
qed


section \<open>The method prove\<close>

lemma sorted_u64_range: "sorted (u64_range s e)"
proof -
  have "unat (of_nat n :: u64) = n" if "n \<le> unat e" for n
    using that unsigned_less [of e, where ?'a = nat] by (intro of_nat_inverse [OF refl]) (rule order_le_less_trans)
  then have "sorted_wrt (\<lambda>x y. (of_nat x :: u64) \<le> of_nat y) [unat s..<Suc (unat e)]"
    by (intro sorted_wrt_mono_rel [OF _ sorted_upt]) (simp add: word_le_nat_alt less_Suc_eq_le del: upt_Suc)
  then show ?thesis by (simp add: u64_range_def sorted_map del: upt_Suc)
qed

lemma poe_handle_ok:
  assumes "poe_handle P gen_pob exec state_hash header_root n = Inr (b, p)"
  obtains pob where "gen_pob n = Inr pob" "exec pob = Inr b"
    "p = pl_single_block P (state_hash pob) (pob_prev_state_root pob) (header_root (rb_header (pob_block pob))) 0"
  using assms by (auto simp: poe_handle_def Let_def bind_result_ok_iff)

text \<open>What \<open>prove\<close> claims of a block: it has a proof of block whose execution ends at the state root of its header.\<close>

definition block_proved ::
  "(u64 \<Rightarrow> (string, ('h, 't, 'w, 'n) pob) result) \<Rightarrow> (('h, 't, 'w, 'n) pob \<Rightarrow> (string, 'b) result) \<Rightarrow> ('h \<Rightarrow> sh256) \<Rightarrow>
   ('b \<Rightarrow> sh256) \<Rightarrow> u64 \<Rightarrow> ('h, 't, 'w, 'n) pob \<Rightarrow> bool" where
  "block_proved gen_pob exec header_root block_root n pob \<longleftrightarrow> gen_pob n = Inr pob \<and>
     (\<exists>block. exec pob = Inr block \<and> block_root block = header_root (rb_header (pob_block pob)))"

lemma handled_blocks:
  assumes "\<forall>h p e w. pl_new_state_root P (pl_single_block P h p e w) = e"
    and "map (poe_handle P gen_pob exec state_hash header_root) ns = map Inr bps"
    and "list_all (\<lambda>(b, p). pl_new_state_root P p = block_root b) bps"
  shows "\<exists>pobs. list_all2 (block_proved gen_pob exec header_root block_root) ns pobs \<and>
    map snd bps = map (\<lambda>pob. pl_single_block P (state_hash pob) (pob_prev_state_root pob) (header_root (rb_header (pob_block pob))) 0) pobs"
  using assms(2,3)
proof (induction ns arbitrary: bps)
  case (Cons n ns)
  then obtain b p bps' where bps: "bps = (b, p) # bps'" "poe_handle P gen_pob exec state_hash header_root n = Inr (b, p)"
    by (cases bps) auto
  obtain pob where pob: "gen_pob n = Inr pob" "exec pob = Inr b"
    "p = pl_single_block P (state_hash pob) (pob_prev_state_root pob) (header_root (rb_header (pob_block pob))) 0"
    using bps(2) by (rule poe_handle_ok)
  obtain pobs where "list_all2 (block_proved gen_pob exec header_root block_root) ns pobs"
    "map snd bps' = map (\<lambda>pob. pl_single_block P (state_hash pob) (pob_prev_state_root pob) (header_root (rb_header (pob_block pob))) 0) pobs"
    using Cons bps(1) by auto
  then show ?case
    using pob Cons.prems(2) bps(1) assms(1) by (intro exI [of _ "pob # pobs"]) (simp add: block_proved_def [of _ _ _ _ n])
qed simp

text \<open>C2: a proof that the RPC method \<open>prove\<close> returns. The range is not empty, the chain id was
  answered, every block of the range has a proof of block whose local execution ended at the state root that
  the block's header states, and what is signed with the prover's key is the batch of these blocks' proofs
  in ascending order, each naming the root before the block and the root of the header, for
  every order in which the threads finish.\<close>

theorem rpc_prove_outcome:
  assumes "runs_each parallel" and "\<forall>h p e w. pl_new_state_root P (pl_single_block P h p e w) = e"
    and "prove invalid_range chain (generate_poe P parallel (poe_handle P gen_pob exec state_hash header_root) block_root mismatch
      task_failed key) first_block last_block = Inr poe"
  shows "first_block \<le> last_block \<and> (\<exists>chain_id pobs batch. chain = Inr chain_id \<and>
    list_all2 (block_proved gen_pob exec header_root block_root) (u64_range first_block last_block) pobs \<and>
    pl_batch P 0 (map (\<lambda>pob. pl_single_block P (state_hash pob) (pob_prev_state_root pob) (header_root (rb_header (pob_block pob))) 0) pobs) =
      Inr batch \<and> poe = pl_sign P chain_id key batch)"
proof -
  let ?handle = "poe_handle P gen_pob exec state_hash header_root"
  let ?task = "\<lparr>bt_data_hash = 0, bt_blocks = u64_range first_block last_block\<rparr>"
  obtain chain_id where c: "first_block \<le> last_block" "chain = Inr chain_id"
    "generate_poe P parallel ?handle block_root mismatch task_failed key chain_id ?task = Inr poe"
    using assms(3) by (auto simp: prove_def bind_result_ok_iff not_less split: if_splits)
  from generate_poe_ok [OF assms(1) c(3)] obtain bps batch where b:
    "map ?handle (u64_range first_block last_block) = map Inr bps" "list_all (\<lambda>(b, p). pl_new_state_root P p = block_root b) bps"
    "pl_batch P 0 (map snd bps) = Inr batch" "poe = pl_sign P chain_id key batch"
    by (auto simp: sort_key_id_if_sorted sorted_u64_range list_all_iff)
  obtain pobs where pobs: "list_all2 (block_proved gen_pob exec header_root block_root) (u64_range first_block last_block) pobs"
    "map snd bps = map (\<lambda>pob. pl_single_block P (state_hash pob) (pob_prev_state_root pob) (header_root (rb_header (pob_block pob))) 0) pobs"
    using handled_blocks [OF assms(2) b(1,2)] by (elim exE conjE)
  show ?thesis
    by (intro conjI exI) (rule c(1), rule c(2), rule pobs(1), rule b(3) [unfolded pobs(2)], rule b(4))
qed

text \<open>
  In the witness the header of a block is its state root, the block of number \<open>n\<close> ends at root
  \<open>10 * n\<close>, and the pool finishes the blocks in the reverse order.
\<close>

definition toy_pob :: "u64 \<Rightarrow> (sh256, unit, unit, unit) pob" where
  "toy_pob n = \<lparr>pob_block = \<lparr>rb_header = ucast n * 10, rb_transactions = [], rb_withdrawals = None\<rparr>, pob_chain_id = 59144,
     pob_prev_state_root = ucast n * 10 - 10, pob_block_hashes = Map.empty, pob_mpt_nodes = [], pob_codes = []\<rparr>"

definition toy_exec :: "(sh256, unit, unit, unit) pob \<Rightarrow> (string, sh256) result" where
  "toy_exec pob = Inr (pob_prev_state_root pob + 10)"

definition reverse_pool :: "'r pool" where
  "reverse_pool f blocks n = rev (map (\<lambda>b. (b, f b)) blocks)"

definition root_poe :: "(u64, sh256 list, sh256) poe_lib" where
  "root_poe = \<lparr>pl_single_block = (\<lambda>h prev new w. [new, prev]), pl_new_state_root = hd, pl_batch = (\<lambda>h ps. Inr (h # concat ps)),
     pl_sign = (\<lambda>chain key p. ucast chain # key # p)\<rparr>"

theorem rpc_prove_outcome_witness:
  "prove (\<lambda>_ _. []) (Inr 59144) (generate_poe root_poe reverse_pool (poe_handle root_poe (\<lambda>n. Inr (toy_pob n)) toy_exec (\<lambda>_. 0) id) id
      (\<lambda>_ _. []) (\<lambda>_ _. []) 3) 7 8 = Inr [59144, 3, 0, 70, 60, 80, 70] \<and>
   list_all2 (block_proved (\<lambda>n. Inr (toy_pob n)) toy_exec id id) (u64_range 7 8) [toy_pob 7, toy_pob 8]"
proof -
  let ?handle = "poe_handle root_poe (\<lambda>n. Inr (toy_pob n)) toy_exec (\<lambda>_. 0) id"
  have each: "runs_each (reverse_pool :: (sh256 \<times> sh256 list) pool)" by (simp add: runs_each_def reverse_pool_def)
  have range: "u64_range 7 8 = [7, 8]" by (simp add: u64_range_def upt_rec)
  have handle: "?handle n = Inr (ucast n * 10, [ucast n * 10, ucast n * 10 - 10])" for n
    by (simp add: poe_handle_def toy_pob_def toy_exec_def root_poe_def)
  have "sorted_list_of_set {7, 8 :: u64} = [7, 8]" by (simp add: insort_key.simps)
  moreover have "dom (batch_results (reverse_pool ?handle [7, 8] 8)) = {7, 8}"
    by (auto simp: batch_results_def reverse_pool_def handle)
  ultimately have run: "prove (\<lambda>_ _. []) (Inr 59144) (generate_poe root_poe reverse_pool ?handle id (\<lambda>_ _. []) (\<lambda>_ _. []) 3) 7 8 =
      Inr [59144, 3, 0, 70, 60, 80, 70]"
    by (simp add: prove_def range generate_poe_def handle batch_results_def reverse_pool_def) (simp add: root_poe_def)
  have "\<forall>h p e w. pl_new_state_root root_poe (pl_single_block root_poe h p e w) = e" by (simp add: root_poe_def)
  from rpc_prove_outcome [OF each this run] obtain pobs where
    "list_all2 (block_proved (\<lambda>n. Inr (toy_pob n)) toy_exec id id) (u64_range 7 8) pobs" by blast
  moreover from this have "pobs = [toy_pob 7, toy_pob 8]"
    by (auto simp: range list_all2_Cons1 block_proved_def)
  ultimately show ?thesis using run by simp
qed

end
