(* ===== verification/Node_Views.thy ===== *)
theory Node_Views
  imports Mem_Store
begin

text \<open>
  The parts of \<open>node.rs\<close> and \<open>storage.rs\<close> around the nodes: their \<open>Display\<close>, the conversions into
  a child and into a node, the RLP decoder of a leaf opening, and the wrapper \<open>RawDB\<close> that
  borrows or owns a store. The \<open>Debug\<close> format of hashes and byte strings is the library's.
\<close>

section \<open>Display\<close>

definition node_value_display ::
  "(sh256 \<Rightarrow> string) \<Rightarrow> (bytes \<Rightarrow> string) \<Rightarrow> node_value \<Rightarrow> ('e, string) result" where
  "node_value_display debug_hash debug_bytes v =
     (case v of
        Branch n \<Rightarrow> Inr (''Branch{left: '' @ debug_hash (br_left n) @ '', right: '' @ debug_hash (br_right n) @ ''}'')
      | Leaf n \<Rightarrow> Inr (''Leaf{path: '' @ debug_bytes (lf_path n) @ '', value: '' @ debug_bytes (lf_value n) @ ''}'')
      | EmptyLeaf \<Rightarrow> Inr ''EmptyLeaf''
      | NextFree n \<Rightarrow> bind_result (parse_node_index (lf_value n)) (\<lambda>i.
          Inr (''NextFree{value: '' @ show_nat (unat i) @ ''}'')))"

definition node_display :: "(sh256 \<Rightarrow> string) \<Rightarrow> (bytes \<Rightarrow> string) \<Rightarrow> node \<Rightarrow> ('e, string) result" where
  "node_display debug_hash debug_bytes n =
     bind_result (node_value_display debug_hash debug_bytes (nd_raw n)) (\<lambda>raw.
       Inr (''Node{raw: '' @ raw @ '', hash: '' @ debug_hash (nd_hash n) @ ''}''))"

text \<open>A counter is displayed with its index; a counter of one to seven bytes cannot be displayed.\<close>

lemma display_counter:
  "node_value_display dh db (NextFree \<lparr>lf_path = p, lf_value = word_bytes (format_node_index i)\<rparr>) =
     Inr (''NextFree{value: '' @ show_nat (unat i) @ ''}'')"
  by (simp add: node_value_display_def parse_format_node_index)

lemma display_panics_iff:
  "node_display dh db n = Inl e \<longleftrightarrow>
     e = Panic \<and> (\<exists>l. nd_raw n = NextFree l \<and> lf_value l \<noteq> [] \<and> length (lf_value l) < 8)"
  by (cases "nd_raw n") (auto simp: node_display_def node_value_display_def parse_node_index_def bind_result_def split: if_splits)

section \<open>Conversions\<close>

text \<open>\<open>From<SH256>\<close>, \<open>From<Arc<Node>>\<close> and their references, and \<open>From<BranchNode> for Node\<close>.\<close>

definition hash_or_node_of_hash :: "sh256 \<Rightarrow> hash_or_node" where
  "hash_or_node_of_hash h = HnHash h"

definition hash_or_node_of_node :: "node \<Rightarrow> hash_or_node" where
  "hash_or_node_of_node n = HnNode n"

definition node_of_branch :: "hasher \<Rightarrow> branch_node \<Rightarrow> ('e, node) result" where
  "node_of_branch H n = node_new H (Branch n)"

lemma node_of_branch_is: "node_of_branch H \<lparr>br_left = l, br_right = r\<rparr> = node_branch H l r"
  by (simp add: node_of_branch_def node_branch_def)

definition leaf_opening_decode :: "'r rlp_view \<Rightarrow> 'r \<Rightarrow> (decoder_error, leaf_opening) result" where
  "leaf_opening_decode R rlp = bind_result (rlp_bytes R rlp) leaf_opening_parse"

lemma leaf_opening_decode_bytes:
  "rlp_bytes R rlp = Inr (leaf_opening_to_bytes l) \<Longrightarrow>
   leaf_opening_decode R rlp = Inr (l\<lparr>lo_next_leaf := lo_prev_leaf l\<rparr>)"
  by (simp add: leaf_opening_decode_def leaf_opening_parse_to_bytes)

section \<open>A store that is borrowed or owned\<close>

datatype 'd raw_db = Borrowed 'd | Owned 'd

definition raw_db_from_value :: "'d \<Rightarrow> 'd raw_db" where
  "raw_db_from_value db = Owned db"

definition raw_db_from_ref :: "'d \<Rightarrow> 'd raw_db" where
  "raw_db_from_ref db = Borrowed db"

fun raw_db_deref :: "'d raw_db \<Rightarrow> 'd" where
  "raw_db_deref (Borrowed n) = n"
| "raw_db_deref (Owned n) = n"

text \<open>\<open>deref_mut\<close> gives the target to be changed; what is written is there afterwards.\<close>

fun raw_db_deref_mut :: "'d raw_db \<Rightarrow> 'd \<times> ('d \<Rightarrow> 'd raw_db)" where
  "raw_db_deref_mut (Borrowed n) = (n, Borrowed)"
| "raw_db_deref_mut (Owned n) = (n, Owned)"

lemma raw_db_lens [simp]:
  "fst (raw_db_deref_mut db) = raw_db_deref db" "raw_db_deref (snd (raw_db_deref_mut db) d) = d"
  "snd (raw_db_deref_mut db) (raw_db_deref db) = db" "snd (raw_db_deref_mut (snd (raw_db_deref_mut db) d)) e = snd (raw_db_deref_mut db) e"
  by (cases db; simp)+

record prefix_db_state =
  pb_prefix :: u64
  pb_raw :: "mem_store raw_db"

definition prefix_db_new :: "u64 \<Rightarrow> mem_store raw_db \<Rightarrow> prefix_db_state" where
  "prefix_db_new prefix raw = \<lparr>pb_prefix = prefix, pb_raw = raw\<rparr>"

abbreviation pb_store :: "prefix_db_state \<Rightarrow> mem_store" where
  "pb_store P \<equiv> raw_db_deref (pb_raw P)"

definition pb_write :: "mem_store \<Rightarrow> prefix_db_state \<Rightarrow> prefix_db_state" where
  "pb_write s P = P\<lparr>pb_raw := snd (raw_db_deref_mut (pb_raw P)) s\<rparr>"

definition prefix_database :: "hasher \<Rightarrow> prefix_db_state database" where
  "prefix_database H = \<lparr>
     db_get_node = (\<lambda>P. mem_get_node H (pb_store P)),
     db_update_node = (\<lambda>k n P. case mem_update_node k n (pb_store P) of (r, s) \<Rightarrow> (r, pb_write s P)),
     db_get_nearest_keys = (\<lambda>P. mem_get_nearest_keys (pb_prefix P) (pb_store P)),
     db_update_index = (\<lambda>k v P. pb_write (mem_update_index k v (pb_store P)) P),
     db_remove_index = (\<lambda>k P. pb_write (mem_remove_index k (pb_store P)) P),
     db_get_code = (\<lambda>h P. case mem_get_code h (pb_store P) of (c, s) \<Rightarrow> (c, pb_write s P))\<rparr>"

lemma pb_write_simps [simp]: "pb_store (pb_write s P) = s" "pb_prefix (pb_write s P) = pb_prefix P"
  "pb_write s (pb_write s' P) = pb_write s P" "pb_write (pb_store P) P = P"
  by (simp_all add: pb_write_def)

text \<open>The struct does what the store seen with its prefix does, whether it borrows or owns it.\<close>

lemma prefix_database_refines:
  "db_get_node (prefix_database H) P h = db_get_node (prefix_db H p) (pb_store P) h"
  "db_update_node (prefix_database H) k n P = apsnd (\<lambda>s. pb_write s P) (db_update_node (prefix_db H p) k n (pb_store P))"
  "db_get_nearest_keys (prefix_database H) P = db_get_nearest_keys (prefix_db H (pb_prefix P)) (pb_store P)"
  "db_update_index (prefix_database H) k v P = pb_write (db_update_index (prefix_db H p) k v (pb_store P)) P"
  "db_remove_index (prefix_database H) k P = pb_write (db_remove_index (prefix_db H p) k (pb_store P)) P"
  "db_get_code (prefix_database H) h P = apsnd (\<lambda>s. pb_write s P) (db_get_code (prefix_db H p) h (pb_store P))"
  by (simp_all add: prefix_database_def prefix_db_def mem_update_node_def mem_get_code_def)

text \<open>So all that is known of the trie over a store holds of the trie over the struct.\<close>

context trie_hasher begin

lemma prefix_database_trie_db: "trie_db H (prefix_database H) (\<lambda>P. mem_view H (pb_store P))"
proof (intro trie_db.intro trie_hasher_axioms, unfold_locales)
  fix P h show "db_get_node (prefix_database H) P h = Inr (mem_view H (pb_store P) h)"
    using prefix.get_node [of 0] by (simp add: prefix_database_refines(1) [where p = 0])
  fix k n
  show "\<exists>P'. db_update_node (prefix_database H) k n P = (Inr n, P') \<and>
      (\<forall>h. h \<noteq> k \<longrightarrow> mem_view H (pb_store P') h = mem_view H (pb_store P) h) \<and>
      (mem_view H (pb_store P') k = Some n \<or> (mem_view H (pb_store P') k = mem_view H (pb_store P) k \<and> mem_view H (pb_store P) k \<noteq> None))"
    using prefix.update_node [of 0 k n "pb_store P"] by (auto simp: prefix_database_refines(2) [where p = 0])
next
  fix k v P show "mem_view H (pb_store (db_update_index (prefix_database H) k v P)) = mem_view H (pb_store P)"
    using prefix.update_index [of 0] by (simp add: prefix_database_refines(4) [where p = 0])
  show "mem_view H (pb_store (db_remove_index (prefix_database H) k P)) = mem_view H (pb_store P)"
    using prefix.remove_index [of 0] by (simp add: prefix_database_refines(5) [where p = 0])
qed

end

interpretation mimc_prefix_store: trie_db "mimc_sum mont_ff K" "prefix_database (mimc_sum mont_ff K)"
  "\<lambda>P. mem_view (mimc_sum mont_ff K) (pb_store P)" for K
  by (rule mimc.prefix_database_trie_db)

end
