(* ===== verification/Entry_Points.thy ===== *)
theory Entry_Points
  imports Prover_App
begin

text \<open>
  The entry points of the program: the getters and the end of \<open>App\<close> (\<open>src/apps/prover/src/apps.rs\<close>)
  and the binaries under \<open>src/bin\<close>, with and without an enclave. The crates \<open>app\<close> (which
  calls \<open>App::run\<close>), \<open>sgxlib\<close> and the SGX runtime are parameters; the alive flag that \<open>App\<close>
  shares with its parts is a bool, which \<open>Alive::shutdown\<close> clears.
\<close>

section \<open>The application\<close>

record app =
  ap_alive :: bool
  ap_args :: "args option"

definition app_default :: app where
  "app_default = \<lparr>ap_alive = True, ap_args = None\<rparr>"

definition app_terminate :: "app \<Rightarrow> app" where
  "app_terminate a = a\<lparr>ap_alive := False\<rparr>"

definition app_shomei :: "(string \<Rightarrow> (string, 'c) result) \<Rightarrow> 'k config \<Rightarrow> ('e, 'c shomei) result" where
  "app_shomei connect cfg = shomei_new connect (cf_shomei cfg)"

definition app_prover :: "'k \<Rightarrow> 'k prover" where
  "app_prover gen_key = prover_new gen_key"

section \<open>The binary without an enclave\<close>

text \<open>
  What a process does, in order. The handler of an interrupt runs at any later time, so it is
  part of what is done, as the change that it makes.
\<close>

datatype process_step =
    Init_Logger
  | Set_Ctrlc "app \<Rightarrow> app"
  | Run_App app
  | Print string
  | Enter_Enclave nat string

definition std_main :: "process_step list" where
  "std_main = (let app = app_default in [Init_Logger, Set_Ctrlc app_terminate, Run_App app])"

section \<open>The enclave\<close>

datatype 's sgx_status = SGX_SUCCESS | SGX_Error 's

text \<open>\<open>app::run_enclave\<close> decodes the arguments and calls \<open>App::run\<close>.\<close>

definition enclave_entrypoint ::
  "(nat \<Rightarrow> string \<Rightarrow> (app, 's sgx_status, unit) comp) \<Rightarrow> nat \<Rightarrow> string \<Rightarrow> (app, 'e, 's sgx_status) comp" where
  "enclave_entrypoint run_enclave eid args app =
     (case run_enclave eid args app of
        (Inr _, app) \<Rightarrow> (Inr SGX_SUCCESS, app)
      | (Inl (Fail err), app) \<Rightarrow> (Inr err, app)
      | (Inl Panic, app) \<Rightarrow> (Inl Panic, app))"

definition enclave_terminate :: "(app, 'e, 's sgx_status) comp" where
  "enclave_terminate = bindc (modifyc app_terminate) (\<lambda>_. returnc SGX_SUCCESS)"

text \<open>A C string that is not UTF-8 panics; otherwise the place is printed and the enclave aborts.\<close>

definition assert_fail ::
  "(bytes \<Rightarrow> (string, string) result) \<Rightarrow> (nat \<Rightarrow> string) \<Rightarrow> bytes \<Rightarrow> bytes \<Rightarrow> nat \<Rightarrow> bytes \<Rightarrow> ('e, process_step) result" where
  "assert_fail to_str show_u32 assertion_ptr file_ptr line function_ptr =
     bind_result (unwrap (to_str assertion_ptr)) (\<lambda>assertion.
     bind_result (unwrap (to_str file_ptr)) (\<lambda>file.
     bind_result (unwrap (to_str function_ptr)) (\<lambda>function.
       Inr (Print (file @ '':'' @ show_u32 line @ '':'' @ function @ '':'' @ assertion)))))"

section \<open>The binary with an enclave\<close>

text \<open>
  With \<open>SGX_MRENCLAVE\<close> in the environment the measurement is printed and that is all. Otherwise
  the arguments go into the enclave as a JSON string. The handler of an interrupt calls
  \<open>enclave_terminate\<close>; \<open>sm_ecall\<close> is the outcome of the call into the enclave.
\<close>

record 's sgx_machine =
  sm_eid :: nat
  sm_mrenclave :: "(string, bytes) result"
  sm_debug_bytes :: "bytes \<Rightarrow> string"
  sm_to_json :: "string list \<Rightarrow> (string, string) result"
  sm_cstring :: "string \<Rightarrow> (string, string) result"
  sm_ecall :: "nat \<Rightarrow> string \<Rightarrow> ('s, unit) result"

definition sgx_main :: "'s sgx_machine \<Rightarrow> string option \<Rightarrow> string list \<Rightarrow> process_step list \<times> (string, unit) result" where
  "sgx_main M env_mrenclave args =
     (case env_mrenclave of
        Some _ \<Rightarrow>
          (case sm_mrenclave M of
             Inl _ \<Rightarrow> ([Init_Logger], Inl Panic)
           | Inr mrenclave \<Rightarrow> ([Init_Logger, Print (''mrenclave: '' @ sm_debug_bytes M mrenclave)], Inr ()))
      | None \<Rightarrow>
          (case bind_result (unwrap (sm_to_json M args)) (\<lambda>args. unwrap (sm_cstring M args)) of
             Inl e \<Rightarrow> ([Init_Logger], Inl e)
           | Inr args_ptr \<Rightarrow>
               ([Init_Logger, Set_Ctrlc (\<lambda>a. snd (enclave_terminate a :: (string, 's sgx_status) result \<times> app)), Enter_Enclave (sm_eid M) args_ptr],
                unwrap (sm_ecall M (sm_eid M) args_ptr))))"

text \<open>The remote attestation call passes its buffers on, the message before its size.\<close>

definition sgxlib_ra_ocall ::
  "('i \<Rightarrow> nat \<Rightarrow> 'o \<Rightarrow> nat \<Rightarrow> 'r) \<Rightarrow> nat \<Rightarrow> 'i \<Rightarrow> nat \<Rightarrow> 'o \<Rightarrow> 'r" where
  "sgxlib_ra_ocall on_call msg_in_size msg_in msg_out_size msg_out = on_call msg_in msg_in_size msg_out msg_out_size"

section \<open>What the entry points do\<close>

text \<open>The status the enclave returns is that of the run, and ending it stops the application.\<close>

lemma enclave_entrypoint_status:
  "enclave_entrypoint run eid args app = (Inr st, app') \<longleftrightarrow>
     (st = SGX_SUCCESS \<and> run eid args app = (Inr (), app')) \<or> run eid args app = (Inl (Fail st), app')"
  by (auto simp: enclave_entrypoint_def split: prod.splits sum.splits failure.splits)

lemma enclave_terminate_stops:
  "enclave_terminate a = (Inr SGX_SUCCESS, a\<lparr>ap_alive := False\<rparr>)"
  by (simp add: enclave_terminate_def app_terminate_def)

text \<open>Both binaries have set the handler of an interrupt before the application runs, and it stops
  the application, whatever its state.\<close>

lemma interrupt_stops_app:
  "std_main = [Init_Logger, Set_Ctrlc h, Run_App app_default] \<longleftrightarrow> h = (\<lambda>a. a\<lparr>ap_alive := False\<rparr>)"
  "fst (sgx_main M env args) = [Init_Logger, Set_Ctrlc h, Enter_Enclave eid json] \<Longrightarrow>
     h = (\<lambda>a. a\<lparr>ap_alive := False\<rparr>) \<and> env = None \<and> eid = sm_eid M \<and> bind_result (sm_to_json M args) (sm_cstring M) = Inr json"
  by (auto simp: std_main_def app_terminate_def fun_eq_iff sgx_main_def enclave_terminate_stops bind_result_def
      split: option.splits sum.splits elim!: unwrap.elims)

end
