(* ===== verification/Spec2Isabelle.thy ===== *)
theory Spec2Isabelle
  imports Trie_Typing Rpc_Outcome Node_Views Entry_Points
begin

text \<open>
  A model of the prover of the Linea roll-up (Rust, \<open>src/src\<close>) and its correctness properties.

  \<^bold>\<open>The program.\<close> The prover takes blocks of the layer 2 chain, runs them again inside an SGX
  enclave and signs a proof of execution. There are two ways to get the state a block runs on.
  \<open>generate_pob\<close> asks an execution client for the accounts the block touches, with their Merkle
  Patricia nodes, runs the block once to fetch what is missing, and \<open>execute\<close> runs it again from
  the collected proof of block; \<open>generate_poe\<close> does so for all blocks of a batch in parallel,
  checks the state roots and signs. \<open>generate_poe_v2\<close> instead asks the state manager (shomei)
  for the traces of a block: accesses to a sparse Merkle trie whose leaves form a linked list in
  the order of their keys, hashed with MiMC. The traces fill an in-memory store, and the state
  database \<open>ZkTrieState\<close> reads accounts and slots from it through a write-back cache. Beside
  this, a monitor keeps the signing key attested by the verifier contract, and a subscriber turns
  contract logs into tasks.

  \<^bold>\<open>The theories\<close>, in the order of the code's layers, with the sources they model:

  \<^item> \<open>Prelude\<close>: outcomes of a Rust function (a value, \<open>Err\<close>, a panic), operations on \<open>&mut\<close>
    state as state passing, invariants of such operations (\<open>keeps\<close>), big-endian encodings.
  \<^item> \<open>Fr_Field\<close>, \<open>Mimc\<close> (\<open>common/mimc\<close>): the field element over its limbs, the round constants,
    the digest, \<open>sum\<close>; a reference hash over the integers modulo the prime.
  \<^item> \<open>Zk_Utils\<close> (\<open>zktrie/src/utils.rs\<close>): leaf indices, paths, prefixes.
  \<^item> \<open>Zk_Node\<close> (\<open>node.rs\<close>, \<open>hash.rs\<close>): nodes, leaf openings, the static map of empty nodes.
  \<^item> \<open>Zk_Database\<close> (the trait \<open>Database\<close>), \<open>Sparse_Merkle_Trie\<close> (\<open>sparse_merkle_trie.rs\<close>),
    \<open>Zk_Trie\<close> and \<open>Zk_Trie_Runs\<close> (\<open>trie.rs\<close>): the trie and its linked list of leaves, over any
    store, and what its operations do to a trie of which some leaves are known.
  \<^item> \<open>Zk_Trace\<close> (\<open>trace.rs\<close>), \<open>Mem_Store\<close> (\<open>storage.rs\<close>): traces, the nodes they prove, the
    store built from them, its index by root and key, added Merkle proofs.
  \<^item> \<open>Node_Views\<close>: the display of nodes, their conversions, the store that is borrowed or owned.
  \<^item> \<open>Trie_Properties\<close>, \<open>Store_Integrity\<close>: the trie on this store; all reachable stores.
    \<open>Trie_Dictionary\<close>: the list of leaves and the finite map it stands for. \<open>Trie_Typing\<close>:
    complete tries, and the judgement \<open>sound\<close> for operations that may fail half way.
  \<^item> \<open>Linea_Account\<close>, \<open>Linea_Engine\<close> (\<open>linea/src/engine.rs\<close>): accounts, storage values and
    their encodings; the hooks of the consensus engine.
  \<^item> \<open>Linea_Trie\<close> (\<open>linea/src/trie.rs\<close>), \<open>Trie_Cache\<close> (\<open>cache.rs\<close>), \<open>Zk_State\<close>
    (\<open>zktrie_state.rs\<close>): the trait of tries, the write-back cache, the state database.
  \<^item> \<open>Block_Executor\<close>, \<open>Pob_Generator\<close> (\<open>block_executor.rs\<close>): block hashes, retries,
    preprocessing, both executions; the generation of a proof of block.
  \<^item> \<open>Shomei_Client\<close> (\<open>shomei/src/client.rs\<close>), \<open>Verifier_Client\<close> (\<open>verifier.rs\<close>),
    \<open>Batch_Task\<close> (\<open>batch_task.rs\<close>), \<open>Prover_Monitor\<close> (\<open>prover.rs\<close>): the clients, the log
    handler, the monitor of the key as a step relation.
  \<^item> \<open>Configuration\<close> (\<open>apps/prover/src/types.rs\<close>), \<open>Zk_Proving\<close> and \<open>Prover_App\<close>
    (\<open>apps.rs\<close>): configuration, command line, the two provers, RPC methods, the start.
    \<open>Entry_Points\<close> (\<open>src/bin\<close>): the two binaries, the enclave, the end of the application.
  \<^item> \<open>Traced_State\<close>, \<open>Trace_Replay\<close>, \<open>Block_Flush\<close>: store, trie, cache, state database and
    executor together; the writes that the traces of a block tell, run again over the block's
    store; the flush of all dirty accounts as a walk from root to root. \<open>State_Spec\<close>: the state
    database as a map of accounts, for all its clients. \<open>Block_Run\<close>: the execution of a block,
    whose transactions are clients, from its traces to the outcome. \<open>Rpc_Outcome\<close>: the two RPC
    methods end to end.

  \<^bold>\<open>How state and operations correspond.\<close> A struct is a record with the source's fields, an
  enum a datatype. A \<open>BTreeMap\<close> is a map; where the code iterates it, the sorted list of its
  keys. \<open>SH256\<close> and \<open>SU256\<close> are 256-bit words, \<open>SH160\<close> a 160-bit word, so that the order of
  words is the order of the keys; \<open>u64\<close> is a 64-bit word whose arithmetic wraps around, as in
  the release build; \<open>as_u64\<close> panics on larger numbers. A function on \<open>&mut self\<close> and a store
  returns its outcome and the state it leaves, on every path: what was written before an \<open>Err\<close>
  stays written. A closure is a function argument. A generic trait parameter is a record of the
  trait's methods (\<open>database\<close>, \<open>trie_trait\<close>, \<open>value_enc\<close>). Logging has no effect and is left
  out, except where it can panic.

  \<^bold>\<open>Interfaces.\<close> \<open>ff_field\<close>: what the ff crate documents of the generated field arithmetic;
  Montgomery arithmetic is an instance (\<open>mont\<close>). \<open>trie_hasher\<close>: a hash function that accepts whole
  32-byte blocks and returns 32 bytes; MiMC is an instance (\<open>mimc\<close>). \<open>node_db\<close>: reading a node
  shows the store as a map, writing updates it; \<open>trie_db\<close> joins the two, and the in-memory store is
  an instance of both. \<open>cached_trie\<close>: what the cache relies on, interpreted by the zk trie
  (\<open>linea_cached\<close>). \<open>state_interface\<close>: what a client of the state database relies on, interpreted
  by the database over a block's store (\<open>zk_state\<close>).

  \<^bold>\<open>What is shown.\<close> For the trie: \<open>put\<close> and \<open>remove\<close> relink the neighbours of a leaf and leave
  every other known leaf, a new trie has its head and tail, a read after a write gives what a
  map from slots to values gives, and the root is the one recomputed from the leaf. On a complete
  trie with linked leaves and a right index the operations refine a finite map; on a complete trie
  with any index they keep the trie complete and do not panic. The
  statements have a disjunct for the case that two different nodes among those stored have the
  same hash. In every reachable store, a node lies under the hash of its value. A store made
  of traces answers what the traces say, and account proofs are accepted exactly when they lead
  to the sub root. Together: the state a block runs on has the traced value of every account, code and
  slot, and the write of a trace whose proofs fit together reaches the trace's new root, but for
  the next link that the last written leaf has lost; the root tells exactly when it mattered. A
  flush follows the traces from the root that one write reaches to the next, and panics at a root
  where no trace starts. Between flushes the state database refines a map of accounts with a set
  of changed addresses and slots that can only be read; so what the transactions of a block see
  and write comes from this map, and whether its execution succeeds from the walk with the
  encoded changed accounts.
  For MiMC: \<open>sum\<close> is Miyaguchi-Preneel over the \<open>x ^ 17\<close> permutation. For the
  cache: reads return and writes change the current value, a flush hands over the dirty keys. For
  the provers: what an executed block, a generated proof of block and a signed batch contain, and
  end to end what the RPC methods \<open>test\<close> and \<open>prove\<close> return. For
  the monitor: the key changes only to an attested one, and does so when it can. Round trips and
  error branches of the encodings, the clients and the command line.

  \<^bold>\<open>Bounds.\<close> A path has 42 directions (a tag, 40 index bits, a tag); the recursions over the trie
  end at level 42, by the measure \<open>42 - lvl\<close>, which is the loop bound of the code.
  \<open>get_leaf_path_loop\<close> ends because its value is halved. \<open>retry_loop\<close> recurses on the number of
  tries. Every function is total, so no fuel is used. The monitor's loop does not end; it is the
  relation \<open>monitor_run\<close>, and \<open>wait_attested\<close> is given the polls it makes. The slots of the
  theorems on the trie are below \<open>2 ^ 40\<close>: \<open>get_leaf_path\<close> aliases larger indices.

  \<^bold>\<open>Parameters.\<close> Keccak, RLP, JSON, the solidity encoder, key generation and recovery, the
  EVM's block builder with its configuration, the Merkle Patricia trie, RPC clients and servers,
  the thread pool, clocks and the SGX quote are libraries: arguments of the definitions, with
  named hypotheses where a property needs a law of theirs. The thread pool of \<open>generate_poe\<close> is
  any function that runs the closure at most once for every block, in any order (\<open>runs_each\<close>): its
  threads share the map of outcomes only, under its lock. The numbers' checked \<open>+=\<close> and \<open>-=\<close> on balances are parameters of the state database.

  \<^bold>\<open>Not modelled\<close>: the Debug format of library types, derived decoders, commented-out code, tests,
  build scripts, and the Solidity contracts. Indices from \<open>2 ^ 40\<close> on are outside the theorems
  on tries, since their paths alias those of smaller indices.
\<close>

end
